(* ===== verification/Prelude.thy ===== *)
theory Prelude
  imports Main "HOL-Library.Word"
begin

text \<open>
  Shared vocabulary of the development: the machine integers of the C++ code (an
  \<open>unsigned long long\<close> is a 64-bit word, a \<open>uint32_t\<close> a 32-bit word), the ways a run can
  go wrong (\<open>fault\<close>) with the result type and its sequencing operator, and generic
  facts on lists and words used by several components.
\<close>

unbundle bit_operations_syntax

section \<open>Types\<close>

type_synonym ull = "64 word"
type_synonym uint32 = "32 word"
type_synonym byte = "8 word"
type_synonym fd = nat

text \<open>
  A run of the C++ code either goes on with a value or ends in one of these: a null
  pointer is dereferenced, an access leaves its object, a pointer outlives what it points to,
  an \<open>assert\<close> fails, \<open>memcpy\<close> is given overlapping regions, the code itself leaves the process with \<open>exit\<close> or \<open>abort\<close>, or a loop
  of it never ends (\<open>NoReturn\<close>).
\<close>

datatype fault =
  NullDeref | OutOfBounds | Dangling | AssertFail | Overlap | ProcessExit int | Abort | NoReturn

type_synonym 'a res = "fault + 'a"

definition bind_res :: "'a res \<Rightarrow> ('a \<Rightarrow> 'b res) \<Rightarrow> 'b res" where
  "bind_res m f = (case m of Inl e \<Rightarrow> Inl e | Inr x \<Rightarrow> f x)"

lemma bind_res_simps [simp]:
  "bind_res (Inl e) f = Inl e"
  "bind_res (Inr x) f = f x"
  by (simp_all add: bind_res_def)

lemma bind_res_Inr_conv: "bind_res m f = Inr y \<longleftrightarrow> (\<exists>x. m = Inr x \<and> f x = Inr y)"
  by (cases m) auto

lemma bind_res_Inl_conv:
  "bind_res m f = Inl e \<longleftrightarrow> m = Inl e \<or> (\<exists>x. m = Inr x \<and> f x = Inl e)"
  by (cases m) auto

lemma bind_res_assoc: "bind_res (bind_res m f) g = bind_res m (\<lambda>x. bind_res (f x) g)"
  by (cases m) auto

text \<open>Definitions that unfold a step of a machine.\<close>

named_theorems step_defs

section \<open>Lists\<close>

lemma nth_update_cases:
  "i < length xs \<Longrightarrow> xs[j := v] ! i = (if i = j then v else xs ! i)"
  by (simp add: nth_list_update)

lemma takeWhile_drop_step:
  "i < length xs \<Longrightarrow> P (xs ! i) \<Longrightarrow>
   takeWhile P (drop i xs) = xs ! i # takeWhile P (drop (Suc i) xs)"
  by (simp add: Cons_nth_drop_Suc [symmetric])

lemma takeWhile_drop_stop:
  "i < length xs \<Longrightarrow> \<not> P (xs ! i) \<Longrightarrow> takeWhile P (drop i xs) = []"
  by (simp add: Cons_nth_drop_Suc [symmetric])

lemma map_upt_shift_tail:
  "m < n \<Longrightarrow> map f [m..<n] = f m # map f [Suc m..<n]"
  by (simp add: upt_conv_Cons)

section \<open>Remainders\<close>

lemma add_mod_inj_nat:
  fixes a :: nat
  assumes "(a + i) mod n = (a + j) mod n" "i < n" "j < n"
  shows "i = j"
proof -
  have le: "i = j" if "(a + i) mod n = (a + j) mod n" "i \<le> j" "j < n" for i j
  proof -
    have "n dvd (a + j) - (a + i)"
      by (rule mod_eq_dvd_iff_nat [THEN iffD1]) (use that in simp_all)
    then show ?thesis using that by (auto dest: dvd_imp_le)
  qed
  show ?thesis using le [of i j] le [of j i] assms by (cases "i \<le> j") auto
qed

section \<open>Words\<close>

lemma unat_lt_power: "unat (x :: 'a::len word) < 2 ^ LENGTH('a)"
  by (rule unsigned_less)

lemma unat_drop_bit_Suc_0 [simp]: "unat (drop_bit (Suc 0) x) = unat (x :: 'a::len word) div 2"
  using unat_drop_bit_eq [of "Suc 0" x] by (simp add: drop_bit_eq_div)

lemma unat_2_power: "n < LENGTH('a) \<Longrightarrow> unat ((2 :: 'a::len word) ^ n) = 2 ^ n"
proof -
  assume n: "n < LENGTH('a)"
  have "(2 :: 'a word) ^ n = of_nat (2 ^ n)" by simp
  then show ?thesis
    using n by (simp only: unat_of_nat) (simp add: power_strict_increasing_iff)
qed

lemma unat_push_bit_1:
  "n < LENGTH('a) \<Longrightarrow> unat (push_bit n (1 :: 'a::len word)) = 2 ^ n"
  by (simp add: push_bit_eq_mult unat_2_power)

lemma unat_minus_1: "x \<noteq> 0 \<Longrightarrow> unat (x - 1 :: 'a::len word) = unat x - 1"
  by (rule unat_minus_one)

text \<open>A mask \<open>size - 1\<close> with \<open>size\<close> a power of two keeps the remainder.\<close>

lemma unat_and_pow2_mask:
  fixes x s :: "'a::len word"
  assumes "unat s = 2 ^ k"
  shows "unat (x AND (s - 1)) = unat x mod 2 ^ k"
proof -
  have k: "k < LENGTH('a)"
    using unat_lt_power [of s] assms by (simp add: power_strict_increasing_iff)
  have "s = 2 ^ k"
    by (rule word_unat_eq_iff [THEN iffD2]) (simp add: assms unat_2_power k)
  then have "s - 1 = mask k"
    by (simp add: mask_eq_exp_minus_1)
  then have "unat (x AND (s - 1)) = unat (take_bit k x)"
    by (simp add: take_bit_eq_mask)
  also have "\<dots> = take_bit k (unat x)"
    by (rule unsigned_take_bit_eq)
  finally show ?thesis
    by (simp only: take_bit_eq_mod [of k "unat x"])
qed

end
