(* ===== verification/Bit_Util.thy ===== *)
theory Bit_Util
  imports Prelude
begin

text \<open>
  The bit arithmetic of \<open>util.h\<close> (lines 106 to 149): \<open>is_power_of_2\<close>,
  \<open>find_last_set_bit\<close>, \<open>roundup_pow_of_two\<close> and \<open>rounddown_pow_of_two\<close>, on 64-bit
  words as in the code. The ring buffers and the stream buffers round their sizes with these,
  and the packet reader sizes its buffer with the last one.
\<close>

section \<open>The operations\<close>

definition is_power_of_2 :: "ull \<Rightarrow> bool" where
  "is_power_of_2 x \<longleftrightarrow> x \<noteq> 0 \<and> x AND (x - 1) = 0"

text \<open>The loop of \<open>find_last_set_bit\<close>: shift right until zero, counting.\<close>

function shift_count :: "ull \<Rightarrow> int \<Rightarrow> int" where
  "shift_count x cnt = (if x \<noteq> 0 then shift_count (drop_bit 1 x) (cnt + 1) else cnt)"
  by pat_completeness auto
termination
proof (relation "measure (\<lambda>(x, cnt). unat x)")
  fix x :: ull and cnt :: int
  assume "x \<noteq> 0"
  then have "0 < unat x" by (simp add: unat_gt_0)
  then show "((drop_bit 1 x, cnt + 1), (x, cnt)) \<in> measure (\<lambda>(x, cnt). unat x)"
    by simp
qed simp

declare shift_count.simps [simp del]

definition find_last_set_bit :: "ull \<Rightarrow> int" where
  "find_last_set_bit x =
     (let cnt = (if x \<noteq> 0 then shift_count (drop_bit 1 x) 0 else - 1) in cnt + 1)"

definition roundup_pow_of_two :: "ull \<Rightarrow> ull" where
  "roundup_pow_of_two x =
     (let cnt = find_last_set_bit (x - 1)
      in if cnt < 64 then push_bit (nat cnt) 1 else 0)"

definition rounddown_pow_of_two :: "ull \<Rightarrow> ull" where
  "rounddown_pow_of_two x =
     (if x = 0 then 0 else push_bit (nat (find_last_set_bit x - 1)) 1)"

section \<open>What they compute\<close>

text \<open>\<open>find_last_set_bit x\<close> is the length of \<open>x\<close> in binary.\<close>

fun bit_len :: "nat \<Rightarrow> nat" where
  "bit_len n = (if n = 0 then 0 else Suc (bit_len (n div 2)))"

declare bit_len.simps [simp del]

lemma bit_len_0 [simp]: "bit_len 0 = 0"
  by (subst bit_len.simps) simp

lemma bit_len_pos: "0 < n \<Longrightarrow> bit_len n = Suc (bit_len (n div 2))"
  by (subst bit_len.simps) simp

lemma shift_count_bit_len: "shift_count x cnt = cnt + int (bit_len (unat x))"
proof (induction x cnt rule: shift_count.induct)
  case (1 x cnt)
  show ?case
  proof (cases "x = 0")
    case True
    then show ?thesis by (simp add: shift_count.simps)
  next
    case False
    then have "bit_len (unat x) = Suc (bit_len (unat x div 2))"
      by (intro bit_len_pos) (simp add: unat_gt_0)
    with False 1 show ?thesis
      by (simp add: shift_count.simps [of x cnt])
  qed
qed

lemma find_last_set_bit_bit_len: "find_last_set_bit x = int (bit_len (unat x))"
proof (cases "x = 0")
  case False
  then have "bit_len (unat x) = Suc (bit_len (unat x div 2))"
    by (intro bit_len_pos) (simp add: unat_gt_0)
  with False show ?thesis
    by (simp add: find_last_set_bit_def shift_count_bit_len)
qed (simp add: find_last_set_bit_def)

lemma bit_len_bounds: "n < 2 ^ bit_len n \<and> (0 < n \<longrightarrow> 2 ^ (bit_len n - 1) \<le> n)"
proof (induction n rule: bit_len.induct)
  case (1 n)
  show ?case
  proof (cases "n = 0")
    case False
    then have IH: "n div 2 < 2 ^ bit_len (n div 2)"
      "0 < n div 2 \<longrightarrow> 2 ^ (bit_len (n div 2) - 1) \<le> n div 2"
      using 1 by auto
    have len: "bit_len n = Suc (bit_len (n div 2))"
      using False by (simp add: bit_len_pos)
    have "n < 2 ^ bit_len n" using IH(1) len by simp
    moreover have "2 ^ (bit_len n - 1) \<le> n"
    proof (cases "n div 2 = 0")
      case True
      then show ?thesis using len False by simp
    next
      case False
      then have "2 ^ bit_len (n div 2) = 2 * 2 ^ (bit_len (n div 2) - 1)"
        by (simp add: bit_len_pos)
      also have "\<dots> \<le> 2 * (n div 2)" using IH(2) False by simp
      also have "\<dots> \<le> n" by simp
      finally show ?thesis using len by simp
    qed
    ultimately show ?thesis by blast
  qed simp
qed

lemma bit_len_upper: "n < 2 ^ bit_len n"
  using bit_len_bounds by blast

lemma bit_len_lower: "0 < n \<Longrightarrow> 2 ^ (bit_len n - 1) \<le> n"
  using bit_len_bounds by blast

lemma bit_len_le: "n < 2 ^ k \<Longrightarrow> bit_len n \<le> k"
proof (cases "n = 0")
  case False
  assume "n < 2 ^ k"
  then have "2 ^ (bit_len n - 1) < (2 :: nat) ^ k"
    using bit_len_lower [of n] False by linarith
  then show ?thesis by (simp add: power_strict_increasing_iff)
qed simp

lemma bit_len_power: "bit_len (2 ^ k) = Suc k"
  by (induction k) (simp_all add: bit_len_pos)

lemma is_power_of_2_iff: "is_power_of_2 x \<longleftrightarrow> (\<exists>k < 64. x = 2 ^ k)"
proof
  assume p: "is_power_of_2 x"
  define n where "n = bit_len (unat x) - 1"
  have x: "x \<noteq> 0" using p by (simp add: is_power_of_2_def)
  then have pos: "0 < unat x" by (simp add: unat_gt_0)
  have "bit_len (unat x) \<le> 64"
    using bit_len_le [of "unat x" 64] unat_lt_power [of x] by simp
  moreover have len: "bit_len (unat x) = Suc n"
    using pos bit_len_pos by (simp add: n_def)
  ultimately have n: "n < 64" by simp
  have lo: "2 ^ n \<le> unat x" using bit_len_lower [OF pos] by (simp add: n_def)
  have hi: "unat x < 2 ^ Suc n" using bit_len_upper [of "unat x"] len by simp
  have "unat x = 2 ^ n"
  proof (rule ccontr)
    assume "unat x \<noteq> 2 ^ n"
    with lo have "2 ^ n \<le> unat x - 1" by simp
    moreover have "unat x - 1 < 2 ^ Suc n" using hi by simp
    ultimately have "unat (x - 1) div 2 ^ n = 1" "unat x div 2 ^ n = 1"
      using lo hi x by (simp_all add: unat_minus_1 div_nat_eqI)
    then have "bit (unat (x - 1)) n" "bit (unat x) n"
      by (simp_all add: bit_iff_odd)
    then have "bit (x AND (x - 1)) n"
      using n by (simp add: bit_and_iff bit_unsigned_iff)
    then show False using p by (simp add: is_power_of_2_def)
  qed
  then have "x = 2 ^ n"
    using n by (simp add: word_unat_eq_iff unat_2_power)
  then show "\<exists>k < 64. x = 2 ^ k" using n by blast
next
  assume "\<exists>k < 64. x = 2 ^ k"
  then obtain k where k: "k < 64" "x = 2 ^ k" by blast
  then have "unat (x AND (x - 1)) = 2 ^ k mod 2 ^ k"
    using unat_and_pow2_mask [of x k x] by (simp add: unat_2_power)
  then have "x AND (x - 1) = 0" by (simp add: unat_eq_0)
  moreover have "unat x \<noteq> 0" using k by (simp add: unat_2_power)
  then have "x \<noteq> 0" by (simp add: unat_0_iff)
  ultimately show "is_power_of_2 x" by (simp add: is_power_of_2_def)
qed


lemma unat_roundup_pow_of_two:
  "unat (roundup_pow_of_two x) =
     (if x = 0 \<or> 2 ^ 63 < unat x then 0 else 2 ^ bit_len (unat x - 1))"
proof (cases "x = 0")
  case True
  have "bit_len (2 ^ 64 - 1) = 64"
  proof (rule antisym)
    show "bit_len (2 ^ 64 - 1) \<le> 64" by (rule bit_len_le) simp
    show "64 \<le> bit_len (2 ^ 64 - 1)"
    proof (rule ccontr)
      assume "\<not> 64 \<le> bit_len (2 ^ 64 - 1)"
      then have "(2 :: nat) ^ bit_len (2 ^ 64 - 1) \<le> 2 ^ 63"
        by (intro power_increasing) simp_all
      with bit_len_upper [of "2 ^ 64 - 1"] show False by simp
    qed
  qed
  moreover have "unat (- 1 :: ull) = 2 ^ 64 - 1"
    by (simp add: unsigned_minus_1_eq_mask mask_eq_exp_minus_1)
  ultimately show ?thesis
    using True by (simp add: roundup_pow_of_two_def find_last_set_bit_bit_len)
next
  case False
  then have m: "unat (x - 1) = unat x - 1" by (rule unat_minus_1)
  have lt: "unat x < 2 ^ 64" using unat_lt_power [of x] by simp
  show ?thesis
  proof (cases "2 ^ 63 < unat x")
    case True
    have "\<not> bit_len (unat x - 1) \<le> 63"
    proof
      assume "bit_len (unat x - 1) \<le> 63"
      then have "(2 :: nat) ^ bit_len (unat x - 1) \<le> 2 ^ 63"
        by (rule power_increasing) simp
      then show False using bit_len_upper [of "unat x - 1"] True by linarith
    qed
    with True m show ?thesis
      by (simp add: roundup_pow_of_two_def find_last_set_bit_bit_len)
  next
    case False
    then have "bit_len (unat x - 1) \<le> 63"
      using \<open>x \<noteq> 0\<close> by (intro bit_len_le) (simp add: unat_gt_0)
    with False \<open>x \<noteq> 0\<close> m show ?thesis
      by (simp add: roundup_pow_of_two_def find_last_set_bit_bit_len unat_2_power)
  qed
qed

lemma roundup_pow_of_two_cases:
  "roundup_pow_of_two x = 0 \<or> (\<exists>k < 64. roundup_pow_of_two x = 2 ^ k)"
proof (cases "x = 0 \<or> 2 ^ 63 < unat x")
  case True
  then have "unat (roundup_pow_of_two x) = 0" by (simp add: unat_roundup_pow_of_two)
  then show ?thesis by (simp add: unat_0_iff)
next
  case False
  then have k: "bit_len (unat x - 1) \<le> 63"
    by (intro bit_len_le) (use unat_gt_0 [of x] in linarith)
  then have "roundup_pow_of_two x = 2 ^ bit_len (unat x - 1)"
    using False by (simp add: word_unat_eq_iff unat_roundup_pow_of_two unat_2_power)
  with k show ?thesis by (intro disjI2 exI [of _ "bit_len (unat x - 1)"]) simp
qed

lemma unat_rounddown_pow_of_two:
  "x \<noteq> 0 \<Longrightarrow> unat (rounddown_pow_of_two x) = 2 ^ (bit_len (unat x) - 1)"
proof -
  assume x: "x \<noteq> 0"
  then have "0 < bit_len (unat x)" by (simp add: bit_len_pos unat_gt_0)
  moreover have "bit_len (unat x) \<le> 64"
    using bit_len_le [of "unat x" 64] unat_lt_power [of x] by simp
  moreover have "nat (int (bit_len (unat x)) - 1) = bit_len (unat x) - 1"
    by simp
  ultimately show ?thesis
    using x by (simp add: rounddown_pow_of_two_def find_last_set_bit_bit_len unat_2_power)
qed

text \<open>C24. Rounding up (\<open>roundup_pow_of_two\<close>, used for every ring buffer and stream buffer):
  from 1 to \<open>2 ^ 63\<close> the result is a power of two, not below the argument, and the least
  such; outside that range the code's answer is 0, which its callers test for.\<close>

theorem roundup_pow_of_two_least:
  "(x = 0 \<or> 2 ^ 63 < unat x \<longrightarrow> roundup_pow_of_two x = 0) \<and>
   (x \<noteq> 0 \<and> unat x \<le> 2 ^ 63 \<longrightarrow>
      is_power_of_2 (roundup_pow_of_two x) \<and> unat x \<le> unat (roundup_pow_of_two x) \<and>
      (\<forall>y. is_power_of_2 y \<and> unat x \<le> unat y \<longrightarrow>
           unat (roundup_pow_of_two x) \<le> unat y))"
proof (intro conjI impI allI)
  assume "x = 0 \<or> 2 ^ 63 < unat x"
  then have "unat (roundup_pow_of_two x) = 0" by (simp add: unat_roundup_pow_of_two)
  then show "roundup_pow_of_two x = 0" by (simp add: unat_0_iff)
next
  let ?k = "bit_len (unat x - 1)"
  assume x: "x \<noteq> 0 \<and> unat x \<le> 2 ^ 63"
  then have u: "unat (roundup_pow_of_two x) = 2 ^ ?k"
    by (simp add: unat_roundup_pow_of_two)
  have pos: "0 < unat x" using x by (simp add: unat_gt_0)
  have "?k \<le> 63" using x pos by (intro bit_len_le) linarith
  then have "roundup_pow_of_two x = 2 ^ ?k"
    using u by (simp add: word_unat_eq_iff unat_2_power)
  then show "is_power_of_2 (roundup_pow_of_two x)"
    using \<open>?k \<le> 63\<close> by (auto simp: is_power_of_2_iff intro!: exI [of _ ?k])
  show "unat x \<le> unat (roundup_pow_of_two x)"
    using bit_len_upper [of "unat x - 1"] u by simp
  fix y
  assume y: "is_power_of_2 y \<and> unat x \<le> unat y"
  then obtain j where j: "j < 64" "y = 2 ^ j" by (auto simp: is_power_of_2_iff)
  then have "unat x \<le> 2 ^ j" using y by (simp add: unat_2_power)
  then have "?k \<le> j" using pos by (intro bit_len_le) simp
  then show "unat (roundup_pow_of_two x) \<le> unat y"
    using j u by (simp add: unat_2_power)
qed

theorem roundup_pow_of_two_least_witness:
  "roundup_pow_of_two 0 = 0 \<and> 1000 \<le> unat (roundup_pow_of_two 1000)"
  using roundup_pow_of_two_least [of 0] roundup_pow_of_two_least [of 1000] by simp

text \<open>Rounding down (\<open>rounddown_pow_of_two\<close>): for a positive argument the result is a
  power of two at most the argument and more than half of it, so a buffer of that size holds
  the argument only when the argument is itself a power of two.\<close>

theorem rounddown_pow_of_two_below:
  assumes "x \<noteq> 0"
  shows "is_power_of_2 (rounddown_pow_of_two x) \<and>
    unat (rounddown_pow_of_two x) \<le> unat x \<and>
    unat x < 2 * unat (rounddown_pow_of_two x) \<and>
    (unat x \<le> unat (rounddown_pow_of_two x) \<longleftrightarrow> is_power_of_2 x)"
proof -
  let ?k = "bit_len (unat x) - 1"
  have pos: "0 < unat x" using assms by (simp add: unat_gt_0)
  have u: "unat (rounddown_pow_of_two x) = 2 ^ ?k"
    using assms by (rule unat_rounddown_pow_of_two)
  have k: "?k < 64"
    using bit_len_le [of "unat x" 64] unat_lt_power [of x] pos by (simp add: bit_len_pos)
  have e: "rounddown_pow_of_two x = 2 ^ ?k"
    using u k by (simp add: word_unat_eq_iff unat_2_power)
  have p: "is_power_of_2 (rounddown_pow_of_two x)"
    using e k by (auto simp: is_power_of_2_iff)
  have lo: "2 ^ ?k \<le> unat x" using pos by (rule bit_len_lower)
  have hi: "unat x < 2 * 2 ^ ?k"
    using bit_len_upper [of "unat x"] pos by (simp add: bit_len_pos)
  have "unat x \<le> 2 ^ ?k \<longleftrightarrow> is_power_of_2 x"
  proof
    assume "unat x \<le> 2 ^ ?k"
    with lo have "unat x = unat (rounddown_pow_of_two x)" using u by simp
    then have "x = rounddown_pow_of_two x" by (simp only: word_unat_eq_iff)
    then show "is_power_of_2 x" using p by simp
  next
    assume "is_power_of_2 x"
    then obtain j where "j < 64" "x = 2 ^ j" by (auto simp: is_power_of_2_iff)
    then show "unat x \<le> 2 ^ ?k" by (simp add: unat_2_power bit_len_power)
  qed
  with p lo hi u show ?thesis by simp
qed

theorem rounddown_pow_of_two_below_witness:
  "(200 :: ull) \<noteq> 0 \<and> unat (rounddown_pow_of_two 200) \<le> 200"
  using rounddown_pow_of_two_below [of 200] by simp

end
