(* ===== verification/Heap4.thy ===== *)
theory Heap4
  imports Prelude "HOL-Library.Multiset"
begin

text \<open>
  The generic 4-ary heap of \<open>common.h\<close> (lines 40 to 112): \<open>downheap\<close>, \<open>upheap\<close>,
  \<open>adjustheap\<close> and \<open>buildheap\<close> over an array and a comparator (\<open>std::less\<close> unless the
  caller passes another). The array is a list, the \<open>int\<close> positions are natural numbers (the
  code's \<open>4 * p + 1\<close> stays below \<open>2 ^ 31\<close> for the sizes its callers use). The comparator is
  a parameter of every operation; the laws the code needs of it are the locale
  \<open>strict_weak_order\<close>, interpreted below for \<open>std::less\<close>.
\<close>

section \<open>The operations\<close>

definition PARENT :: "nat \<Rightarrow> nat" where
  "PARENT p = (p - 1) div 4"

definition LCHILD :: "nat \<Rightarrow> nat" where
  "LCHILD p = 4 * p + 1"

lemma PARENT_less [termination_simp]: "0 < i \<Longrightarrow> PARENT i < i"
  by (simp add: PARENT_def)

text \<open>The search for the smallest child; \<open>None\<close> when there is no child.\<close>

definition min_child :: "('a \<Rightarrow> 'a \<Rightarrow> bool) \<Rightarrow> 'a list \<Rightarrow> nat \<Rightarrow> nat \<Rightarrow> nat option" where
  "min_child lt heap sz lchild =
     (if lchild + 4 - 1 < sz then
        (let m = lchild;
             m = (if lt (heap ! (lchild + 1)) (heap ! m) then lchild + 1 else m);
             m = (if lt (heap ! (lchild + 2)) (heap ! m) then lchild + 2 else m);
             m = (if lt (heap ! (lchild + 3)) (heap ! m) then lchild + 3 else m)
         in Some m)
      else if lchild < sz then
        (let m = lchild;
             m = (if lchild + 1 < sz \<and> lt (heap ! (lchild + 1)) (heap ! m) then lchild + 1 else m);
             m = (if lchild + 2 < sz \<and> lt (heap ! (lchild + 2)) (heap ! m) then lchild + 2 else m)
         in Some m)
      else None)"

lemma min_child_range:
  "min_child lt heap sz lchild = Some m \<Longrightarrow> lchild \<le> m \<and> m < sz \<and> m < lchild + 4"
  by (auto simp: min_child_def Let_def split: if_splits)

lemma min_child_None: "min_child lt heap sz lchild = None \<longleftrightarrow> sz \<le> lchild"
  by (auto simp: min_child_def Let_def)

text \<open>The loop of \<open>downheap\<close>: the smaller child moves up until \<open>bak\<close> fits in the hole.\<close>

function downheap_loop ::
  "('a \<Rightarrow> 'a \<Rightarrow> bool) \<Rightarrow> nat \<Rightarrow> 'a list \<Rightarrow> nat \<Rightarrow> 'a \<Rightarrow> 'a list \<times> nat" where
  "downheap_loop lt sz heap pos bak =
     (case min_child lt heap sz (LCHILD pos) of
        None \<Rightarrow> (heap, pos)
      | Some m \<Rightarrow>
          if lt bak (heap ! m) then (heap, pos)
          else downheap_loop lt sz (heap[pos := heap ! m]) m bak)"
  by pat_completeness auto
termination
  by (relation "measure (\<lambda>(lt, sz, heap, pos, bak). sz - pos)")
    (auto dest!: min_child_range simp: LCHILD_def)

declare downheap_loop.simps [simp del]

definition downheap :: "('a \<Rightarrow> 'a \<Rightarrow> bool) \<Rightarrow> 'a list \<Rightarrow> nat \<Rightarrow> nat \<Rightarrow> 'a list" where
  "downheap lt heap sz pos =
     (let bak = heap ! pos; (h, p) = downheap_loop lt sz heap pos bak in h[p := bak])"

fun upheap_loop ::
  "('a \<Rightarrow> 'a \<Rightarrow> bool) \<Rightarrow> 'a list \<Rightarrow> nat \<Rightarrow> 'a \<Rightarrow> 'a list \<times> nat" where
  "upheap_loop lt heap pos bak =
     (if pos = 0 then (heap, pos)
      else if lt (heap ! PARENT pos) bak then (heap, pos)
      else upheap_loop lt (heap[pos := heap ! PARENT pos]) (PARENT pos) bak)"

declare upheap_loop.simps [simp del]

definition upheap :: "('a \<Rightarrow> 'a \<Rightarrow> bool) \<Rightarrow> 'a list \<Rightarrow> nat \<Rightarrow> 'a list" where
  "upheap lt heap pos =
     (let bak = heap ! pos; (h, p) = upheap_loop lt heap pos bak in h[p := bak])"

definition adjustheap :: "('a \<Rightarrow> 'a \<Rightarrow> bool) \<Rightarrow> 'a list \<Rightarrow> nat \<Rightarrow> nat \<Rightarrow> 'a list" where
  "adjustheap lt heap sz pos =
     (if pos \<noteq> 0 \<and> lt (heap ! pos) (heap ! PARENT pos)
      then upheap lt heap pos else downheap lt heap sz pos)"

fun buildheap_loop :: "('a \<Rightarrow> 'a \<Rightarrow> bool) \<Rightarrow> 'a list \<Rightarrow> nat \<Rightarrow> 'a list" where
  "buildheap_loop lt heap 0 = heap"
| "buildheap_loop lt heap (Suc i) = upheap lt (buildheap_loop lt heap i) i"

definition buildheap :: "('a \<Rightarrow> 'a \<Rightarrow> bool) \<Rightarrow> 'a list \<Rightarrow> nat \<Rightarrow> 'a list" where
  "buildheap lt heap sz = buildheap_loop lt heap sz"

section \<open>Positions\<close>

lemma PARENT_child: "0 < i \<Longrightarrow> PARENT i = p \<longleftrightarrow> LCHILD p \<le> i \<and> i < LCHILD p + 4"
  by (auto simp: PARENT_def LCHILD_def)

lemma min_child_parent:
  assumes "min_child lt heap sz (LCHILD pos) = Some m"
  shows "0 < m" "m < sz" "PARENT m = pos" "pos < m" "m \<noteq> pos"
proof -
  have r: "LCHILD pos \<le> m" "m < sz" "m < LCHILD pos + 4"
    using min_child_range [OF assms] by auto
  then show "0 < m" "m < sz" "pos < m" "m \<noteq> pos" by (auto simp: LCHILD_def)
  with r show "PARENT m = pos" by (simp add: PARENT_child)
qed

definition swap :: "'a list \<Rightarrow> nat \<Rightarrow> nat \<Rightarrow> 'a list" where
  "swap xs i j = xs[i := xs ! j, j := xs ! i]"

lemma length_swap [simp]: "length (swap xs i j) = length xs"
  by (simp add: swap_def)

lemma mset_swap_list [simp]:
  "i < length xs \<Longrightarrow> j < length xs \<Longrightarrow> mset (swap xs i j) = mset xs"
  by (simp add: swap_def mset_swap)

lemma nth_swap:
  "i < length xs \<Longrightarrow> j < length xs \<Longrightarrow> k < length xs \<Longrightarrow>
   swap xs i j ! k = (if k = j then xs ! i else if k = i then xs ! j else xs ! k)"
  by (auto simp: swap_def nth_list_update)

text \<open>Moving an element into the hole is a swap of the array with \<open>bak\<close> put back.\<close>

lemma hole_move_swap:
  assumes "pos < length h" "m < length h" "m \<noteq> pos"
  shows "(h[pos := h ! m])[m := bak] = swap (h[pos := bak]) pos m"
  using assms by (simp add: swap_def list_update_swap nth_list_update)

lemma downheap_loop_perm:
  assumes "sz \<le> length h" "pos < sz" "downheap_loop lt sz h pos bak = (h', p')"
  shows "p' < sz \<and> length h' = length h \<and> mset (h'[p' := bak]) = mset (h[pos := bak]) \<and>
    (\<forall>i \<ge> sz. h' ! i = h ! i)"
  using assms
proof (induction lt sz h pos bak rule: downheap_loop.induct)
  case (1 lt sz h pos bak)
  show ?case
  proof (cases "min_child lt h sz (LCHILD pos)")
    case None
    with 1 show ?thesis by (simp add: downheap_loop.simps)
  next
    case (Some m)
    note m = min_child_parent [OF Some]
    show ?thesis
    proof (cases "lt bak (h ! m)")
      case True
      with 1 Some show ?thesis by (simp add: downheap_loop.simps)
    next
      case False
      have e: "downheap_loop lt sz (h[pos := h ! m]) m bak = (h', p')"
        using 1 Some False by (simp add: downheap_loop.simps [of lt sz h pos bak])
      have "mset ((h[pos := h ! m])[m := bak]) = mset (h[pos := bak])"
        using 1(2,3) m by (subst hole_move_swap) simp_all
      moreover have "\<forall>i \<ge> sz. (h[pos := h ! m]) ! i = h ! i" using 1(3) by simp
      ultimately show ?thesis
        using 1(1) [OF Some False _ _ e] 1(2) m by simp
    qed
  qed
qed

lemma upheap_loop_perm:
  assumes "pos < length h" "upheap_loop lt h pos bak = (h', p')"
  shows "p' \<le> pos \<and> length h' = length h \<and> mset (h'[p' := bak]) = mset (h[pos := bak]) \<and>
    (\<forall>i > pos. h' ! i = h ! i)"
  using assms
proof (induction lt h pos bak rule: upheap_loop.induct)
  case (1 lt h pos bak)
  show ?case
  proof (cases "pos = 0 \<or> lt (h ! PARENT pos) bak")
    case True
    with 1 show ?thesis by (auto simp: upheap_loop.simps [of lt h pos bak] split: if_splits)
  next
    case False
    then have p: "PARENT pos < pos" by (simp add: PARENT_less)
    have e: "upheap_loop lt (h[pos := h ! PARENT pos]) (PARENT pos) bak = (h', p')"
      using 1 False by (simp add: upheap_loop.simps [of lt h pos bak])
    have "mset ((h[pos := h ! PARENT pos])[PARENT pos := bak]) = mset (h[pos := bak])"
      using 1(2) p by (subst hole_move_swap) simp_all
    then show ?thesis
      using 1(1) [OF _ _ _ e] False p 1(2) by auto
  qed
qed

lemma downheap_perm:
  assumes "sz \<le> length h" "pos < sz"
  shows "length (downheap lt h sz pos) = length h \<and> mset (downheap lt h sz pos) = mset h \<and>
   (\<forall>i \<ge> sz. downheap lt h sz pos ! i = h ! i)"
proof -
  obtain h' p' where e: "downheap_loop lt sz h pos (h ! pos) = (h', p')" by fastforce
  from downheap_loop_perm [OF assms e] show ?thesis by (simp add: downheap_def e)
qed

lemma upheap_perm:
  assumes "pos < length h"
  shows "length (upheap lt h pos) = length h \<and> mset (upheap lt h pos) = mset h \<and>
   (\<forall>i > pos. upheap lt h pos ! i = h ! i)"
proof -
  obtain h' p' where e: "upheap_loop lt h pos (h ! pos) = (h', p')" by fastforce
  from upheap_loop_perm [OF assms e] show ?thesis by (simp add: upheap_def e)
qed

lemma buildheap_loop_perm:
  "sz \<le> length h \<Longrightarrow>
   length (buildheap_loop lt h sz) = length h \<and> mset (buildheap_loop lt h sz) = mset h \<and>
   (\<forall>i \<ge> sz. buildheap_loop lt h sz ! i = h ! i)"
proof (induction sz)
  case (Suc i)
  then show ?case
    using upheap_perm [of i "buildheap_loop lt h i" lt] by auto
qed simp

text \<open>A permutation that leaves the tail alone permutes the front.\<close>

lemma mset_take_eq:
  assumes "length xs = length ys" "mset xs = mset ys" "\<forall>i \<ge> n. xs ! i = ys ! i"
  shows "mset (take n xs) = mset (take n ys)"
proof -
  have "drop n xs = drop n ys"
    using assms(1,3) by (intro nth_equalityI) auto
  moreover have "mset (take n xs) + mset (drop n xs) = mset (take n ys) + mset (drop n ys)"
    using assms(2) by (simp flip: mset_append)
  ultimately show ?thesis by simp
qed

section \<open>Heap order\<close>

text \<open>No element of the first \<open>sz\<close> is smaller than its parent.\<close>

definition heap_ordered :: "('a \<Rightarrow> 'a \<Rightarrow> bool) \<Rightarrow> 'a list \<Rightarrow> nat \<Rightarrow> bool" where
  "heap_ordered lt h sz \<longleftrightarrow> (\<forall>i. 0 < i \<and> i < sz \<longrightarrow> \<not> lt (h ! i) (h ! PARENT i))"

text \<open>The children of \<open>pos\<close> are not smaller than the parent of \<open>pos\<close>.\<close>

definition over_hole :: "('a \<Rightarrow> 'a \<Rightarrow> bool) \<Rightarrow> 'a list \<Rightarrow> nat \<Rightarrow> nat \<Rightarrow> bool" where
  "over_hole lt h sz pos \<longleftrightarrow>
     (0 < pos \<longrightarrow> (\<forall>i. 0 < i \<and> i < sz \<and> PARENT i = pos \<longrightarrow> \<not> lt (h ! i) (h ! PARENT pos)))"

text \<open>Heap order but for the element at \<open>pos\<close>, which may be too large for its place
  (\<open>too_large_at\<close>) or too small for it (\<open>too_small_at\<close>).\<close>

definition too_large_at :: "('a \<Rightarrow> 'a \<Rightarrow> bool) \<Rightarrow> 'a list \<Rightarrow> nat \<Rightarrow> nat \<Rightarrow> bool" where
  "too_large_at lt h sz pos \<longleftrightarrow>
     (\<forall>i. 0 < i \<and> i < sz \<and> PARENT i \<noteq> pos \<longrightarrow> \<not> lt (h ! i) (h ! PARENT i)) \<and>
     over_hole lt h sz pos"

definition too_small_at :: "('a \<Rightarrow> 'a \<Rightarrow> bool) \<Rightarrow> 'a list \<Rightarrow> nat \<Rightarrow> nat \<Rightarrow> bool" where
  "too_small_at lt h sz pos \<longleftrightarrow>
     (\<forall>i. 0 < i \<and> i < sz \<and> i \<noteq> pos \<longrightarrow> \<not> lt (h ! i) (h ! PARENT i)) \<and>
     over_hole lt h sz pos"

text \<open>What the code needs of its comparator: \<open>std::less\<close>'s contract.\<close>

locale strict_weak_order =
  fixes lt :: "'a \<Rightarrow> 'a \<Rightarrow> bool"
  assumes irrefl: "\<not> lt a a"
    and trans: "lt a b \<Longrightarrow> lt b c \<Longrightarrow> lt a c"
    and not_less_trans: "\<not> lt b a \<Longrightarrow> \<not> lt c b \<Longrightarrow> \<not> lt c a"
begin

lemma asym: "lt a b \<Longrightarrow> \<not> lt b a"
  using irrefl trans by blast

lemma min_child_least:
  assumes "min_child lt h sz (LCHILD pos) = Some m" "0 < i" "i < sz" "PARENT i = pos"
  shows "\<not> lt (h ! i) (h ! m)"
proof -
  let ?l = "LCHILD pos"
  have "i = ?l \<or> i = ?l + 1 \<or> i = ?l + 2 \<or> i = ?l + 3"
    using assms(2,4) by (auto simp: PARENT_child)
  then show ?thesis
    using assms(1,3)
    by (auto simp: min_child_def Let_def irrefl split: if_splits
        dest: asym intro: irrefl not_less_trans trans)
qed

text \<open>One step of each loop keeps its invariant on the array with \<open>bak\<close> in the hole.\<close>

lemma too_large_step:
  assumes sz: "sz \<le> length H" and pos: "pos < sz"
    and m: "min_child lt h sz (LCHILD pos) = Some m"
    and h: "\<And>i. i < sz \<Longrightarrow> i \<noteq> pos \<Longrightarrow> h ! i = H ! i"
    and le: "\<not> lt (H ! pos) (H ! m)"
    and inv: "too_large_at lt H sz pos"
  shows "too_large_at lt (swap H pos m) sz m"
proof -
  note mc = min_child_parent [OF m]
  have least: "\<not> lt (H ! i) (H ! m)" if "0 < i" "i < sz" "PARENT i = pos" for i
    using min_child_least [OF m that] h [of i] h [of m] that mc PARENT_less [of i] by auto
  have nth: "i < sz \<Longrightarrow> swap H pos m ! i = (if i = m then H ! pos else if i = pos then H ! m else H ! i)" for i
    using sz pos mc by (simp add: nth_swap)
  have lt_sz: "PARENT i < sz" if "0 < i" "i < sz" for i
    using PARENT_less [OF that(1)] that by simp
  have "\<not> lt (swap H pos m ! i) (swap H pos m ! PARENT i)"
    if i: "0 < i" "i < sz" "PARENT i \<noteq> m" for i
  proof (cases "PARENT i = pos")
    case True
    then have "i \<noteq> pos" using PARENT_less [OF i(1)] by simp
    with True show ?thesis using i least [of i] le mc nth lt_sz by auto
  next
    case False
    then have "i \<noteq> m" using mc by auto
    have "i = pos \<Longrightarrow> \<not> lt (H ! m) (H ! PARENT pos)"
      using inv mc i by (auto simp: too_large_at_def over_hole_def)
    then show ?thesis
      using inv i False \<open>i \<noteq> m\<close> nth [of i] nth [of "PARENT i"] lt_sz [of i]
      by (auto simp: too_large_at_def)
  qed
  moreover have "\<not> lt (swap H pos m ! i) (swap H pos m ! PARENT m)"
    if i: "0 < i" "i < sz" "PARENT i = m" for i
  proof -
    have "i \<noteq> m" "i \<noteq> pos" using PARENT_less [OF i(1)] i mc by auto
    then show ?thesis
      using inv i nth [of i] nth [of pos] pos mc by (auto simp: too_large_at_def)
  qed
  ultimately show ?thesis by (auto simp: too_large_at_def [of lt "swap H pos m"] over_hole_def)
qed

lemma too_large_done:
  assumes inv: "too_large_at lt H sz pos"
    and child: "\<And>i. 0 < i \<Longrightarrow> i < sz \<Longrightarrow> PARENT i = pos \<Longrightarrow> \<not> lt (H ! i) (H ! pos)"
  shows "heap_ordered lt H sz"
  using inv child unfolding heap_ordered_def too_large_at_def by metis

lemma downheap_loop_ordered:
  assumes "sz \<le> length h" "pos < sz" "too_large_at lt (h[pos := bak]) sz pos"
    "downheap_loop lt sz h pos bak = (h', p')"
  shows "heap_ordered lt (h'[p' := bak]) sz"
  using assms
proof (induction "sz - pos" arbitrary: h pos rule: less_induct)
  case less
  let ?H = "h[pos := bak]"
  have child: "\<not> lt (?H ! i) (?H ! pos)"
    if "min_child lt h sz (LCHILD pos) = None \<or>
        (\<exists>m. min_child lt h sz (LCHILD pos) = Some m \<and> lt bak (h ! m))"
      and i: "0 < i" "i < sz" "PARENT i = pos" for i
    using that(1)
  proof
    assume "min_child lt h sz (LCHILD pos) = None"
    then show ?thesis using i PARENT_child [OF i(1), of pos] by (simp add: min_child_None)
  next
    assume "\<exists>m. min_child lt h sz (LCHILD pos) = Some m \<and> lt bak (h ! m)"
    then obtain m where m: "min_child lt h sz (LCHILD pos) = Some m" "lt bak (h ! m)" by blast
    have "\<not> lt (h ! i) bak" using min_child_least [OF m(1) i] m(2) trans by blast
    then show ?thesis using less.prems(1,2) i PARENT_less [OF i(1)] by simp
  qed
  show ?case
  proof (cases "\<exists>m. min_child lt h sz (LCHILD pos) = Some m \<and> \<not> lt bak (h ! m)")
    case True
    then obtain m where m: "min_child lt h sz (LCHILD pos) = Some m" "\<not> lt bak (h ! m)" by blast
    note mc = min_child_parent [OF m(1)]
    have H: "(h[pos := h ! m])[m := bak] = swap ?H pos m"
      using less.prems(1,2) mc by (intro hole_move_swap) auto
    have "too_large_at lt (swap ?H pos m) sz m"
      by (rule too_large_step [where h = h]) (use less.prems m mc in auto)
    moreover have "downheap_loop lt sz (h[pos := h ! m]) m bak = (h', p')"
      using less.prems(4) m by (simp add: downheap_loop.simps [of lt sz h pos bak])
    ultimately show ?thesis
      using less.hyps [of m "h[pos := h ! m]"] less.prems(1,2) mc H by simp
  next
    case False
    then have "h' = h" "p' = pos"
      using less.prems(4)
      by (auto simp: downheap_loop.simps [of lt sz h pos bak] split: option.splits if_splits)
    moreover have "heap_ordered lt ?H sz"
      using less.prems(3) by (rule too_large_done) (rule child, use False in \<open>auto split: option.splits\<close>)
    ultimately show ?thesis by simp
  qed
qed

lemma too_small_step:
  assumes sz: "sz \<le> length H" and pos: "pos < sz" "0 < pos"
    and le: "\<not> lt (H ! PARENT pos) (H ! pos)"
    and inv: "too_small_at lt H sz pos"
  shows "too_small_at lt (swap H pos (PARENT pos)) sz (PARENT pos)"
proof -
  let ?p = "PARENT pos"
  have p: "?p < pos" using pos by (simp add: PARENT_less)
  have nth: "i < sz \<Longrightarrow> swap H pos ?p ! i =
      (if i = ?p then H ! pos else if i = pos then H ! ?p else H ! i)" for i
    using sz pos p by (simp add: nth_swap)
  have ord: "\<not> lt (H ! i) (H ! PARENT i)" if "0 < i" "i < sz" "i \<noteq> pos" for i
    using inv that by (simp add: too_small_at_def)
  have hole: "\<not> lt (H ! i) (H ! ?p)" if "0 < i" "i < sz" "PARENT i = pos" for i
    using inv that pos by (simp add: too_small_at_def over_hole_def)
  have lt_sz: "PARENT i < sz" if "0 < i" "i < sz" for i
    using PARENT_less [OF that(1)] that by simp
  have "\<not> lt (swap H pos ?p ! i) (swap H pos ?p ! PARENT i)"
    if i: "0 < i" "i < sz" "i \<noteq> ?p" for i
  proof -
    consider "i = pos" | "PARENT i = pos" | "i \<noteq> pos" "PARENT i = ?p"
      | "i \<noteq> pos" "PARENT i \<noteq> pos" "PARENT i \<noteq> ?p" by blast
    then show ?thesis
    proof cases
      case 1
      then show ?thesis using le nth [of pos] nth [of ?p] pos p by auto
    next
      case 2
      then show ?thesis
        using hole [of i] i nth [of i] nth [of pos] pos p PARENT_less [OF i(1)] by auto
    next
      case 3
      then have "\<not> lt (H ! i) (H ! pos)"
        using ord [of i] le not_less_trans i by metis
      with 3 show ?thesis using i nth [of i] nth [of ?p] pos p by auto
    next
      case 4
      then show ?thesis using ord [of i] i nth [of i] nth [of "PARENT i"] lt_sz [of i] by auto
    qed
  qed
  moreover have "\<not> lt (swap H pos ?p ! i) (swap H pos ?p ! PARENT ?p)"
    if i: "0 < i" "i < sz" "PARENT i = ?p" "0 < ?p" for i
  proof -
    have pp: "PARENT ?p < ?p" using i(4) by (rule PARENT_less)
    have top: "\<not> lt (H ! ?p) (H ! PARENT ?p)" using ord [of ?p] i p pos by simp
    have "\<not> lt (H ! i) (H ! PARENT ?p)" if "i \<noteq> pos"
      using ord [of i] i that top not_less_trans by metis
    moreover have "i \<noteq> ?p" using PARENT_less [OF i(1)] i by simp
    moreover have "swap H pos ?p ! PARENT ?p = H ! PARENT ?p"
      using nth [of "PARENT ?p"] pp p pos by simp
    ultimately show ?thesis using nth [of i] i top by auto
  qed
  ultimately show ?thesis by (auto simp: too_small_at_def [of lt "swap H pos ?p"] over_hole_def)
qed

lemma upheap_loop_ordered:
  assumes "sz \<le> length h" "pos < sz" "too_small_at lt (h[pos := bak]) sz pos"
    "upheap_loop lt h pos bak = (h', p')"
  shows "heap_ordered lt (h'[p' := bak]) sz"
  using assms
proof (induction pos arbitrary: h rule: less_induct)
  case (less pos)
  let ?H = "h[pos := bak]" and ?p = "PARENT pos"
  show ?case
  proof (cases "0 < pos \<and> \<not> lt (h ! ?p) bak")
    case True
    then have p: "?p < pos" by (simp add: PARENT_less)
    have H: "(h[pos := h ! ?p])[?p := bak] = swap ?H pos ?p"
      using less.prems(1,2) p by (intro hole_move_swap) auto
    have "too_small_at lt (swap ?H pos ?p) sz ?p"
      by (rule too_small_step) (use less.prems True p in auto)
    moreover have "upheap_loop lt (h[pos := h ! ?p]) ?p bak = (h', p')"
      using less.prems(4) True by (simp add: upheap_loop.simps [of lt h pos bak])
    ultimately show ?thesis
      using less.IH [of ?p "h[pos := h ! ?p]"] less.prems(1,2) p H by simp
  next
    case False
    then have e: "h' = h" "p' = pos"
      using less.prems(4) by (auto simp: upheap_loop.simps [of lt h pos bak] split: if_splits)
    have "\<not> lt (?H ! pos) (?H ! ?p)" if "0 < pos"
      using False that less.prems(1,2) PARENT_less [OF that] asym by auto
    then have "heap_ordered lt ?H sz"
      using less.prems(3) unfolding heap_ordered_def too_small_at_def by metis
    with e show ?thesis by simp
  qed
qed

text \<open>The operations on the whole array.\<close>

lemma downheap_ordered:
  assumes "sz \<le> length h" "pos < sz" "too_large_at lt h sz pos"
  shows "heap_ordered lt (downheap lt h sz pos) sz"
proof -
  obtain h' p' where e: "downheap_loop lt sz h pos (h ! pos) = (h', p')" by fastforce
  from downheap_loop_ordered [OF assms(1,2) _ e] assms(3) show ?thesis
    by (simp add: downheap_def e)
qed

lemma upheap_ordered:
  assumes "sz \<le> length h" "pos < sz" "too_small_at lt h sz pos"
  shows "heap_ordered lt (upheap lt h pos) sz"
proof -
  obtain h' p' where e: "upheap_loop lt h pos (h ! pos) = (h', p')" by fastforce
  from upheap_loop_ordered [OF assms(1,2) _ e] assms(3) show ?thesis
    by (simp add: upheap_def e)
qed

text \<open>A heap in which one element has been replaced by any other: the element is too small
  or too large for its place, and \<open>adjustheap\<close> finds out which.\<close>

lemma replaced_cases:
  assumes sz: "sz \<le> length h" "pos < sz" and ord: "heap_ordered lt h sz"
  shows "0 < pos \<and> lt x (h ! PARENT pos) \<Longrightarrow> too_small_at lt (h[pos := x]) sz pos"
    and "\<not> (0 < pos \<and> lt x (h ! PARENT pos)) \<Longrightarrow> too_large_at lt (h[pos := x]) sz pos"
proof -
  have o: "\<not> lt (h ! i) (h ! PARENT i)" if "0 < i" "i < sz" for i
    using ord that by (simp add: heap_ordered_def)
  have hole: "over_hole lt (h[pos := x]) sz pos"
    unfolding over_hole_def
  proof (intro impI allI, elim conjE)
    fix i assume i: "0 < pos" "0 < i" "i < sz" "PARENT i = pos"
    then have "\<not> lt (h ! i) (h ! PARENT pos)"
      using o [of i] o [of pos] sz(2) not_less_trans by metis
    then show "\<not> lt (h[pos := x] ! i) (h[pos := x] ! PARENT pos)"
      using i PARENT_less [OF i(2)] PARENT_less [OF i(1)] by auto
  qed
  show "too_small_at lt (h[pos := x]) sz pos" if a: "0 < pos \<and> lt x (h ! PARENT pos)"
    unfolding too_small_at_def
  proof (intro conjI allI impI hole, elim conjE)
    fix i assume i: "0 < i" "i < sz" "i \<noteq> pos"
    have "\<not> lt (h ! i) x" if "PARENT i = pos"
      using o [of i] o [of pos] i that a sz not_less_trans trans by metis
    then show "\<not> lt (h[pos := x] ! i) (h[pos := x] ! PARENT i)"
      using i o [of i] sz by (cases "PARENT i = pos") auto
  qed
  show "too_large_at lt (h[pos := x]) sz pos" if a: "\<not> (0 < pos \<and> lt x (h ! PARENT pos))"
    unfolding too_large_at_def
  proof (intro conjI allI impI hole, elim conjE)
    fix i assume i: "0 < i" "i < sz" "PARENT i \<noteq> pos"
    then show "\<not> lt (h[pos := x] ! i) (h[pos := x] ! PARENT i)"
      using o [of i] a sz by (cases "i = pos") auto
  qed
qed

lemma adjustheap_ordered:
  assumes sz: "sz \<le> length h" "pos < sz" and ord: "heap_ordered lt h sz"
  shows "heap_ordered lt (adjustheap lt (h[pos := x]) sz pos) sz"
proof -
  have "PARENT pos \<noteq> pos" if "0 < pos" using PARENT_less [OF that] by simp
  then have "pos \<noteq> 0 \<and> lt (h[pos := x] ! pos) (h[pos := x] ! PARENT pos) \<longleftrightarrow>
      0 < pos \<and> lt x (h ! PARENT pos)"
    using sz by auto
  then show ?thesis
    using upheap_ordered [of sz "h[pos := x]" pos] downheap_ordered [of sz "h[pos := x]" pos]
      replaced_cases [OF sz ord, of x] sz
    by (simp add: adjustheap_def)
qed

lemma buildheap_loop_ordered:
  "n \<le> length h \<Longrightarrow> heap_ordered lt (buildheap_loop lt h n) n"
proof (induction n)
  case 0
  show ?case by (simp add: heap_ordered_def)
next
  case (Suc n)
  let ?g = "buildheap_loop lt h n"
  have "heap_ordered lt ?g n" using Suc by simp
  moreover have "PARENT i \<noteq> n" if "0 < i" "i < Suc n" for i
    using PARENT_less [OF that(1)] that by simp
  ultimately have "too_small_at lt ?g (Suc n) n"
    by (simp add: too_small_at_def over_hole_def heap_ordered_def less_Suc_eq) blast
  then show ?case
    using Suc.prems upheap_ordered [of "Suc n" ?g n] buildheap_loop_perm [of n h lt] by simp
qed

lemma root_least:
  assumes "heap_ordered lt h sz" "i < sz"
  shows "\<not> lt (h ! i) (h ! 0)"
  using assms(2)
proof (induction i rule: less_induct)
  case (less i)
  show ?case
  proof (cases "i = 0")
    case False
    then have "\<not> lt (h ! PARENT i) (h ! 0)"
      using less PARENT_less [of i] by simp
    moreover have "\<not> lt (h ! i) (h ! PARENT i)"
      using assms(1) less.prems False by (simp add: heap_ordered_def)
    ultimately show ?thesis using not_less_trans by blast
  qed (simp add: irrefl)
qed

end

interpretation std_less: strict_weak_order "(<) :: 'a::linorder \<Rightarrow> 'a \<Rightarrow> bool"
  by unfold_locales auto

section \<open>Properties\<close>

text \<open>\<open>buildheap\<close> with the default comparator arranges any array into a 4-ary heap: the
  first \<open>sz\<close> elements are a permutation of what they were, no element is smaller than its
  parent, the root is a minimum, and nothing beyond \<open>sz\<close> is touched.\<close>

theorem buildheap_correct:
  fixes h :: "'a::linorder list"
  assumes "sz \<le> length h"
  shows "heap_ordered (<) (buildheap (<) h sz) sz \<and>
    mset (take sz (buildheap (<) h sz)) = mset (take sz h) \<and>
    drop sz (buildheap (<) h sz) = drop sz h \<and>
    (\<forall>x \<in> set (take sz h). buildheap (<) h sz ! 0 \<le> x)"
proof -
  let ?b = "buildheap (<) h sz"
  have len: "length ?b = length h" and ms: "mset ?b = mset h" and tl: "\<forall>i \<ge> sz. ?b ! i = h ! i"
    using buildheap_loop_perm [OF assms, of "(<)"] by (simp_all add: buildheap_def)
  have d: "drop sz ?b = drop sz h"
    using len tl by (intro nth_equalityI) auto
  have t: "mset (take sz ?b) = mset (take sz h)"
    by (rule mset_take_eq [OF len ms tl])
  have ord: "heap_ordered (<) ?b sz"
    using std_less.buildheap_loop_ordered [OF assms] by (simp add: buildheap_def)
  have "?b ! 0 \<le> x" if "x \<in> set (take sz h)" for x
  proof -
    have "x \<in> set (take sz ?b)" using that t by (metis set_mset_mset)
    then obtain i where "i < sz" "i < length ?b" "x = ?b ! i" by (auto simp: in_set_conv_nth)
    then show ?thesis using std_less.root_least [OF ord] by (simp add: not_less)
  qed
  with ord t d show ?thesis by blast
qed

theorem buildheap_correct_witness:
  "buildheap (<) [5, 3, 9, 1, 4, 0, 7 :: int] 6 ! 0 = 0 \<and>
   heap_ordered (<) (buildheap (<) [5, 3, 9, 1, 4, 0, 7 :: int] 6) 6"
proof
  show "buildheap (<) [5, 3, 9, 1, 4, 0, 7 :: int] 6 ! 0 = 0" by code_simp
  have "6 \<le> length [5, 3, 9, 1, 4, 0, 7 :: int]" by simp
  then show "heap_ordered (<) (buildheap (<) [5, 3, 9, 1, 4, 0, 7 :: int] 6) 6"
    using buildheap_correct by blast
qed

text \<open>\<open>adjustheap\<close> repairs a heap after one element has been overwritten by an arbitrary
  value, moving it up or down as needed, and only permutes the elements.\<close>

theorem adjustheap_correct:
  fixes h :: "'a::linorder list"
  assumes "sz \<le> length h" "pos < sz" "heap_ordered (<) h sz"
  shows "heap_ordered (<) (adjustheap (<) (h[pos := x]) sz pos) sz \<and>
    mset (adjustheap (<) (h[pos := x]) sz pos) = mset (h[pos := x])"
  using std_less.adjustheap_ordered [OF assms] assms
    upheap_perm [of pos "h[pos := x]" "(<)"] downheap_perm [of sz "h[pos := x]" pos "(<)"]
  by (simp add: adjustheap_def)

theorem adjustheap_correct_witness:
  "heap_ordered (<) [1, 2, 3 :: int] 3 \<and>
   heap_ordered (<) (adjustheap (<) ([1, 2, 3 :: int][0 := 9]) 3 0) 3"
proof -
  have "heap_ordered (<) [1, 2, 3 :: int] 3"
    by (auto simp: heap_ordered_def PARENT_def less_Suc_eq numeral_3_eq_3)
  then show ?thesis using adjustheap_correct [of 3 "[1, 2, 3 :: int]" 0 9] by simp
qed

end
