(* ===== verification/Mem_Array.thy ===== *)
theory Mem_Array
  imports Bit_Util
begin

text \<open>
  The growing array of \<open>array.h\<close> on top of the allocator of \<open>mm.h\<close>. An array is the list of
  its \<open>maxsize\<close> constructed elements; \<open>operator[]\<close> grows it when the index is beyond the end
  and default-constructs the new elements. The size computation \<open>calculatesize\<close> runs on
  64-bit words as in the code. The allocator (\<open>realloc\<close> unless replaced) is a parameter:
  \<open>alloc n\<close> tells whether a request of \<open>n\<close> bytes is granted.
\<close>

section \<open>mm.h\<close>

text \<open>\<open>mm_realloc\<close>: a block is the list of its cells (\<open>cells n\<close> of them after the call);
  the old contents survive up to the shorter length, the rest is whatever the allocator left
  there. A refused request of a positive size gives the null pointer, here \<open>None\<close>.\<close>

definition mm_realloc :: "(ull \<Rightarrow> bool) \<Rightarrow> (nat \<Rightarrow> 'a) \<Rightarrow> 'a list \<Rightarrow> ull \<Rightarrow> nat \<Rightarrow> 'a list option" where
  "mm_realloc alloc junk block bytes cells =
     (if \<not> alloc bytes \<and> bytes \<noteq> 0 then None
      else Some (take cells block @ map junk [length block ..< cells]))"

definition mm_malloc :: "(ull \<Rightarrow> bool) \<Rightarrow> (nat \<Rightarrow> 'a) \<Rightarrow> ull \<Rightarrow> nat \<Rightarrow> 'a list option" where
  "mm_malloc alloc junk bytes cells = mm_realloc alloc junk [] bytes cells"

section \<open>array.h\<close>

definition MALLOC_ROUND :: uint32 where "MALLOC_ROUND = 4096"

text \<open>The \<open>do newsize <<= 1; while (size > newsize)\<close> of \<open>calculatesize\<close>: it need not end.\<close>

partial_function (option) double_until :: "ull \<Rightarrow> ull \<Rightarrow> ull option" where
  "double_until sz newsize =
     (let newsize = push_bit 1 newsize
      in if sz > newsize then double_until sz newsize else Some newsize)"

definition calculatesize :: "uint32 \<Rightarrow> ull \<Rightarrow> ull option" where
  "calculatesize type_size sz =
     (let malloc_overhead = 8 * 4 :: uint32
      in case double_until sz (sz + 1) of
           None \<Rightarrow> None
         | Some newsize \<Rightarrow>
             Some (if ucast type_size * newsize > ucast (MALLOC_ROUND - malloc_overhead) then
                     (let newsize = newsize * (newsize * ucast type_size);
                          newsize = (newsize + ucast malloc_overhead + ucast (MALLOC_ROUND - 1))
                                    AND NOT (ucast (MALLOC_ROUND - 1));
                          newsize = newsize - ucast malloc_overhead
                      in newsize div ucast type_size)
                   else newsize))"

text \<open>\<open>array_resize\<close>: the cells from \<open>maxsize\<close> on are constructed in place; on a null block
  that is a null dereference.\<close>

definition array_resize :: "(ull \<Rightarrow> bool) \<Rightarrow> uint32 \<Rightarrow> 'a \<Rightarrow> ull \<Rightarrow> 'a list \<Rightarrow> 'a list res" where
  "array_resize alloc type_size dflt sz elements =
     (case calculatesize type_size sz of
        None \<Rightarrow> Inl NoReturn
      | Some newsize \<Rightarrow>
          (case mm_realloc alloc (\<lambda>_. dflt) elements (ucast type_size * newsize) (unat newsize) of
             None \<Rightarrow> Inl NullDeref
           | Some block \<Rightarrow> Inr block))"

definition array_new :: "(ull \<Rightarrow> bool) \<Rightarrow> uint32 \<Rightarrow> 'a \<Rightarrow> ull \<Rightarrow> 'a list res" where
  "array_new alloc type_size dflt init_size = array_resize alloc type_size dflt init_size []"

text \<open>\<open>operator[]\<close>: the array after the access; the element itself is \<open>elements ! index\<close>.\<close>

definition array_at :: "(ull \<Rightarrow> bool) \<Rightarrow> uint32 \<Rightarrow> 'a \<Rightarrow> nat \<Rightarrow> 'a list \<Rightarrow> 'a list res" where
  "array_at alloc type_size dflt index elements =
     (if index \<ge> length elements
      then array_resize alloc type_size dflt (of_nat index + 1) elements
      else Inr elements)"

section \<open>The size computation\<close>

text \<open>One doubling is enough whenever it does not overflow.\<close>

lemma double_until_once:
  assumes "unat sz < 2 ^ 62"
  shows "\<exists>n. double_until sz (sz + 1) = Some n \<and> unat n = 2 * (unat sz + 1)"
proof -
  have s: "unat (sz + 1) = unat sz + 1"
    using assms by (subst unat_add_lem [THEN iffD1]) auto
  have "push_bit 1 (sz + 1) = (sz + 1) + (sz + 1)"
    by (simp add: push_bit_eq_mult)
  moreover have "unat ((sz + 1) + (sz + 1)) = (unat sz + 1) + (unat sz + 1)"
    using assms s unat_add_lem [of "sz + 1" "sz + 1"] by simp
  ultimately have u: "unat (push_bit 1 (sz + 1)) = 2 * (unat sz + 1)"
    by (simp only: mult_2)
  then have "\<not> push_bit 1 (sz + 1) < sz" by (simp add: word_less_nat_alt)
  then have "double_until sz (sz + 1) = Some (push_bit 1 (sz + 1))"
    by (subst double_until.simps) (simp only: Let_def if_False)
  with u show ?thesis by blast
qed

text \<open>Rounding up to whole pages: what the mask of the low 12 bits leaves.\<close>

lemma page_round:
  fixes x :: ull
  shows "unat (x AND NOT 4095) = unat x - unat x mod 4096"
proof -
  have m: "(4095 :: ull) = mask 12" by (simp add: mask_eq_exp_minus_1)
  have t: "x AND 4095 = take_bit 12 x" by (simp only: m take_bit_eq_mask)
  have "x AND NOT 4095 = x - (x AND 4095)"
    by (subst disjunctive_diff_eq_and_not) (auto simp: bit_eq_iff bit_simps)
  moreover have "unat (x AND 4095) = unat x mod 4096"
    using t by (simp only: unsigned_take_bit_eq take_bit_eq_mod [of 12 "unat x"]) simp
  moreover have "unat x mod 4096 \<le> unat x" by simp
  ultimately show ?thesis
    by (simp add: unat_sub word_le_nat_alt)
qed

lemma unat_mult_small:
  fixes a b :: ull
  shows "unat a * unat b < 2 ^ 64 \<Longrightarrow> unat (a * b) = unat a * unat b"
  using unat_mult_lem [of a b] by simp

lemma unat_add_small:
  fixes a b :: ull
  shows "unat a + unat b < 2 ^ 64 \<Longrightarrow> unat (a + b) = unat a + unat b"
  using unat_add_lem [of a b] by simp

lemma page_count:
  fixes n t :: ull
  assumes n: "unat n \<le> 2 ^ 22" and t: "1 \<le> unat t" "unat t \<le> 2 ^ 12"
  shows "unat n * unat n \<le>
    unat (((n * (n * t) + 32 + 4095) AND NOT 4095) - 32) div unat t"
proof -
  let ?M = "unat n * (unat n * unat t)"
  have nt: "unat n * unat t \<le> 2 ^ 22 * 2 ^ 12"
    using n t(2) by (rule mult_le_mono)
  then have "?M \<le> 2 ^ 22 * (2 ^ 22 * 2 ^ 12)"
    using n nt by (intro mult_le_mono [of _ _ "unat n * unat t"])
  then have M: "?M \<le> 2 ^ 56" by simp
  have "unat (n * t) = unat n * unat t"
    using nt by (intro unat_mult_small) simp
  then have m: "unat (n * (n * t)) = ?M"
    using M by (subst unat_mult_small) simp_all
  have "unat (n * (n * t) + 32) = ?M + 32"
    using M m by (subst unat_add_small) simp_all
  then have x: "unat (n * (n * t) + 32 + 4095) = ?M + 32 + 4095"
    using M by (subst unat_add_small) simp_all
  let ?R = "(n * (n * t) + 32 + 4095) AND NOT 4095"
  have r: "unat ?R = ?M + 32 + 4095 - (?M + 32 + 4095) mod 4096"
    by (simp only: page_round x)
  have le: "(?M + 32 + 4095) mod 4096 \<le> 4095"
    using mod_less_divisor [of 4096 "?M + 32 + 4095"] by linarith
  then have ge: "?M + 32 \<le> unat ?R" unfolding r by linarith
  then have "unat (?R - 32) = unat ?R - 32"
    by (subst unat_sub) (simp_all add: word_le_nat_alt)
  then have "?M \<le> unat (?R - 32)" using ge by linarith
  then have "?M div unat t \<le> unat (?R - 32) div unat t" by (rule div_le_mono)
  moreover have "?M div unat t = unat n * unat n" using t(1) by (simp add: mult.assoc [symmetric])
  ultimately show ?thesis by (simp only:)
qed

text \<open>For element sizes up to a page and up to a million elements the growth computation
  ends and yields room for the requested number of elements: twice as many while the block
  stays within a page, and at least the square of that beyond a page, because the byte size
  that is then rounded to pages is \<open>newsize * newsize * type_size\<close>.\<close>

theorem calculatesize_covers:
  assumes "unat sz \<le> 2 ^ 20" "1 \<le> unat type_size" "unat type_size \<le> 2 ^ 12"
  shows "\<exists>n. calculatesize type_size sz = Some n \<and> unat sz < unat n \<and>
    (unat type_size * (2 * (unat sz + 1)) \<le> 4064 \<longrightarrow> unat n = 2 * (unat sz + 1)) \<and>
    (4064 < unat type_size * (2 * (unat sz + 1)) \<longrightarrow> (2 * (unat sz + 1)) ^ 2 \<le> unat n)"
proof -
  let ?t = "ucast type_size :: ull" and ?N = "2 * (unat sz + 1)"
  obtain n where n: "double_until sz (sz + 1) = Some n" "unat n = ?N"
    using double_until_once [of sz] assms(1) by auto
  have t: "unat ?t = unat type_size"
    by (simp add: unsigned_ucast_eq take_bit_nat_eq_self_iff order_le_less_trans [OF assms(3)])
  have n22: "unat n \<le> 2 ^ 22" using n(2) assms(1) by simp
  have "unat ?t * unat n \<le> 2 ^ 12 * 2 ^ 22"
    using t assms(3) n22 by (intro mult_le_mono) simp_all
  then have tn: "unat (?t * n) = unat type_size * ?N"
    using t n(2) by (subst unat_mult_small) simp_all
  have guard: "?t * n > ucast (MALLOC_ROUND - 8 * 4) \<longleftrightarrow> 4064 < unat type_size * ?N"
    using tn by (simp add: MALLOC_ROUND_def word_less_nat_alt)
  show ?thesis
  proof (cases "4064 < unat type_size * ?N")
    case False
    then have "calculatesize type_size sz = Some n"
      using guard n(1) by (simp add: calculatesize_def)
    then show ?thesis using n(2) False by simp
  next
    case True
    let ?r = "((n * (n * ?t) + 32 + 4095) AND NOT 4095) - 32"
    have "calculatesize type_size sz = Some (?r div ?t)"
      using guard n(1) True
      by (simp add: calculatesize_def Let_def MALLOC_ROUND_def)
    moreover have "?N ^ 2 \<le> unat (?r div ?t)"
      using page_count [OF n22, of ?t] t assms(2,3) n(2) by (simp add: unat_div power2_eq_square)
    moreover have "?N \<le> ?N ^ 2" by (simp add: power2_eq_square)
    ultimately show ?thesis using True by fastforce
  qed
qed

theorem calculatesize_covers_witness:
  "\<exists>n. calculatesize 64 100 = Some n \<and> 202 ^ 2 \<le> unat n"
  using calculatesize_covers [of 100 64] by auto

section \<open>The array as a table\<close>

text \<open>What a growing array shows: the stored elements, and the default beyond them.\<close>

definition arr_view :: "'a \<Rightarrow> 'a list \<Rightarrow> nat \<Rightarrow> 'a" where
  "arr_view dflt xs i = (if i < length xs then xs ! i else dflt)"

definition array_read :: "uint32 \<Rightarrow> 'a \<Rightarrow> 'a list \<Rightarrow> nat \<Rightarrow> ('a list \<times> 'a) res" where
  "array_read type_size dflt xs i =
     bind_res (array_at (\<lambda>_. True) type_size dflt i xs) (\<lambda>xs. Inr (xs, xs ! i))"

definition array_write :: "uint32 \<Rightarrow> 'a \<Rightarrow> 'a list \<Rightarrow> nat \<Rightarrow> 'a \<Rightarrow> 'a list res" where
  "array_write type_size dflt xs i v =
     bind_res (array_at (\<lambda>_. True) type_size dflt i xs) (\<lambda>xs. Inr (xs[i := v]))"

lemma array_at_view:
  assumes "i < 2 ^ 20" "1 \<le> unat ts" "unat ts \<le> 2 ^ 12" and alloc: "\<And>n. alloc n"
  obtains ys where "array_at alloc ts d i xs = Inr ys" "i < length ys" "length xs \<le> length ys"
    "arr_view d ys = arr_view d xs"
proof (cases "i < length xs")
  case True
  then show ?thesis using that [of xs] by (simp add: array_at_def)
next
  case False
  have "unat (of_nat i :: ull) = i" using assms(1) by (simp add: unat_of_nat)
  then have s: "unat (of_nat i + 1 :: ull) = i + 1"
    using assms(1) by (subst unat_add_small) simp_all
  obtain n where n: "calculatesize ts (of_nat i + 1) = Some n" "i + 1 < unat n"
    using calculatesize_covers [of "of_nat i + 1" ts] assms(1-3) s by auto
  have "array_at alloc ts d i xs = Inr (xs @ map (\<lambda>_. d) [length xs ..< unat n])"
    using n False alloc by (simp add: array_at_def array_resize_def mm_realloc_def)
  moreover have "arr_view d (xs @ map (\<lambda>_. d) [length xs ..< unat n]) = arr_view d xs"
    by (auto simp: arr_view_def fun_eq_iff nth_append)
  ultimately show ?thesis using that n False by simp
qed

text \<open>The contract the clients of a growing table rely on.\<close>

locale growing_table =
  fixes rd :: "'t \<Rightarrow> nat \<Rightarrow> ('t \<times> 'v) res"
    and wr :: "'t \<Rightarrow> nat \<Rightarrow> 'v \<Rightarrow> 't res"
    and view :: "'t \<Rightarrow> nat \<Rightarrow> 'v"
    and in_range :: "nat \<Rightarrow> bool"
  assumes read_ok: "in_range i \<Longrightarrow> \<exists>t'. rd t i = Inr (t', view t i) \<and> view t' = view t"
    and write_ok: "in_range i \<Longrightarrow> \<exists>t'. wr t i v = Inr t' \<and> view t' = (view t)(i := v)"
begin

text \<open>What was written last at an index is what is rd there; other indices keep theirs.\<close>

lemma read_after_write:
  assumes "in_range i" "in_range j" "wr t i v = Inr t'"
  shows "\<exists>t''. rd t' j = Inr (t'', if i = j then v else view t j)"
proof -
  have "view t' = (view t)(i := v)" using write_ok [OF assms(1), of t v] assms(3) by auto
  then show ?thesis using read_ok [OF assms(2), of t'] by auto
qed

lemma write_write_view:
  assumes "in_range i" "in_range j" "wr t i v = Inr t1" "wr t1 j w = Inr t2"
  shows "view t2 = (view t)(i := v, j := w)"
  using write_ok [OF assms(1), of t v] write_ok [OF assms(2), of t1 w] assms(3,4) by auto

end

lemma growing_table_array:
  assumes "1 \<le> unat ts" "unat ts \<le> 2 ^ 12"
  shows "growing_table (array_read ts d) (array_write ts d) (arr_view d) (\<lambda>i. i < 2 ^ 20)"
proof
  fix i :: nat and t :: "'a list" and v :: 'a
  assume i: "i < 2 ^ 20"
  from i assms obtain ys where ys: "array_at (\<lambda>_. True) ts d i t = Inr ys" "i < length ys"
    "length t \<le> length ys" "arr_view d ys = arr_view d t"
    by (rule array_at_view) simp_all
  have "ys ! i = arr_view d t i"
    using ys(2,4) by (metis arr_view_def)
  then show "\<exists>t'. array_read ts d t i = Inr (t', arr_view d t i) \<and> arr_view d t' = arr_view d t"
    using ys by (simp add: array_read_def)
  have "arr_view d (ys[i := v]) = (arr_view d ys)(i := v)"
    using ys(2) by (auto simp: arr_view_def fun_eq_iff)
  then show "\<exists>t'. array_write ts d t i v = Inr t' \<and> arr_view d t' = (arr_view d t)(i := v)"
    using ys by (simp add: array_write_def)
qed

text \<open>The descriptor table of the event loop is an array of 24-byte entries, the timer heap one
  of 16-byte entries.\<close>

interpretation fd_table: growing_table "array_read 24 d" "array_write 24 d" "arr_view d"
    "\<lambda>i. i < 2 ^ 20" for d
  by (rule growing_table_array) simp_all

interpretation timer_slots: growing_table "array_read 16 d" "array_write 16 d" "arr_view d"
    "\<lambda>i. i < 2 ^ 20" for d
  by (rule growing_table_array) simp_all

text \<open>\<open>operator[]\<close> makes the array a table: an element written at an index below a million
  is what a later access at that index returns, whatever growth happened in between, and all
  other indices, stored or not yet constructed, keep their value.\<close>

theorem array_read_after_write:
  assumes "i < 2 ^ 20" "j < 2 ^ 20" "array_write 24 d xs i v = Inr ys"
  shows "\<exists>zs. array_read 24 d ys j = Inr (zs, if i = j then v else arr_view d xs j)"
  using assms by (rule fd_table.read_after_write)

theorem array_read_after_write_witness:
  "\<exists>ys zs. array_write 24 (0 :: nat) [] 3 7 = Inr ys \<and> array_read 24 0 ys 3 = Inr (zs, 7)"
proof -
  obtain ys where ys: "array_write 24 (0 :: nat) [] 3 7 = Inr ys"
    using fd_table.write_ok [of 3 "0::nat" "[]" 7] by auto
  then show ?thesis using array_read_after_write [of 3 3 "0::nat" "[]" 7 ys] by auto
qed

end
