(* ===== verification/Event.thy ===== *)
theory Event
  imports Complex_Main Prelude
begin

text \<open>
  The watchers of \<open>event.h\<close>. The class hierarchy is a chain of records; a pointer to a
  watcher is its number (\<open>None\<close> for null), a callback and the user's \<open>void*\<close> are opaque
  numbers. \<open>ev_tstamp\<close> (a \<open>double\<close>) is modelled by the reals, so rounding of deadlines is
  outside the model. Event masks are kept at the widths the code gives them.
\<close>

type_synonym ev_tstamp = real

section \<open>Event masks\<close>

definition EV_READ :: uint32 where "EV_READ = 0x01"
definition EV_WRITE :: uint32 where "EV_WRITE = 0x02"
definition EV_IO :: uint32 where "EV_IO = EV_READ"
definition EV_TIMER :: uint32 where "EV_TIMER = 0x10"
definition EV_PERIODIC :: uint32 where "EV_PERIODIC = 0x20"
definition EV_SIGNAL :: uint32 where "EV_SIGNAL = 0x40"
definition EV_ERROR :: uint32 where "EV_ERROR = 0x80000000"

lemmas ev_masks = EV_READ_def EV_WRITE_def EV_IO_def EV_TIMER_def EV_PERIODIC_def
  EV_SIGNAL_def EV_ERROR_def

section \<open>Watchers\<close>

record ev_watcher =
  active :: int
  pending :: int
  priority :: int
  data :: nat
  cb :: "nat option"

record ev_io = ev_watcher +
  next_w :: "nat option"
  io_fd :: int
  events :: uint32

record ev_timer = ev_watcher +
  at_t :: ev_tstamp
  repeat :: ev_tstamp

text \<open>The constructors: \<open>ev_watcher()\<close> clears everything, \<open>ev_watcher_list()\<close> the link and
  \<open>ev_io()\<close> sets descriptor -1 and no events. The deadlines of a timer are uninitialised.\<close>

definition ev_io_new :: ev_io where
  "ev_io_new = \<lparr>active = 0, pending = 0, priority = 0, data = 0, cb = None,
                next_w = None, io_fd = - 1, events = 0\<rparr>"

definition ev_timer_new :: "ev_tstamp \<Rightarrow> ev_tstamp \<Rightarrow> ev_timer" where
  "ev_timer_new junk_at junk_repeat =
     \<lparr>active = 0, pending = 0, priority = 0, data = 0, cb = None,
      at_t = junk_at, repeat = junk_repeat\<rparr>"

end
