(* ===== verification/Min_Heap.thy ===== *)
theory Min_Heap
  imports Heap4 Mem_Array Event
begin

text \<open>
  The timer heap \<open>quad_minheap\<close> of \<open>4-minheap-internal.h\<close>: slots of a watcher pointer and a
  cached deadline in a growing array, and in each watcher its position plus one (\<open>active\<close>).
  Every access through a slot's pointer faults on null, as the code would. The deadlines are
  compared through the caches only.
\<close>

section \<open>State\<close>

record min_heap_t =
  wt :: "nat option"
  cache_at :: ev_tstamp

record quad_minheap =
  heap :: "min_heap_t list"
  hsize :: nat

type_synonym timers = "nat \<Rightarrow> ev_timer"

definition min_heap_t_new :: min_heap_t where
  "min_heap_t_new = \<lparr>wt = None, cache_at = 0\<rparr>"

definition quad_minheap_new :: quad_minheap where
  "quad_minheap_new = \<lparr>heap = [], hsize = 0\<rparr>"

text \<open>\<open>HEAP_AT(a) < HEAP_AT(b)\<close>, \<open>HEAP_WATCHER_ACTIVE(slot) = v\<close> and
  \<open>HEAP_CACHE_AT(slot)\<close>.\<close>

definition by_cache :: "min_heap_t \<Rightarrow> min_heap_t \<Rightarrow> bool" where
  "by_cache a b \<longleftrightarrow> cache_at a < cache_at b"

definition HEAP_WATCHER_ACTIVE :: "min_heap_t \<Rightarrow> int \<Rightarrow> timers \<Rightarrow> timers res" where
  "HEAP_WATCHER_ACTIVE slot v ts =
     (case wt slot of None \<Rightarrow> Inl NullDeref | Some w \<Rightarrow> Inr (ts(w := (ts w)\<lparr>active := v\<rparr>)))"

definition HEAP_CACHE_AT :: "min_heap_t \<Rightarrow> timers \<Rightarrow> min_heap_t res" where
  "HEAP_CACHE_AT slot ts =
     (case wt slot of None \<Rightarrow> Inl NullDeref | Some w \<Rightarrow> Inr (slot\<lparr>cache_at := at_t (ts w)\<rparr>))"

section \<open>Operations\<close>

fun shift_up_loop ::
  "min_heap_t list \<Rightarrow> timers \<Rightarrow> nat \<Rightarrow> min_heap_t \<Rightarrow> (min_heap_t list \<times> timers \<times> nat) res" where
  "shift_up_loop h ts pos bak =
     (if pos = 0 then Inr (h, ts, pos)
      else if cache_at (h ! PARENT pos) < cache_at bak then Inr (h, ts, pos)
      else (let h = h[pos := h ! PARENT pos]
            in bind_res (HEAP_WATCHER_ACTIVE (h ! pos) (int pos + 1) ts)
                 (\<lambda>ts. shift_up_loop h ts (PARENT pos) bak)))"

declare shift_up_loop.simps [simp del]

text \<open>Both loops end by storing \<open>bak\<close> in the hole and its position in its watcher.\<close>

definition fill_hole ::
  "min_heap_t \<Rightarrow> min_heap_t list \<times> timers \<times> nat \<Rightarrow> (min_heap_t list \<times> timers) res" where
  "fill_hole bak = (\<lambda>(h, ts, pos).
     (let h = h[pos := bak]
      in bind_res (HEAP_WATCHER_ACTIVE (h ! pos) (int pos + 1) ts) (\<lambda>ts. Inr (h, ts))))"

definition shift_up :: "min_heap_t list \<Rightarrow> timers \<Rightarrow> nat \<Rightarrow> (min_heap_t list \<times> timers) res" where
  "shift_up h ts pos = bind_res (shift_up_loop h ts pos (h ! pos)) (fill_hole (h ! pos))"

text \<open>The search for the smallest child is written out again in this file, with the same
  branches as in \<open>common.h\<close>.\<close>

function shift_down_loop ::
  "nat \<Rightarrow> min_heap_t list \<Rightarrow> timers \<Rightarrow> nat \<Rightarrow> min_heap_t \<Rightarrow> (min_heap_t list \<times> timers \<times> nat) res" where
  "shift_down_loop sz h ts pos bak =
     (case min_child by_cache h sz (LCHILD pos) of
        None \<Rightarrow> Inr (h, ts, pos)
      | Some m \<Rightarrow>
          if cache_at bak < cache_at (h ! m) then Inr (h, ts, pos)
          else (let h = h[pos := h ! m]
                in bind_res (HEAP_WATCHER_ACTIVE (h ! pos) (int pos + 1) ts)
                     (\<lambda>ts. shift_down_loop sz h ts m bak)))"
  by pat_completeness auto
termination
  by (relation "measure (\<lambda>(sz, h, ts, pos, bak). sz - pos)")
    (auto dest!: min_child_range simp: LCHILD_def)

declare shift_down_loop.simps [simp del]

definition shift_down ::
  "min_heap_t list \<Rightarrow> nat \<Rightarrow> timers \<Rightarrow> nat \<Rightarrow> (min_heap_t list \<times> timers) res" where
  "shift_down h sz ts pos = bind_res (shift_down_loop sz h ts pos (h ! pos)) (fill_hole (h ! pos))"

definition adjust :: "min_heap_t list \<Rightarrow> nat \<Rightarrow> timers \<Rightarrow> nat \<Rightarrow> (min_heap_t list \<times> timers) res" where
  "adjust h sz ts pos =
     (if pos \<noteq> 0 \<and> cache_at (h ! pos) < cache_at (h ! PARENT pos)
      then shift_up h ts pos else shift_down h sz ts pos)"

definition push :: "nat \<Rightarrow> quad_minheap \<Rightarrow> timers \<Rightarrow> (quad_minheap \<times> timers) res" where
  "push w q ts =
     bind_res (array_at (\<lambda>_. True) 16 min_heap_t_new (hsize q) (heap q)) (\<lambda>h.
     let h = h[hsize q := (h ! hsize q)\<lparr>wt := Some w\<rparr>]
     in bind_res (shift_up h ts (hsize q)) (\<lambda>(h, ts).
        Inr (\<lparr>heap = h, hsize = hsize q + 1\<rparr>, ts)))"

text \<open>\<open>pop\<close> and \<open>remove\<close>: only the watcher pointer of the last slot is moved, not its cache.\<close>

definition pop :: "quad_minheap \<Rightarrow> timers \<Rightarrow> (nat option \<times> quad_minheap \<times> timers) res" where
  "pop q ts =
     (if hsize q = 0 then Inr (None, q, ts)
      else bind_res (HEAP_WATCHER_ACTIVE (heap q ! 0) 0 ts) (\<lambda>ts.
           let h = heap q; w = wt (h ! 0); l = hsize q - 1;
               h = h[0 := (h ! 0)\<lparr>wt := wt (h ! l)\<rparr>];
               h = h[l := (h ! l)\<lparr>wt := None\<rparr>]
           in bind_res (shift_down h l ts 0) (\<lambda>(h, ts).
              Inr (w, \<lparr>heap = h, hsize = l\<rparr>, ts))))"

definition remove :: "nat \<Rightarrow> quad_minheap \<Rightarrow> timers \<Rightarrow> (int \<times> quad_minheap \<times> timers) res" where
  "remove pos q ts =
     (if pos \<ge> hsize q then Inr (- 1, q, ts)
      else bind_res (HEAP_WATCHER_ACTIVE (heap q ! pos) 0 ts) (\<lambda>ts.
           let h = heap q; l = hsize q - 1;
               h = h[pos := (h ! pos)\<lparr>wt := wt (h ! l)\<rparr>];
               h = h[l := (h ! l)\<lparr>wt := None\<rparr>]
           in bind_res (adjust h l ts pos) (\<lambda>(h, ts).
              Inr (0, \<lparr>heap = h, hsize = l\<rparr>, ts))))"

definition isempty :: "quad_minheap \<Rightarrow> bool" where
  "isempty q \<longleftrightarrow> hsize q = 0"

text \<open>\<open>top\<close> and \<open>get\<close> are plain slot accesses.\<close>

definition heap_top :: "quad_minheap \<Rightarrow> min_heap_t" where
  "heap_top q = heap q ! 0"

definition get :: "quad_minheap \<Rightarrow> nat \<Rightarrow> min_heap_t" where
  "get q idx = heap q ! idx"

section \<open>The array part is the generic heap\<close>

interpretation slots: strict_weak_order by_cache
  by unfold_locales (auto simp: by_cache_def)

text \<open>What a position of the heap must satisfy while there is a hole at \<open>pos\<close>: its watcher
  exists, is not the one being placed, and knows its position.\<close>

definition placed :: "min_heap_t list \<Rightarrow> timers \<Rightarrow> nat \<Rightarrow> nat \<Rightarrow> nat \<Rightarrow> bool" where
  "placed h ts sz pos wb \<longleftrightarrow>
     (\<forall>i < sz. i \<noteq> pos \<longrightarrow> (\<exists>w. wt (h ! i) = Some w \<and> w \<noteq> wb \<and> active (ts w) = int i + 1))"

lemma placedD:
  "placed h ts sz pos wb \<Longrightarrow> i < sz \<Longrightarrow> i \<noteq> pos \<Longrightarrow>
   \<exists>w. wt (h ! i) = Some w \<and> w \<noteq> wb \<and> active (ts w) = int i + 1"
  by (simp add: placed_def)

text \<open>The stores differ in the \<open>active\<close> field of heap members only.\<close>

definition same_but_active :: "timers \<Rightarrow> timers \<Rightarrow> bool" where
  "same_but_active ts ts' \<longleftrightarrow> (\<forall>w. (ts' w)\<lparr>active := 0\<rparr> = (ts w)\<lparr>active := 0\<rparr>)"

definition moved_only :: "min_heap_t list \<Rightarrow> nat \<Rightarrow> nat \<Rightarrow> timers \<Rightarrow> timers \<Rightarrow> bool" where
  "moved_only h sz pos ts ts' \<longleftrightarrow>
     same_but_active ts ts' \<and>
     (\<forall>w. (\<forall>i < sz. i \<noteq> pos \<longrightarrow> wt (h ! i) \<noteq> Some w) \<longrightarrow> ts' w = ts w)"

text \<open>Moving the watcher at \<open>src\<close> into the hole moves the hole to \<open>src\<close>.\<close>

lemma placed_move:
  assumes "placed h ts sz pos wb" "src < sz" "src \<noteq> pos" "pos < sz" "sz \<le> length h"
    "wt (h ! src) = Some w"
  shows "placed (h[pos := h ! src]) (ts(w := (ts w)\<lparr>active := int pos + 1\<rparr>)) sz src wb"
proof -
  have w: "w \<noteq> wb" "active (ts w) = int src + 1"
    using assms(1-3,6) by (auto simp: placed_def)
  show ?thesis
    unfolding placed_def
  proof (intro allI impI)
    fix i assume i: "i < sz" "i \<noteq> src"
    show "\<exists>v. wt (h[pos := h ! src] ! i) = Some v \<and> v \<noteq> wb \<and>
        active ((ts(w := (ts w)\<lparr>active := int pos + 1\<rparr>)) v) = int i + 1"
    proof (cases "i = pos")
      case True
      then show ?thesis using assms(5,6) i(1) w(1) by simp
    next
      case False
      then obtain v where v: "wt (h ! i) = Some v" "v \<noteq> wb" "active (ts v) = int i + 1"
        using assms(1) i by (auto simp: placed_def)
      then have "v \<noteq> w" using w(2) i(2) by auto
      with v False show ?thesis by simp
    qed
  qed
qed

lemma same_but_active_refl [simp]: "same_but_active ts ts"
  by (simp add: same_but_active_def)

lemma same_but_active_trans:
  "same_but_active ts ts1 \<Longrightarrow> same_but_active ts1 ts' \<Longrightarrow> same_but_active ts ts'"
  by (simp add: same_but_active_def)

lemma same_but_active_upd [simp]: "same_but_active ts (ts(w := (ts w)\<lparr>active := v\<rparr>))"
  by (simp add: same_but_active_def)

lemma moved_only_refl [simp]: "moved_only h sz pos ts ts"
  by (simp add: moved_only_def)

lemma moved_only_step:
  assumes "moved_only (h[pos := h ! src]) sz src (ts(w := (ts w)\<lparr>active := v\<rparr>)) ts'"
    "src < sz" "src \<noteq> pos" "pos < sz" "sz \<le> length h" "wt (h ! src) = Some w"
  shows "moved_only h sz pos ts ts'"
  unfolding moved_only_def
proof (intro conjI allI impI)
  have "same_but_active (ts(w := (ts w)\<lparr>active := v\<rparr>)) ts'"
    using assms(1) by (simp add: moved_only_def)
  then show "same_but_active ts ts'"
    by (rule same_but_active_trans [OF same_but_active_upd])
next
  fix u
  assume out: "\<forall>i < sz. i \<noteq> pos \<longrightarrow> wt (h ! i) \<noteq> Some u"
  then have "u \<noteq> w" using assms(2,3,6) by auto
  moreover have "\<forall>i < sz. i \<noteq> src \<longrightarrow> wt (h[pos := h ! src] ! i) \<noteq> Some u"
    using out assms(2-6) \<open>u \<noteq> w\<close> by (auto simp: nth_list_update)
  ultimately show "ts' u = ts u"
    using assms(1) by (simp add: moved_only_def)
qed

lemma shift_up_loop_upheap:
  assumes "placed h ts sz pos wb" "pos < sz" "sz \<le> length h"
  obtains h' ts' p' where "shift_up_loop h ts pos bak = Inr (h', ts', p')"
    "upheap_loop by_cache h pos bak = (h', p')" "p' < sz" "length h' = length h"
    "placed h' ts' sz p' wb" "moved_only h sz pos ts ts'"
  using assms
proof (induction pos arbitrary: h ts thesis rule: less_induct)
  case (less pos)
  show ?case
  proof (cases "pos = 0 \<or> cache_at (h ! PARENT pos) < cache_at bak")
    case True
    then have "shift_up_loop h ts pos bak = Inr (h, ts, pos)" "upheap_loop by_cache h pos bak = (h, pos)"
      by (auto simp: shift_up_loop.simps [of h ts pos] upheap_loop.simps [of by_cache h pos]
          by_cache_def)
    then show ?thesis by (rule less.prems(1)) (use less.prems(2-4) in simp_all)
  next
    case False
    let ?p = "PARENT pos" and ?h = "h[pos := h ! PARENT pos]"
    have p: "?p < pos" using False by (simp add: PARENT_less)
    obtain w where w: "wt (h ! ?p) = Some w"
      using placedD [OF less.prems(2), of ?p] less.prems(3) p by auto
    let ?ts = "ts(w := (ts w)\<lparr>active := int pos + 1\<rparr>)"
    have pl: "placed ?h ?ts sz ?p wb"
      using less.prems p w by (intro placed_move) auto
    obtain h' ts' p' where r: "shift_up_loop ?h ?ts ?p bak = Inr (h', ts', p')"
      "upheap_loop by_cache ?h ?p bak = (h', p')" "p' < sz" "length h' = length ?h"
      "placed h' ts' sz p' wb" "moved_only ?h sz ?p ?ts ts'"
      by (rule less.IH [OF p _ pl]) (use less.prems(3,4) p in auto)
    show ?thesis
    proof (rule less.prems(1))
      show "shift_up_loop h ts pos bak = Inr (h', ts', p')"
        using False r(1) w less.prems(3,4)
        by (simp add: shift_up_loop.simps [of h ts pos] HEAP_WATCHER_ACTIVE_def Let_def)
      show "upheap_loop by_cache h pos bak = (h', p')"
        using False r(2) by (simp add: upheap_loop.simps [of by_cache h pos] by_cache_def)
      show "p' < sz" "length h' = length h" "placed h' ts' sz p' wb" using r by simp_all
      show "moved_only h sz pos ts ts'"
        by (rule moved_only_step [OF r(6)]) (use less.prems(3,4) p w in auto)
    qed
  qed
qed

lemma shift_down_loop_downheap:
  assumes "placed h ts sz pos wb" "pos < sz" "sz \<le> length h"
  obtains h' ts' p' where "shift_down_loop sz h ts pos bak = Inr (h', ts', p')"
    "downheap_loop by_cache sz h pos bak = (h', p')" "p' < sz" "length h' = length h"
    "placed h' ts' sz p' wb" "moved_only h sz pos ts ts'"
  using assms
proof (induction "sz - pos" arbitrary: pos h ts thesis rule: less_induct)
  case less
  show ?case
  proof (cases "\<exists>m. min_child by_cache h sz (LCHILD pos) = Some m \<and> \<not> cache_at bak < cache_at (h ! m)")
    case False
    then have "shift_down_loop sz h ts pos bak = Inr (h, ts, pos)"
      "downheap_loop by_cache sz h pos bak = (h, pos)"
      by (auto simp: shift_down_loop.simps [of sz h ts pos] by_cache_def
          downheap_loop.simps [of by_cache sz h pos] split: option.splits)
    then show ?thesis by (rule less.prems(1)) (use less.prems(2-4) in simp_all)
  next
    case True
    then obtain m where m: "min_child by_cache h sz (LCHILD pos) = Some m"
      "\<not> cache_at bak < cache_at (h ! m)" by blast
    note mc = min_child_parent [OF m(1)]
    let ?h = "h[pos := h ! m]"
    obtain w where w: "wt (h ! m) = Some w"
      using placedD [OF less.prems(2), of m] less.prems(3) mc by auto
    let ?ts = "ts(w := (ts w)\<lparr>active := int pos + 1\<rparr>)"
    have pl: "placed ?h ?ts sz m wb"
      using less.prems mc w by (intro placed_move) auto
    have d: "sz - m < sz - pos" using mc(2,4) by simp
    obtain h' ts' p' where r: "shift_down_loop sz ?h ?ts m bak = Inr (h', ts', p')"
      "downheap_loop by_cache sz ?h m bak = (h', p')" "p' < sz" "length h' = length ?h"
      "placed h' ts' sz p' wb" "moved_only ?h sz m ?ts ts'"
      using less.hyps [OF d _ pl] less.prems(3,4) mc(2) by auto
    show ?thesis
    proof (rule less.prems(1))
      show "shift_down_loop sz h ts pos bak = Inr (h', ts', p')"
        using m r(1) w less.prems(3,4)
        by (simp add: shift_down_loop.simps [of sz h ts pos] HEAP_WATCHER_ACTIVE_def Let_def)
      show "downheap_loop by_cache sz h pos bak = (h', p')"
        using m r(2) by (simp add: downheap_loop.simps [of by_cache sz h pos] by_cache_def)
      show "p' < sz" "length h' = length h" "placed h' ts' sz p' wb" using r by simp_all
      show "moved_only h sz pos ts ts'"
        by (rule moved_only_step [OF r(6)]) (use less.prems(3,4) mc w in auto)
    qed
  qed
qed

text \<open>Every slot of the first \<open>sz\<close> has a watcher that knows its position.\<close>

definition indexed :: "min_heap_t list \<Rightarrow> timers \<Rightarrow> nat \<Rightarrow> bool" where
  "indexed h ts sz \<longleftrightarrow> (\<forall>i < sz. \<exists>w. wt (h ! i) = Some w \<and> active (ts w) = int i + 1)"

lemma indexedD:
  "indexed h ts sz \<Longrightarrow> i < sz \<Longrightarrow> \<exists>w. wt (h ! i) = Some w \<and> active (ts w) = int i + 1"
  by (simp add: indexed_def)

lemma fill_hole_indexed:
  assumes "placed h ts sz p wb" "p < sz" "sz \<le> length h" "wt bak = Some wb"
  shows "\<exists>ts'. fill_hole bak (h, ts, p) = Inr (h[p := bak], ts') \<and>
    ts' = ts(wb := (ts wb)\<lparr>active := int p + 1\<rparr>) \<and> indexed (h[p := bak]) ts' sz"
  using assms placedD [OF assms(1)]
  by (fastforce simp: fill_hole_def HEAP_WATCHER_ACTIVE_def indexed_def nth_list_update)

lemma placed_filled:
  assumes "placed h' ts1 sz p' wb" "p' < sz" "sz \<le> length h'" "wt bak = Some wb"
    "moved_only h sz pos ts ts1" "pos < sz" "wt (h ! pos) = Some wb"
  obtains ts' where "fill_hole bak (h', ts1, p') = Inr (h'[p' := bak], ts')"
    "indexed (h'[p' := bak]) ts' sz" "same_but_active ts ts'"
    "\<And>w. (\<forall>i < sz. wt (h ! i) \<noteq> Some w) \<Longrightarrow> ts' w = ts w"
proof -
  obtain ts' where t: "fill_hole bak (h', ts1, p') = Inr (h'[p' := bak], ts')"
    "ts' = ts1(wb := (ts1 wb)\<lparr>active := int p' + 1\<rparr>)" "indexed (h'[p' := bak]) ts' sz"
    using fill_hole_indexed [OF assms(1-4)] by auto
  show ?thesis
  proof (rule that [OF t(1,3)])
    have "same_but_active ts ts1" using assms(5) by (simp add: moved_only_def)
    then show "same_but_active ts ts'"
      unfolding t(2) by (rule same_but_active_trans [OF _ same_but_active_upd])
    show "ts' w = ts w" if "\<forall>i < sz. wt (h ! i) \<noteq> Some w" for w
      using that assms(5-7) t(2) by (auto simp: moved_only_def)
  qed
qed

lemma shift_up_upheap:
  assumes "placed h ts sz pos wb" "pos < sz" "sz \<le> length h" "wt (h ! pos) = Some wb"
  obtains ts' where "shift_up h ts pos = Inr (upheap by_cache h pos, ts')"
    "indexed (upheap by_cache h pos) ts' sz" "same_but_active ts ts'"
    "\<And>w. (\<forall>i < sz. wt (h ! i) \<noteq> Some w) \<Longrightarrow> ts' w = ts w"
proof -
  obtain h' ts1 p' where r: "shift_up_loop h ts pos (h ! pos) = Inr (h', ts1, p')"
    "upheap_loop by_cache h pos (h ! pos) = (h', p')" "p' < sz" "length h' = length h"
    "placed h' ts1 sz p' wb" "moved_only h sz pos ts ts1"
    by (rule shift_up_loop_upheap [OF assms(1-3)])
  have u: "upheap by_cache h pos = h'[p' := h ! pos]" using r(2) by (simp add: upheap_def)
  show ?thesis
    by (rule placed_filled [OF r(5,3) _ assms(4) r(6) assms(2,4)])
      (use that r(1,4) u assms(3) in \<open>simp_all add: shift_up_def\<close>)
qed

lemma shift_down_downheap:
  assumes "placed h ts sz pos wb" "pos < sz" "sz \<le> length h" "wt (h ! pos) = Some wb"
  obtains ts' where "shift_down h sz ts pos = Inr (downheap by_cache h sz pos, ts')"
    "indexed (downheap by_cache h sz pos) ts' sz" "same_but_active ts ts'"
    "\<And>w. (\<forall>i < sz. wt (h ! i) \<noteq> Some w) \<Longrightarrow> ts' w = ts w"
proof -
  obtain h' ts1 p' where r: "shift_down_loop sz h ts pos (h ! pos) = Inr (h', ts1, p')"
    "downheap_loop by_cache sz h pos (h ! pos) = (h', p')" "p' < sz" "length h' = length h"
    "placed h' ts1 sz p' wb" "moved_only h sz pos ts ts1"
    by (rule shift_down_loop_downheap [OF assms(1-3)])
  have u: "downheap by_cache h sz pos = h'[p' := h ! pos]" using r(2) by (simp add: downheap_def)
  show ?thesis
    by (rule placed_filled [OF r(5,3) _ assms(4) r(6) assms(2,4)])
      (use that r(1,4) u assms(3) in \<open>simp_all add: shift_down_def\<close>)
qed

text \<open>So \<open>adjust\<close> computes what \<open>adjustheap\<close> of \<open>common.h\<close> computes with the comparator
  on caches, and never faults, as long as every slot has its watcher.\<close>

lemma adjust_adjustheap:
  assumes "placed h ts sz pos wb" "pos < sz" "sz \<le> length h" "wt (h ! pos) = Some wb"
  obtains ts' where "adjust h sz ts pos = Inr (adjustheap by_cache h sz pos, ts')"
    "indexed (adjustheap by_cache h sz pos) ts' sz" "same_but_active ts ts'"
    "\<And>w. (\<forall>i < sz. wt (h ! i) \<noteq> Some w) \<Longrightarrow> ts' w = ts w"
proof (cases "pos \<noteq> 0 \<and> by_cache (h ! pos) (h ! PARENT pos)")
  case True
  then have e: "adjust h sz ts pos = shift_up h ts pos"
    "adjustheap by_cache h sz pos = upheap by_cache h pos"
    by (simp_all add: adjust_def adjustheap_def by_cache_def)
  show ?thesis
    by (rule shift_up_upheap [OF assms]) (use that e in metis)
next
  case False
  then have e: "adjust h sz ts pos = shift_down h sz ts pos"
    "adjustheap by_cache h sz pos = downheap by_cache h sz pos"
    by (auto simp: adjust_def adjustheap_def by_cache_def)
  show ?thesis
    by (rule shift_down_downheap [OF assms]) (use that e in metis)
qed

lemma adjustheap_perm:
  "sz \<le> length h \<Longrightarrow> pos < sz \<Longrightarrow>
   length (adjustheap lt h sz pos) = length h \<and> mset (adjustheap lt h sz pos) = mset h \<and>
   (\<forall>i \<ge> sz. adjustheap lt h sz pos ! i = h ! i)"
  using upheap_perm [of pos h lt] downheap_perm [of sz h pos lt] by (simp add: adjustheap_def)

section \<open>The heap and its members\<close>

text \<open>The watchers in the first \<open>sz\<close> slots, and those of a heap.\<close>

definition watchers :: "min_heap_t list \<Rightarrow> nat \<Rightarrow> nat set" where
  "watchers h sz = {w. \<exists>i < sz. wt (h ! i) = Some w}"

definition members :: "quad_minheap \<Rightarrow> nat set" where
  "members q = watchers (heap q) (hsize q)"

text \<open>The representation invariant: each slot in use has a watcher that knows its position,
  and a watcher that is in no slot has \<open>active\<close> zero.\<close>

definition heap_inv :: "quad_minheap \<Rightarrow> timers \<Rightarrow> bool" where
  "heap_inv q ts \<longleftrightarrow> hsize q \<le> length (heap q) \<and> indexed (heap q) ts (hsize q) \<and>
     (\<forall>w. w \<notin> members q \<longrightarrow> active (ts w) = 0)"

lemma watchers_perm:
  assumes "sz \<le> length h" "length h' = length h" "mset h' = mset h" "\<forall>i \<ge> sz. h' ! i = h ! i"
  shows "watchers h' sz = watchers h sz"
proof -
  have "set (take sz h') = set (take sz h)"
    using mset_take_eq [OF assms(2-4)] by (metis set_mset_mset)
  moreover have "watchers g sz = {w. Some w \<in> wt ` set (take sz g)}" if "sz \<le> length g" for g
    using that by (force simp: watchers_def in_set_conv_nth)
  ultimately show ?thesis using assms(1,2) by simp
qed

lemma indexed_inj:
  "indexed h ts sz \<Longrightarrow> i < sz \<Longrightarrow> j < sz \<Longrightarrow> wt (h ! i) = Some w \<Longrightarrow> wt (h ! j) = Some w \<Longrightarrow> i = j"
  unfolding indexed_def by (metis add_right_cancel of_nat_eq_iff option.inject)

lemma heap_inv_new: "(\<forall>w. active (ts w) = 0) \<Longrightarrow> heap_inv quad_minheap_new ts"
  by (simp add: heap_inv_def quad_minheap_new_def indexed_def)

lemma heap_inv_active:
  "heap_inv q ts \<Longrightarrow> active (ts w) \<noteq> 0 \<longleftrightarrow> w \<in> members q"
  by (fastforce simp: heap_inv_def indexed_def members_def watchers_def)

lemma heap_inv_slot:
  assumes "heap_inv q ts" "w \<in> members q"
  shows "\<exists>i < hsize q. active (ts w) = int i + 1 \<and> wt (heap q ! i) = Some w"
  using assms by (fastforce simp: heap_inv_def indexed_def members_def watchers_def)

section \<open>push\<close>

lemma push_inv:
  assumes inv: "heap_inv q ts" and w: "active (ts w) = 0" and sz: "hsize q < 2 ^ 20"
  obtains h ts' where "push w q ts = Inr (\<lparr>heap = upheap by_cache h (hsize q), hsize = hsize q + 1\<rparr>, ts')"
    "h ! hsize q = (arr_view min_heap_t_new (heap q) (hsize q))\<lparr>wt := Some w\<rparr>"
    "\<And>i. i < hsize q \<Longrightarrow> h ! i = heap q ! i" "hsize q < length h"
    "heap_inv \<lparr>heap = upheap by_cache h (hsize q), hsize = hsize q + 1\<rparr> ts'"
    "watchers (upheap by_cache h (hsize q)) (hsize q + 1) = insert w (members q)"
    "same_but_active ts ts'"
proof -
  let ?n = "hsize q"
  obtain g where g: "array_at (\<lambda>_. True) 16 min_heap_t_new ?n (heap q) = Inr g" "?n < length g"
    "arr_view min_heap_t_new g = arr_view min_heap_t_new (heap q)"
    using array_at_view [of ?n 16 "\<lambda>_. True" min_heap_t_new "heap q"] sz by auto
  have same: "g ! i = heap q ! i" if "i < ?n" for i
    using g(2) fun_cong [OF g(3), of i] that inv by (simp add: arr_view_def heap_inv_def)
  let ?h = "g[?n := (g ! ?n)\<lparr>wt := Some w\<rparr>]"
  have hn: "?h ! ?n = (arr_view min_heap_t_new (heap q) ?n)\<lparr>wt := Some w\<rparr>"
    using g(2) fun_cong [OF g(3), of ?n] by (simp add: arr_view_def)
  have hi: "?h ! i = heap q ! i" if "i < ?n" for i using that same by simp
  have pl: "placed ?h ts (Suc ?n) ?n w"
    unfolding placed_def
  proof (intro allI impI)
    fix i assume "i < Suc ?n" "i \<noteq> ?n"
    then have i: "i < ?n" by simp
    then obtain v where "wt (heap q ! i) = Some v" "active (ts v) = int i + 1"
      using inv by (auto simp: heap_inv_def indexed_def)
    moreover from this have "v \<noteq> w" using w by auto
    ultimately show "\<exists>v. wt (?h ! i) = Some v \<and> v \<noteq> w \<and> active (ts v) = int i + 1"
      using hi [OF i] by simp
  qed
  obtain ts' where t: "shift_up ?h ts ?n = Inr (upheap by_cache ?h ?n, ts')"
    "indexed (upheap by_cache ?h ?n) ts' (Suc ?n)" "same_but_active ts ts'"
    "\<And>v. (\<forall>i < Suc ?n. wt (?h ! i) \<noteq> Some v) \<Longrightarrow> ts' v = ts v"
    by (rule shift_up_upheap [OF pl]) (use g(2) in auto)
  have "watchers ?h (Suc ?n) = insert w (members q)"
    using g(2) hi by (auto simp: watchers_def members_def less_Suc_eq)
  moreover have "watchers (upheap by_cache ?h ?n) (Suc ?n) = watchers ?h (Suc ?n)"
    using upheap_perm [of ?n ?h by_cache] g(2) by (intro watchers_perm) auto
  ultimately have m: "watchers (upheap by_cache ?h ?n) (?n + 1) = insert w (members q)" by simp
  have "ts' v = ts v" if "v \<notin> insert w (members q)" for v
    using that t(4) hi g(2) by (auto simp: members_def watchers_def less_Suc_eq)
  then have "active (ts' v) = 0" if "v \<notin> insert w (members q)" for v
    using that inv by (auto simp: heap_inv_def)
  then have i': "heap_inv \<lparr>heap = upheap by_cache ?h ?n, hsize = ?n + 1\<rparr> ts'"
    using t(2) m g(2) upheap_perm [of ?n ?h by_cache] by (simp add: heap_inv_def members_def)
  show ?thesis
    by (rule that [OF _ hn hi _ i' m t(3)])
      (use g(1,2) t(1) in \<open>simp_all add: push_def Let_def\<close>)
qed

section \<open>remove and pop\<close>

text \<open>Taking the watcher at a position before the last one out of the heap.\<close>

definition drop_slot :: "min_heap_t list \<Rightarrow> nat \<Rightarrow> nat \<Rightarrow> min_heap_t list" where
  "drop_slot h l pos =
     (let g = h[pos := (h ! pos)\<lparr>wt := wt (h ! l)\<rparr>] in g[l := (g ! l)\<lparr>wt := None\<rparr>])"

lemma remove_inv:
  assumes inv: "heap_inv q ts" and pos: "pos + 1 < hsize q"
  obtains w q' ts' where "wt (heap q ! pos) = Some w" "remove pos q ts = Inr (0, q', ts')"
    "hsize q' = hsize q - 1" "heap_inv q' ts'" "members q' = members q - {w}"
    "active (ts' w) = 0" "same_but_active ts ts'"
    "heap q' = adjustheap by_cache (drop_slot (heap q) (hsize q - 1) pos) (hsize q - 1) pos"
proof -
  let ?l = "hsize q - 1" and ?h = "heap q"
  have len: "hsize q \<le> length ?h" and ix: "indexed ?h ts (hsize q)"
    using inv by (simp_all add: heap_inv_def)
  obtain w where w: "wt (?h ! pos) = Some w" "active (ts w) = int pos + 1"
    using indexedD [OF ix, of pos] pos by auto
  obtain wl where wl: "wt (?h ! ?l) = Some wl" "active (ts wl) = int ?l + 1"
    using indexedD [OF ix, of ?l] pos by auto
  have "wl \<noteq> w" using w wl pos by auto
  let ?ts = "ts(w := (ts w)\<lparr>active := 0\<rparr>)"
  let ?g = "(?h[pos := (?h ! pos)\<lparr>wt := wt (?h ! ?l)\<rparr>])"
  let ?g2 = "?g[?l := (?g ! ?l)\<lparr>wt := None\<rparr>]"
  have g2: "?g2 ! i = ?h ! i" if "i < ?l" "i \<noteq> pos" for i using that by simp
  have gp: "wt (?g2 ! pos) = Some wl" using pos len wl by simp
  have pl: "placed ?g2 ?ts ?l pos wl"
    unfolding placed_def
  proof (intro allI impI)
    fix i assume i: "i < ?l" "i \<noteq> pos"
    then have "i < hsize q" by simp
    then obtain v where v: "wt (?h ! i) = Some v" "active (ts v) = int i + 1"
      using ix unfolding indexed_def by blast
    then have "v \<noteq> wl" "v \<noteq> w" using w wl i by auto
    then show "\<exists>v. wt (?g2 ! i) = Some v \<and> v \<noteq> wl \<and> active (?ts v) = int i + 1"
      using v g2 [OF i] by simp
  qed
  obtain ts' where t: "adjust ?g2 ?l ?ts pos = Inr (adjustheap by_cache ?g2 ?l pos, ts')"
    "indexed (adjustheap by_cache ?g2 ?l pos) ts' ?l" "same_but_active ?ts ts'"
    "\<And>v. (\<forall>i < ?l. wt (?g2 ! i) \<noteq> Some v) \<Longrightarrow> ts' v = ?ts v"
    by (rule adjust_adjustheap [OF pl _ _ gp]) (use pos len in auto)
  have inj: "i = j" if "i < hsize q" "j < hsize q" "wt (?h ! i) = Some v" "wt (?h ! j) = Some v" for i j v
    by (rule indexed_inj [OF ix that])
  have mem: "watchers ?g2 ?l = members q - {w}"
  proof (intro set_eqI iffI)
    fix v assume "v \<in> watchers ?g2 ?l"
    then obtain i where i: "i < ?l" "wt (?g2 ! i) = Some v" by (auto simp: watchers_def)
    show "v \<in> members q - {w}"
    proof (cases "i = pos")
      case True
      then have "v = wl" using i gp by simp
      then show ?thesis using wl \<open>wl \<noteq> w\<close> pos by (auto simp: members_def watchers_def intro!: exI [of _ ?l])
    next
      case False
      then have "wt (?h ! i) = Some v" using i g2 by simp
      moreover from this have "v \<noteq> w" using inj [of i pos v] i(1) w(1) pos False by fastforce
      ultimately show ?thesis using i by (auto simp: members_def watchers_def intro!: exI [of _ i])
    qed
  next
    fix v assume v: "v \<in> members q - {w}"
    then obtain i where i: "i < hsize q" "wt (?h ! i) = Some v"
      by (auto simp: members_def watchers_def)
    have ne: "i \<noteq> pos" using v i(2) w(1) by auto
    show "v \<in> watchers ?g2 ?l"
    proof (cases "i = ?l")
      case True
      then show ?thesis using gp i ne wl pos by (auto simp: watchers_def intro!: exI [of _ pos])
    next
      case False
      then show ?thesis using i ne g2 [of i] by (auto simp: watchers_def intro!: exI [of _ i])
    qed
  qed
  let ?a = "adjustheap by_cache ?g2 ?l pos"
  have ap: "length ?a = length ?h" "watchers ?a ?l = members q - {w}"
    using adjustheap_perm [of ?l ?g2 pos by_cache] pos len mem
      watchers_perm [of ?l ?g2 ?a] by simp_all
  have off: "ts' v = ?ts v" if "v \<notin> members q - {w}" for v
    using that t(4) mem by (auto simp: watchers_def)
  then have z: "active (ts' v) = 0" if "v \<notin> members q - {w}" for v
    using that inv by (cases "v = w") (auto simp: heap_inv_def)
  have "same_but_active ts ts'"
    by (rule same_but_active_trans [OF same_but_active_upd t(3)])
  then show ?thesis
    using that [of w "\<lparr>heap = ?a, hsize = ?l\<rparr>" ts'] w t(1,2) ap z pos len
    by (simp add: remove_def HEAP_WATCHER_ACTIVE_def heap_inv_def members_def drop_slot_def Let_def)
qed

text \<open>\<open>pop\<close> is \<open>remove(0)\<close> that returns the watcher.\<close>

lemma adjust_root: "adjust h sz ts 0 = shift_down h sz ts 0"
  by (simp add: adjust_def)

lemma pop_remove:
  "hsize q \<noteq> 0 \<Longrightarrow>
   pop q ts = bind_res (remove 0 q ts) (\<lambda>(r, q', ts'). Inr (wt (heap q ! 0), q', ts'))"
  by (auto simp: pop_def remove_def adjust_root bind_res_assoc Let_def
      intro!: arg_cong [where f = "bind_res _"] ext split: prod.splits)

lemma fill_hole_null: "wt bak = None \<Longrightarrow> p < length h \<Longrightarrow> fill_hole bak (h, ts, p) = Inl NullDeref"
  by (simp add: fill_hole_def HEAP_WATCHER_ACTIVE_def)

text \<open>The last slot: after its pointer has been moved and cleared there is nothing to place,
  and the code writes the position through the null pointer.\<close>

lemma remove_last_faults:
  assumes inv: "heap_inv q ts" and n: "hsize q = pos + 1"
  shows "remove pos q ts = Inl NullDeref"
proof -
  let ?h = "heap q"
  have len: "hsize q \<le> length ?h" and ix: "indexed ?h ts (hsize q)"
    using inv by (simp_all add: heap_inv_def)
  obtain w where w: "wt (?h ! pos) = Some w" "active (ts w) = int pos + 1"
    using indexedD [OF ix, of pos] n by auto
  let ?ts = "ts(w := (ts w)\<lparr>active := 0\<rparr>)" and ?g = "?h[pos := (?h ! pos)\<lparr>wt := None\<rparr>]"
  have null: "wt (?g ! pos) = None" using n len by simp
  have pl: "placed ?g ?ts (Suc pos) pos w"
    unfolding placed_def
  proof (intro allI impI)
    fix i assume i: "i < Suc pos" "i \<noteq> pos"
    then obtain v where v: "wt (?h ! i) = Some v" "active (ts v) = int i + 1"
      using indexedD [OF ix, of i] n by auto
    then have "v \<noteq> w" using w i by auto
    with v i show "\<exists>v. wt (?g ! i) = Some v \<and> v \<noteq> w \<and> active (?ts v) = int i + 1" by simp
  qed
  have up: "shift_up ?g ?ts pos = Inl NullDeref"
  proof -
    obtain h' ts' p' where r: "shift_up_loop ?g ?ts pos (?g ! pos) = Inr (h', ts', p')"
      "p' < Suc pos" "length h' = length ?g"
      by (rule shift_up_loop_upheap [OF pl]) (use n len in auto)
    then show ?thesis using fill_hole_null [OF null, of p' h'] n len by (simp add: shift_up_def)
  qed
  have "min_child by_cache ?g pos (LCHILD pos) = None" by (simp add: min_child_None LCHILD_def)
  then have "shift_down_loop pos ?g ?ts pos (?g ! pos) = Inr (?g, ?ts, pos)"
    by (simp add: shift_down_loop.simps)
  then have down: "shift_down ?g pos ?ts pos = Inl NullDeref"
    using fill_hole_null [OF null, of pos ?g] n len by (simp add: shift_down_def)
  have "remove pos q ts = bind_res (adjust ?g pos ?ts pos) (\<lambda>(h, ts). Inr (0, \<lparr>heap = h, hsize = pos\<rparr>, ts))"
    using w n by (simp add: remove_def HEAP_WATCHER_ACTIVE_def Let_def)
  also have "adjust ?g pos ?ts pos = Inl NullDeref" using up down by (simp add: adjust_def)
  finally show ?thesis by simp
qed

text \<open>A new watcher against caches that are all at least its slot's: it goes to the root.\<close>

lemma upheap_loop_to_root:
  assumes "\<And>i. i < pos \<Longrightarrow> cache_at bak \<le> cache_at (h ! i)" "pos < length h"
  shows "snd (upheap_loop by_cache h pos bak) = 0"
  using assms
proof (induction pos arbitrary: h rule: less_induct)
  case (less pos)
  show ?case
  proof (cases "pos = 0")
    case False
    then have p: "PARENT pos < pos" by (simp add: PARENT_less)
    then have "\<not> by_cache (h ! PARENT pos) bak"
      using less.prems(1) [of "PARENT pos"] by (simp add: by_cache_def)
    then show ?thesis
      using less.IH [OF p, of "h[pos := h ! PARENT pos]"] less.prems False p
      by (simp add: upheap_loop.simps [of by_cache h pos])
  qed (simp add: upheap_loop.simps)
qed

lemma push_root:
  assumes "heap_inv q ts" "active (ts w) = 0" "hsize q < 2 ^ 20"
    "arr_view min_heap_t_new (heap q) (hsize q) = min_heap_t_new"
    "\<forall>i < hsize q. 0 \<le> cache_at (heap q ! i)"
  shows "\<exists>q' ts'. push w q ts = Inr (q', ts') \<and> wt (heap_top q') = Some w"
proof -
  let ?n = "hsize q"
  obtain h ts' where r: "push w q ts = Inr (\<lparr>heap = upheap by_cache h ?n, hsize = ?n + 1\<rparr>, ts')"
    "h ! ?n = (arr_view min_heap_t_new (heap q) ?n)\<lparr>wt := Some w\<rparr>"
    "\<And>i. i < ?n \<Longrightarrow> h ! i = heap q ! i" "?n < length h"
    by (rule push_inv [OF assms(1-3)]) blast
  have b: "cache_at (h ! ?n) = 0" "wt (h ! ?n) = Some w"
    using r(2) assms(4) by (simp_all add: min_heap_t_new_def)
  obtain h' p' where l: "upheap_loop by_cache h ?n (h ! ?n) = (h', p')" by fastforce
  have "p' = 0"
    using upheap_loop_to_root [of ?n "h ! ?n" h] r(3,4) b assms(5) l by simp
  moreover have "0 < length h'" using upheap_loop_perm [OF r(4) l] r(4) by auto
  ultimately have "wt (upheap by_cache h ?n ! 0) = Some w"
    using b l r(4) by (simp add: upheap_def)
  then show ?thesis using r(1) by (simp add: heap_top_def)
qed

text \<open>Sifting down a slot whose cache has changed keeps the invariant.\<close>

lemma indexed_placed:
  assumes "indexed h ts sz" "pos < sz" "wt (h ! pos) = Some wb"
  shows "placed h ts sz pos wb"
  unfolding placed_def
proof (intro allI impI)
  fix i assume i: "i < sz" "i \<noteq> pos"
  then obtain w where "wt (h ! i) = Some w" "active (ts w) = int i + 1" using indexedD [OF assms(1)] by blast
  moreover have "w \<noteq> wb" using indexed_inj [OF assms(1) i(1) assms(2)] calculation(1) assms(3) i(2) by blast
  ultimately show "\<exists>w. wt (h ! i) = Some w \<and> w \<noteq> wb \<and> active (ts w) = int i + 1" by blast
qed

lemma shift_down_inv:
  assumes inv: "heap_inv q ts" and pos: "pos < hsize q"
  obtains ts' where "shift_down (heap q) (hsize q) ts pos = Inr (downheap by_cache (heap q) (hsize q) pos, ts')"
    "heap_inv (q\<lparr>heap := downheap by_cache (heap q) (hsize q) pos\<rparr>) ts'" "same_but_active ts ts'"
    "members (q\<lparr>heap := downheap by_cache (heap q) (hsize q) pos\<rparr>) = members q"
proof -
  let ?h = "heap q" and ?n = "hsize q" and ?d = "downheap by_cache (heap q) (hsize q) pos"
  have len: "?n \<le> length ?h" and ix: "indexed ?h ts ?n" using inv by (simp_all add: heap_inv_def)
  obtain w where w: "wt (?h ! pos) = Some w" using indexedD [OF ix pos] by blast
  obtain ts' where t: "shift_down ?h ?n ts pos = Inr (?d, ts')" "indexed ?d ts' ?n" "same_but_active ts ts'"
    "\<And>w. (\<forall>i < ?n. wt (?h ! i) \<noteq> Some w) \<Longrightarrow> ts' w = ts w"
    by (rule shift_down_downheap [OF indexed_placed [OF ix pos w] pos len w]) blast
  have p: "length ?d = length ?h" "watchers ?d ?n = watchers ?h ?n"
    using downheap_perm [OF len pos, of by_cache] watchers_perm [OF len, of ?d] by simp_all
  have "active (ts' v) = 0" if "v \<notin> watchers ?h ?n" for v
    using that t(4) [of v] inv by (auto simp: heap_inv_def members_def watchers_def)
  then show ?thesis
    using that [OF t(1) _ t(3)] t(2) p len by (simp add: heap_inv_def members_def)
qed

text \<open>The cached deadline at the root, when it is the least one, survives the removal of its timer.\<close>

lemma downheap_loop_above:
  "downheap_loop lt sz h pos bak = (h', p') \<Longrightarrow> pos \<le> p' \<and> (\<forall>j < pos. h' ! j = h ! j)"
proof (induction lt sz h pos bak arbitrary: h' p' rule: downheap_loop.induct)
  case (1 lt sz h pos bak)
  show ?case
  proof (cases "min_child lt h sz (LCHILD pos)")
    case None
    then show ?thesis using "1.prems" by (simp add: downheap_loop.simps [of lt sz h pos])
  next
    case (Some m)
    then have m: "pos < m" by (auto dest!: min_child_range simp: LCHILD_def)
    show ?thesis
    proof (cases "lt bak (h ! m)")
      case True
      then show ?thesis using "1.prems" Some by (simp add: downheap_loop.simps [of lt sz h pos])
    next
      case False
      then have "downheap_loop lt sz (h[pos := h ! m]) m bak = (h', p')"
        using "1.prems" Some by (simp add: downheap_loop.simps [of lt sz h pos])
      then show ?thesis using "1.IH" [OF Some False] m by fastforce
    qed
  qed
qed

lemma downheap_min_root:
  assumes "0 < sz" "sz \<le> length h" "\<And>i. i < sz \<Longrightarrow> cache_at (h ! 0) \<le> cache_at (h ! i)"
  shows "cache_at (downheap by_cache h sz 0 ! 0) = cache_at (h ! 0)"
    "i < sz \<Longrightarrow> cache_at (h ! 0) \<le> cache_at (downheap by_cache h sz 0 ! i)"
proof -
  let ?d = "downheap by_cache h sz 0"
  note perm = downheap_perm [OF assms(2,1), of by_cache]
  have "set (take sz ?d) = set (take sz h)"
    using mset_take_eq [of ?d h sz] perm by (metis set_mset_mset)
  then have m: "cache_at (h ! 0) \<le> cache_at (?d ! i)" if "i < sz" for i
    using that assms perm by (metis (no_types, lifting) in_set_conv_nth length_take min.absorb2 nth_take)
  obtain h' p' where l: "downheap_loop by_cache sz h 0 (h ! 0) = (h', p')" by fastforce
  have d: "?d = h'[p' := h ! 0]" using l by (simp add: downheap_def)
  have len: "length h' = length h" using perm d by simp
  show "cache_at (?d ! 0) = cache_at (h ! 0)"
  proof (cases "p' = 0")
    case True
    moreover have "0 < length h'" using len assms(1,2) by linarith
    ultimately show ?thesis using d nth_list_update_eq [of 0 h' "h ! 0"] by simp
  next
    case False
    then obtain c where c: "min_child by_cache h sz (LCHILD 0) = Some c" "\<not> by_cache (h ! 0) (h ! c)"
      using l by (auto simp: downheap_loop.simps [of by_cache sz h 0] split: option.splits if_splits)
    then have c2: "0 < c" "c < sz" by (auto dest!: min_child_range simp: LCHILD_def)
    have "downheap_loop by_cache sz (h[0 := h ! c]) c (h ! 0) = (h', p')"
      using l c by (simp add: downheap_loop.simps [of by_cache sz h 0])
    from downheap_loop_above [OF this] c2 have "h' ! 0 = h[0 := h ! c] ! 0" by simp
    moreover have "0 < length h" using assms(1,2) by linarith
    ultimately have "h' ! 0 = h ! c" by (simp add: nth_list_update_eq)
    then have "?d ! 0 = h ! c" using d False by simp
    then show ?thesis using c(2) assms(3) [OF c2(2)] by (simp add: by_cache_def)
  qed
  show "i < sz \<Longrightarrow> cache_at (h ! 0) \<le> cache_at (?d ! i)" by (rule m)
qed

definition root_least :: "quad_minheap \<Rightarrow> bool" where
  "root_least q \<longleftrightarrow> (\<forall>i < hsize q. cache_at (heap q ! 0) \<le> cache_at (heap q ! i))"

lemma remove_root_cache:
  assumes "hsize q \<le> length (heap q)" "1 < hsize q" "root_least q" "hsize q' = hsize q - 1"
    "heap q' = adjustheap by_cache (drop_slot (heap q) (hsize q - 1) 0) (hsize q - 1) 0"
  shows "cache_at (heap q' ! 0) = cache_at (heap q ! 0)" "root_least q'"
proof -
  let ?l = "hsize q - 1" and ?g = "drop_slot (heap q) (hsize q - 1) 0"
  have h0: "0 < length (heap q)" using assms(1,2) by linarith
  have c: "cache_at (?g ! i) = cache_at (heap q ! i)" if "i < ?l" for i
    using that assms(1,2) nth_list_update_eq [OF h0] by (cases "i = 0") (simp_all add: drop_slot_def Let_def)
  have len: "?l \<le> length ?g" using assms(1) by (simp add: drop_slot_def Let_def)
  have min: "cache_at (?g ! 0) \<le> cache_at (?g ! i)" if "i < ?l" for i
    using that assms(2,3) c by (simp add: root_least_def)
  have l0: "0 < ?l" using assms(2) by simp
  have e: "heap q' = downheap by_cache ?g ?l 0" using assms(5) by (simp add: adjustheap_def)
  show "cache_at (heap q' ! 0) = cache_at (heap q ! 0)"
    using downheap_min_root(1) [OF l0 len min] c [OF l0] by (simp add: e)
  then show "root_least q'"
    using downheap_min_root(2) [OF l0 len min] c [OF l0] by (simp add: root_least_def e assms(4))
qed

section \<open>Properties\<close>

text \<open>Pushing an inactive watcher keeps the index invariant: the heap gains exactly that
  watcher, every watcher in it knows its slot, nothing but \<open>active\<close> fields changes, and no
  null pointer is met.\<close>

theorem push_keeps_index:
  assumes "heap_inv q ts" "active (ts w) = 0" "hsize q < 2 ^ 20"
  shows "\<exists>q' ts'. push w q ts = Inr (q', ts') \<and> heap_inv q' ts' \<and>
    hsize q' = hsize q + 1 \<and> members q' = insert w (members q) \<and> same_but_active ts ts'"
  by (rule push_inv [OF assms]) (auto simp: members_def)

definition three_timers :: timers where
  "three_timers = (\<lambda>w. ev_timer_new (real w) 0)"

theorem push_keeps_index_witness:
  "\<exists>q' ts'. push 7 quad_minheap_new three_timers = Inr (q', ts') \<and> members q' = {7}"
proof -
  have "heap_inv quad_minheap_new three_timers"
    by (rule heap_inv_new) (simp add: three_timers_def ev_timer_new_def)
  then show ?thesis
    using push_keeps_index [of quad_minheap_new three_timers 7]
    by (fastforce simp: three_timers_def ev_timer_new_def quad_minheap_new_def members_def
        watchers_def)
qed

text \<open>Removing a watcher by its slot works for every slot but the last one: the watcher
  leaves the heap with \<open>active\<close> zero and the invariant holds for the rest. For the last slot,
  so for the only timer of a loop, the operation dereferences a null pointer.\<close>

theorem remove_by_slot:
  assumes "heap_inv q ts" "pos < hsize q"
  shows "if pos + 1 = hsize q then remove pos q ts = Inl NullDeref
    else \<exists>w q' ts'. wt (heap q ! pos) = Some w \<and> remove pos q ts = Inr (0, q', ts') \<and>
      heap_inv q' ts' \<and> members q' = members q - {w} \<and> active (ts' w) = 0 \<and>
      same_but_active ts ts'"
proof (cases "pos + 1 = hsize q")
  case True
  then show ?thesis using remove_last_faults [OF assms(1), of pos] by simp
next
  case False
  then have "pos + 1 < hsize q" using assms(2) by simp
  then obtain w q' ts' where "wt (heap q ! pos) = Some w" "remove pos q ts = Inr (0, q', ts')"
    "heap_inv q' ts'" "members q' = members q - {w}" "active (ts' w) = 0" "same_but_active ts ts'"
    by (rule remove_inv [OF assms(1)])
  then show ?thesis using False by auto
qed

theorem remove_by_slot_witness:
  "\<exists>q ts. heap_inv q ts \<and> 0 < hsize q \<and> remove 0 q ts = Inl NullDeref"
proof -
  have i: "heap_inv quad_minheap_new three_timers"
    by (rule heap_inv_new) (simp add: three_timers_def ev_timer_new_def)
  obtain q' ts' where q: "heap_inv q' ts'" "hsize q' = 1"
    by (rule push_inv [OF i, of 7])
      (auto simp: three_timers_def ev_timer_new_def quad_minheap_new_def)
  then have "heap_inv q' ts' \<and> 0 < hsize q' \<and> remove 0 q' ts' = Inl NullDeref"
    using remove_by_slot [OF q(1), of 0] by simp
  then show ?thesis by blast
qed

text \<open>\<open>push\<close> compares with the cached deadline of the slot it fills, which the caller sets
  only afterwards. On a slot that was never used (cache 0) and with no negative deadline in
  the heap, the new timer therefore always becomes the root, whatever its deadline.\<close>

theorem push_goes_to_root:
  assumes "heap_inv q ts" "active (ts w) = 0" "hsize q < 2 ^ 20"
    "arr_view min_heap_t_new (heap q) (hsize q) = min_heap_t_new"
    "\<forall>i < hsize q. 0 \<le> cache_at (heap q ! i)"
  shows "\<exists>q' ts'. push w q ts = Inr (q', ts') \<and> wt (heap_top q') = Some w"
  using push_root [OF assms] .

theorem push_goes_to_root_witness:
  "\<exists>q' ts'. push 7 quad_minheap_new three_timers = Inr (q', ts') \<and> wt (heap_top q') = Some 7"
proof -
  have "heap_inv quad_minheap_new three_timers"
    by (rule heap_inv_new) (simp add: three_timers_def ev_timer_new_def)
  then show ?thesis
    using push_goes_to_root [of quad_minheap_new three_timers 7]
    by (simp add: three_timers_def ev_timer_new_def quad_minheap_new_def arr_view_def)
qed

text \<open>C25. As long as every slot has its watcher, \<open>adjust\<close> never faults and leaves the slots
  exactly as \<open>adjustheap\<close> of \<open>common.h\<close> would with the caches as keys, with every watcher
  told its new position: the two hand-written heaps agree.\<close>

theorem adjust_refines_adjustheap:
  assumes "placed h ts sz pos wb" "pos < sz" "sz \<le> length h" "wt (h ! pos) = Some wb"
  shows "\<exists>ts'. adjust h sz ts pos = Inr (adjustheap by_cache h sz pos, ts') \<and>
    indexed (adjustheap by_cache h sz pos) ts' sz"
  by (rule adjust_adjustheap [OF assms]) blast

theorem adjust_refines_adjustheap_witness:
  "\<exists>ts'. adjust [\<lparr>wt = Some 1, cache_at = 5\<rparr>, \<lparr>wt = Some 2, cache_at = 3\<rparr>] 2
      (three_timers(1 := (three_timers 1)\<lparr>active := 1\<rparr>)) 1 =
    Inr (adjustheap by_cache [\<lparr>wt = Some 1, cache_at = 5\<rparr>, \<lparr>wt = Some 2, cache_at = 3\<rparr>] 2 1, ts')"
  using adjust_refines_adjustheap
    [of "[\<lparr>wt = Some 1, cache_at = 5\<rparr>, \<lparr>wt = Some 2, cache_at = 3\<rparr>]"
      "three_timers(1 := (three_timers 1)\<lparr>active := 1\<rparr>)" 2 1 2]
  by (auto simp: placed_def less_Suc_eq numeral_2_eq_2)

end
