(* ===== verification/Machine.thy ===== *)
theory Machine
  imports Prelude
begin

text \<open>
  Machines whose steps may fault and emit events, as the rings, the notifier and the thread pool are: runs
  over a list of choices, the reachable states with what was emitted on the way, and how an invariant of
  the steps becomes one of the runs. The interpretations are with the machines.
\<close>

section \<open>Machines\<close>

locale machine =
  fixes step :: "'a \<Rightarrow> 's \<Rightarrow> ('s \<times> 'e list) res"
    and run :: "'a list \<Rightarrow> 's \<Rightarrow> ('s \<times> 'e list) res"
  assumes run_Nil: "run [] s = Inr (s, [])"
    and run_Cons: "run (a # as) s =
      bind_res (step a s) (\<lambda>(s, es). bind_res (run as s) (\<lambda>(s, es'). Inr (s, es @ es')))"
begin

text \<open>The states that choices allowed by \<open>ok\<close> lead to, with the events since the start.\<close>

inductive reach :: "('a \<Rightarrow> bool) \<Rightarrow> 's \<Rightarrow> 's \<Rightarrow> 'e list \<Rightarrow> bool" for ok s0 where
  start: "reach ok s0 s0 []"
| step: "reach ok s0 s E \<Longrightarrow> ok a \<Longrightarrow> step a s = Inr (s', e) \<Longrightarrow> reach ok s0 s' (E @ e)"

lemma run_one: "run [a] s = step a s"
  by (cases "step a s") (auto simp: run_Nil run_Cons split: prod.splits)

lemma run_append:
  "run (as @ bs) s = bind_res (run as s) (\<lambda>(s, E). bind_res (run bs s) (\<lambda>(s, E'). Inr (s, E @ E')))"
proof (induction as arbitrary: s)
  case Nil
  show ?case by (cases "run bs s") (auto simp: run_Nil)
next
  case (Cons a as)
  show ?case
  proof (cases "step a s")
    case (Inr p)
    obtain s1 e1 where p: "p = (s1, e1)" by fastforce
    show ?thesis
    proof (cases "run as s1")
      case (Inr q)
      then show ?thesis using Cons.IH [of s1] \<open>step a s = Inr p\<close> p
        by (cases "run bs (fst q)") (auto simp: run_Cons split: prod.splits)
    qed (use Cons.IH [of s1] Inr p in \<open>simp add: run_Cons\<close>)
  qed (simp add: run_Cons)
qed

text \<open>A run reaches its end, and what is reached is the end of a run.\<close>

lemma run_reach:
  "run as s = Inr (s', e) \<Longrightarrow> list_all ok as \<Longrightarrow> reach ok s0 s E \<Longrightarrow> reach ok s0 s' (E @ e)"
proof (induction as arbitrary: s E e)
  case Nil
  then show ?case by (simp add: run_Nil)
next
  case (Cons a as)
  obtain s1 e1 e2 where *: "step a s = Inr (s1, e1)" "run as s1 = Inr (s', e2)" "e = e1 @ e2"
    using Cons.prems(1) by (auto simp: run_Cons bind_res_Inr_conv)
  then show ?case using Cons.IH [OF *(2), of "E @ e1"] reach.step [OF Cons.prems(3) _ *(1)] Cons.prems(2) by simp
qed

lemma reach_run: "reach ok s0 s E \<Longrightarrow> \<exists>as. list_all ok as \<and> run as s0 = Inr (s, E)"
proof (induction rule: reach.induct)
  case start
  show ?case by (rule exI [of _ "[]"]) (simp add: run_Nil)
next
  case (step s E a s' e)
  then obtain as where "list_all ok as" "run as s0 = Inr (s, E)" by blast
  then show ?case using step.hyps by (intro exI [of _ "as @ [a]"]) (simp add: run_append run_one)
qed

text \<open>The invariant rule.\<close>

lemma reach_invariant:
  assumes "reach ok s0 s E" "I s0 []"
    and "\<And>s E a s' e. I s E \<Longrightarrow> ok a \<Longrightarrow> step a s = Inr (s', e) \<Longrightarrow> I s' (E @ e)"
  shows "I s E"
  using assms(1,2) by (induction rule: reach.induct) (auto intro: assms(3))

text \<open>What all allowed steps keep, from a state that has it, runs keep; \<open>F\<close> are the faults that may end one.\<close>

lemma run_safe:
  assumes steps: "\<And>s E a. I s E \<Longrightarrow> ok a \<Longrightarrow> (\<exists>f \<in> F. step a s = Inl f) \<or> (\<exists>s' e. step a s = Inr (s', e) \<and> I s' (E @ e))"
    and "I s E" "list_all ok as"
  shows "(\<exists>f \<in> F. run as s = Inl f) \<or> (\<exists>s' e. run as s = Inr (s', e) \<and> I s' (E @ e))"
  using assms(2,3)
proof (induction as arbitrary: s E)
  case (Cons a as)
  consider f where "f \<in> F" "step a s = Inl f" | s1 e1 where "step a s = Inr (s1, e1)" "I s1 (E @ e1)"
    using steps [OF Cons.prems(1), of a] Cons.prems(2) by auto
  then show ?case
  proof cases
    case 2
    then show ?thesis using Cons.IH [OF 2(2)] Cons.prems(2) by (auto simp: run_Cons)
  qed (auto simp: run_Cons)
qed (simp add: run_Nil)

lemma run_faultless:
  assumes "\<And>s E a. I s E \<Longrightarrow> ok a \<Longrightarrow> \<exists>s' e. step a s = Inr (s', e) \<and> I s' (E @ e)" "I s E" "list_all ok as"
  shows "\<exists>s' e. run as s = Inr (s', e) \<and> I s' (E @ e)"
proof -
  have "(\<exists>f \<in> {}. run as s = Inl f) \<or> (\<exists>s' e. run as s = Inr (s', e) \<and> I s' (E @ e))"
    by (rule run_safe [where I = I and ok = ok]) (use assms(2,3) in \<open>auto intro: assms(1)\<close>)
  then show ?thesis by simp
qed

text \<open>What no allowed step changes.\<close>

lemma run_unchanged:
  assumes "\<And>s s' a e. ok a \<Longrightarrow> step a s = Inr (s', e) \<Longrightarrow> v s' = v s"
    and "run as s = Inr (s', e)" "list_all ok as"
  shows "v s' = v s"
proof -
  have "reach ok s s' ([] @ e)" by (rule run_reach [OF assms(2,3) reach.start])
  then show ?thesis by (rule reach_invariant [where I = "\<lambda>t _. v t = v s"]) (simp_all add: assms(1))
qed

end

text \<open>Machines without events.\<close>

locale quiet_machine =
  fixes qstep :: "'a \<Rightarrow> 's \<Rightarrow> 's res" and qrun :: "'a list \<Rightarrow> 's \<Rightarrow> 's res"
  assumes qrun_Nil: "qrun [] s = Inr s"
    and qrun_Cons: "qrun (a # as) s = bind_res (qstep a s) (qrun as)"

sublocale quiet_machine \<subseteq> machine "\<lambda>a s. map_sum id (\<lambda>s. (s, [] :: unit list)) (qstep a s)"
  "\<lambda>as s. map_sum id (\<lambda>s. (s, [])) (qrun as s)"
proof
  fix s a as
  show "map_sum id (\<lambda>s. (s, [])) (qrun [] s) = Inr (s, [])" by (simp add: qrun_Nil)
  show "map_sum id (\<lambda>s. (s, [])) (qrun (a # as) s) =
    bind_res (map_sum id (\<lambda>s. (s, [])) (qstep a s))
      (\<lambda>(s, es). bind_res (map_sum id (\<lambda>s. (s, [])) (qrun as s)) (\<lambda>(s, es'). Inr (s, es @ es')))"
  proof (cases "qstep a s")
    case (Inr s1)
    then show ?thesis by (cases "qrun as s1") (simp_all add: qrun_Cons)
  qed (simp add: qrun_Cons)
qed

context quiet_machine
begin

lemma qrun_faultless:
  assumes "\<And>s a. I s \<Longrightarrow> ok a \<Longrightarrow> \<exists>s'. qstep a s = Inr s' \<and> I s'" "I s" "list_all ok as"
  shows "\<exists>s'. qrun as s = Inr s' \<and> I s'"
proof -
  have "\<exists>s' e. map_sum id (\<lambda>s. (s, [] :: unit list)) (qrun as s) = Inr (s', e) \<and> I s'"
    by (rule run_faultless [of "\<lambda>s _. I s" ok s "[]" as]) (use assms in force)+
  then show ?thesis by (cases "qrun as s") auto
qed

end

end
