(* ===== verification/Circ_Buf.thy ===== *)
theory Circ_Buf
  imports Mem_Array Machine
begin

text \<open>
  The one-producer one-consumer ring of \<open>simple_circbuf.h\<close>. The indices \<open>in_\<close> and \<open>out_\<close> are
  64-bit counters that are never reset and wrap; the slot of a counter is its low bits. A cell
  that was allocated and never written is \<open>None\<close>; the empty buffer is the null pointer.

  \<open>Put\<close> and \<open>Get\<close> are split at their memory fences into the check of the indices, the copy of
  the element and the store of the index, so that the two threads can be interleaved.
\<close>

section \<open>State\<close>

record 'a simple_circbuf =
  buffer :: "'a option list"
  buffer_size :: ull
  bmask :: ull
  in_at :: ull
  out_at :: ull

text \<open>\<open>ReInit\<close> asks for \<open>n * sizeof(T)\<close> bytes, a product that wraps: the block has as many cells
  as fit in what was asked for.\<close>

definition set_buffer_size :: "ull \<Rightarrow> ull" where
  "set_buffer_size sz =
     (let sz = (if \<not> is_power_of_2 sz then roundup_pow_of_two sz else sz)
      in if 0 = sz then 1024 else if sz < 2 then 2 else sz)"

definition ReInit :: "(ull \<Rightarrow> bool) \<Rightarrow> ull \<Rightarrow> ull \<Rightarrow> 'a simple_circbuf \<Rightarrow> 'a simple_circbuf" where
  "ReInit alloc sizeofT sz q =
     (let n = set_buffer_size sz
      in \<lparr>buffer = (case mm_realloc alloc (\<lambda>_. None) (buffer q) (n * sizeofT)
                              (unat (n * sizeofT) div unat sizeofT) of
                      None \<Rightarrow> [] | Some b \<Rightarrow> b),
          buffer_size = n, bmask = n - 1, in_at = 0, out_at = 0\<rparr>)"

definition SimpleCircBuf :: "(ull \<Rightarrow> bool) \<Rightarrow> ull \<Rightarrow> ull \<Rightarrow> 'a simple_circbuf" where
  "SimpleCircBuf alloc sizeofT sz =
     ReInit alloc sizeofT sz \<lparr>buffer = [], buffer_size = 0, bmask = 0, in_at = 0, out_at = 0\<rparr>"

section \<open>Operations\<close>

definition put_check :: "'a simple_circbuf \<Rightarrow> bool" where
  "put_check q \<longleftrightarrow> \<not> (in_at q - out_at q = buffer_size q)"

definition put_store :: "'a \<Rightarrow> 'a simple_circbuf \<Rightarrow> 'a simple_circbuf res" where
  "put_store x q =
     (let i = unat (in_at q AND bmask q)
      in if buffer q = [] then Inl NullDeref
         else if i \<ge> length (buffer q) then Inl OutOfBounds
         else Inr (q\<lparr>buffer := (buffer q)[i := Some x]\<rparr>))"

definition put_advance :: "'a simple_circbuf \<Rightarrow> 'a simple_circbuf" where
  "put_advance q = q\<lparr>in_at := in_at q + 1\<rparr>"

definition Put :: "'a \<Rightarrow> 'a simple_circbuf \<Rightarrow> (int \<times> 'a simple_circbuf) res" where
  "Put x q =
     (if \<not> put_check q then Inr (- 1, q)
      else bind_res (put_store x q) (\<lambda>q. Inr (0, put_advance q)))"

definition get_check :: "'a simple_circbuf \<Rightarrow> bool" where
  "get_check q \<longleftrightarrow> \<not> (in_at q = out_at q)"

definition get_load :: "'a simple_circbuf \<Rightarrow> 'a option res" where
  "get_load q =
     (let i = unat (out_at q AND bmask q)
      in if buffer q = [] then Inl NullDeref
         else if i \<ge> length (buffer q) then Inl OutOfBounds
         else Inr (buffer q ! i))"

definition get_advance :: "'a simple_circbuf \<Rightarrow> 'a simple_circbuf" where
  "get_advance q = q\<lparr>out_at := out_at q + 1\<rparr>"

text \<open>The result is the return code, what was moved into the reference argument (\<open>None\<close> when it
  was left alone or an unwritten cell was copied) and the queue.\<close>

definition Get :: "'a simple_circbuf \<Rightarrow> (int \<times> 'a option \<times> 'a simple_circbuf) res" where
  "Get q =
     (if \<not> get_check q then Inr (- 1, None, q)
      else bind_res (get_load q) (\<lambda>x. Inr (0, x, get_advance q)))"

section \<open>What a bounded queue promises\<close>

locale bounded_queue =
  fixes put :: "'a \<Rightarrow> 'q \<Rightarrow> (int \<times> 'q) res"
    and get :: "'q \<Rightarrow> (int \<times> 'a option \<times> 'q) res"
    and contents :: "'q \<Rightarrow> 'a list"
    and capacity :: "'q \<Rightarrow> nat"
    and ok :: "'q \<Rightarrow> bool"
  assumes put_full: "ok q \<Longrightarrow> length (contents q) = capacity q \<Longrightarrow> put x q = Inr (- 1, q)"
    and put_room: "ok q \<Longrightarrow> length (contents q) < capacity q \<Longrightarrow>
      \<exists>q'. put x q = Inr (0, q') \<and> ok q' \<and> contents q' = contents q @ [x] \<and> capacity q' = capacity q"
    and get_empty: "ok q \<Longrightarrow> contents q = [] \<Longrightarrow> get q = Inr (- 1, None, q)"
    and get_some: "ok q \<Longrightarrow> contents q = y # ys \<Longrightarrow>
      \<exists>q'. get q = Inr (0, Some y, q') \<and> ok q' \<and> contents q' = ys \<and> capacity q' = capacity q"
    and bounded: "ok q \<Longrightarrow> length (contents q) \<le> capacity q"
begin

fun puts :: "'a list \<Rightarrow> 'q \<Rightarrow> 'q res" where
  "puts [] q = Inr q"
| "puts (x # xs) q = bind_res (put x q) (\<lambda>(_, q). puts xs q)"

fun gets :: "nat \<Rightarrow> 'q \<Rightarrow> ('a list \<times> 'q) res" where
  "gets 0 q = Inr ([], q)"
| "gets (Suc n) q = bind_res (get q) (\<lambda>(_, x, q). case x of
     None \<Rightarrow> Inr ([], q)
   | Some x \<Rightarrow> bind_res (gets n q) (\<lambda>(xs, q). Inr (x # xs, q)))"

lemma puts_append:
  assumes "ok q" "length (contents q) + length xs \<le> capacity q"
  shows "\<exists>q'. puts xs q = Inr q' \<and> ok q' \<and> contents q' = contents q @ xs \<and> capacity q' = capacity q"
  using assms
proof (induction xs arbitrary: q)
  case (Cons x xs)
  then obtain q1 where q1: "put x q = Inr (0, q1)" "ok q1" "contents q1 = contents q @ [x]"
    "capacity q1 = capacity q" using put_room [of q x] by auto
  then obtain q2 where "puts xs q1 = Inr q2" "ok q2" "contents q2 = contents q1 @ xs"
    "capacity q2 = capacity q1" using Cons.IH [of q1] Cons.prems by auto
  with q1 show ?case by simp
qed simp

lemma puts_overflow:
  assumes "ok q" "length (contents q) \<le> capacity q"
  shows "\<exists>q'. puts xs q = Inr q' \<and> ok q' \<and>
    contents q' = contents q @ take (capacity q - length (contents q)) xs \<and> capacity q' = capacity q"
  using assms
proof (induction xs arbitrary: q)
  case (Cons x xs)
  show ?case
  proof (cases "length (contents q) = capacity q")
    case True
    then show ?thesis using Cons.IH [OF Cons.prems] put_full [OF Cons.prems(1) True] by simp
  next
    case False
    then have l: "length (contents q) < capacity q" using Cons.prems by simp
    then obtain q1 where q1: "put x q = Inr (0, q1)" "ok q1" "contents q1 = contents q @ [x]"
      "capacity q1 = capacity q" using put_room [of q x] Cons.prems by auto
    then obtain q2 where q2: "puts xs q1 = Inr q2" "ok q2"
      "contents q2 = contents q1 @ take (capacity q1 - length (contents q1)) xs"
      "capacity q2 = capacity q1" using Cons.IH [of q1] l by auto
    have "take (capacity q - length (contents q)) (x # xs) =
        x # take (capacity q - Suc (length (contents q))) xs"
      using l by (simp add: take_Cons' diff_Suc split: nat.splits)
    with q1 q2 show ?thesis by simp
  qed
qed simp

lemma gets_take:
  assumes "ok q"
  shows "\<exists>q'. gets n q = Inr (take n (contents q), q') \<and> ok q' \<and>
    contents q' = drop n (contents q) \<and> capacity q' = capacity q"
  using assms
proof (induction n arbitrary: q)
  case (Suc n)
  show ?case
  proof (cases "contents q")
    case Nil
    then show ?thesis using get_empty [OF Suc.prems Nil] Suc.prems by simp
  next
    case (Cons y ys)
    then obtain q1 where q1: "get q = Inr (0, Some y, q1)" "ok q1" "contents q1 = ys"
      "capacity q1 = capacity q" using get_some [OF Suc.prems Cons] by auto
    then obtain q2 where "gets n q1 = Inr (take n ys, q2)" "ok q2" "contents q2 = drop n ys"
      "capacity q2 = capacity q1" using Suc.IH [of q1] by auto
    with q1 Cons show ?thesis by simp
  qed
qed simp

lemma fifo:
  assumes "ok q" "contents q = []" "length xs \<le> capacity q"
  shows "\<exists>q' q''. puts xs q = Inr q' \<and> gets (length xs) q' = Inr (xs, q'') \<and> contents q'' = []"
proof -
  obtain q1 where "puts xs q = Inr q1" "ok q1" "contents q1 = xs"
    using puts_append [OF assms(1), of xs] assms by auto
  then show ?thesis using gets_take [of q1 "length xs"] by auto
qed

end

section \<open>The ring is one\<close>

definition slot :: "'a simple_circbuf \<Rightarrow> nat \<Rightarrow> nat" where
  "slot q i = (unat (out_at q) + i) mod unat (buffer_size q)"

definition fill :: "'a simple_circbuf \<Rightarrow> nat" where
  "fill q = unat (in_at q - out_at q)"

definition ring_contents :: "'a simple_circbuf \<Rightarrow> 'a list" where
  "ring_contents q = map (\<lambda>i. the (buffer q ! slot q i)) [0 ..< fill q]"

definition ring_ok :: "'a simple_circbuf \<Rightarrow> bool" where
  "ring_ok q \<longleftrightarrow>
     is_power_of_2 (buffer_size q) \<and> bmask q = buffer_size q - 1 \<and>
     length (buffer q) = unat (buffer_size q) \<and> fill q \<le> unat (buffer_size q) \<and>
     (\<forall>i < fill q. buffer q ! slot q i \<noteq> None)"

definition ring_capacity :: "'a simple_circbuf \<Rightarrow> nat" where
  "ring_capacity q = unat (buffer_size q)"

lemma length_ring_contents [simp]: "length (ring_contents q) = fill q"
  by (simp add: ring_contents_def)

lemma size_power:
  assumes "ring_ok q"
  obtains k where "k < 64" "unat (buffer_size q) = 2 ^ k" "bmask q = buffer_size q - 1"
  using assms by (auto simp: ring_ok_def is_power_of_2_iff unat_2_power)

lemma unat_add_mod_pow2:
  fixes a b :: ull
  assumes "k < 64"
  shows "unat (a + b) mod 2 ^ k = (unat a + unat b) mod 2 ^ k"
proof -
  have "(2 :: nat) ^ k dvd 2 ^ 64" using assms by (intro le_imp_power_dvd) simp
  then show ?thesis by (simp add: unat_word_ariths mod_mod_cancel)
qed

lemma in_slot:
  assumes "ring_ok q"
  shows "unat (in_at q AND bmask q) = slot q (fill q)"
proof -
  obtain k where k: "k < 64" "unat (buffer_size q) = 2 ^ k" "bmask q = buffer_size q - 1"
    using size_power [OF assms] .
  have "unat (in_at q AND bmask q) = unat (out_at q + (in_at q - out_at q)) mod 2 ^ k"
    using unat_and_pow2_mask [OF k(2)] k(3) by simp
  also have "\<dots> = slot q (fill q)"
    unfolding slot_def fill_def k(2) by (rule unat_add_mod_pow2 [OF k(1)])
  finally show ?thesis .
qed

lemma out_slot:
  assumes "ring_ok q"
  shows "unat (out_at q AND bmask q) = slot q 0"
proof -
  obtain k where "k < 64" "unat (buffer_size q) = 2 ^ k" "bmask q = buffer_size q - 1"
    using size_power [OF assms] .
  then show ?thesis using unat_and_pow2_mask [of "buffer_size q" k "out_at q"] by (simp add: slot_def)
qed

lemma slot_inj:
  "slot q i = slot q j \<Longrightarrow> i < unat (buffer_size q) \<Longrightarrow> j < unat (buffer_size q) \<Longrightarrow> i = j"
  unfolding slot_def by (rule add_mod_inj_nat)

lemma ring_bounds:
  assumes "ring_ok q"
  shows "0 < unat (buffer_size q)" "buffer q \<noteq> []" "slot q i < length (buffer q)"
proof -
  obtain k where "k < 64" "unat (buffer_size q) = 2 ^ k" "bmask q = buffer_size q - 1"
    using size_power [OF assms] .
  moreover have "length (buffer q) = unat (buffer_size q)" using assms by (simp add: ring_ok_def)
  ultimately show "0 < unat (buffer_size q)" "buffer q \<noteq> []" "slot q i < length (buffer q)"
    by (auto simp: slot_def)
qed

lemma fill_Suc:
  assumes "ring_ok q" "fill q < unat (buffer_size q)"
  shows "unat (in_at q + 1 - out_at q) = Suc (fill q)"
proof -
  obtain k where k: "k < 64" "unat (buffer_size q) = 2 ^ k" using size_power [OF assms(1)] .
  have "(2 :: nat) ^ k \<le> 2 ^ 63" using k(1) by (intro power_increasing) auto
  then have "fill q < 2 ^ 63" using assms(2) k(2) by simp
  moreover have "in_at q + 1 - out_at q = (in_at q - out_at q) + 1" by simp
  ultimately show ?thesis
    unfolding fill_def using unat_add_small [of "in_at q - out_at q" 1] by (simp only:) simp
qed

text \<open>The store of \<open>Put\<close> hits the free cell after the last element, and no other cell is
  touched; the index store then makes it the last element.\<close>

lemma put_store_ok:
  assumes "ring_ok q" "fill q < unat (buffer_size q)"
  shows "put_store x q = Inr (q\<lparr>buffer := (buffer q)[slot q (fill q) := Some x]\<rparr>)"
  using ring_bounds(2) [OF assms(1)] ring_bounds(3) [OF assms(1), of "fill q"]
  by (simp add: put_store_def in_slot [OF assms(1)] Let_def)

lemma store_keeps:
  assumes "ring_ok q" "fill q < unat (buffer_size q)" "i < fill q"
  shows "(buffer q)[slot q (fill q) := Some x] ! slot q i = buffer q ! slot q i"
proof -
  have "slot q (fill q) \<noteq> slot q i" using slot_inj [of q "fill q" i] assms(2,3) by auto
  then show ?thesis by simp
qed

lemma ring_store:
  assumes "ring_ok q" "fill q < unat (buffer_size q)"
    "q' = q\<lparr>buffer := (buffer q)[slot q (fill q) := Some x]\<rparr>"
  shows "ring_ok q'" "ring_contents q' = ring_contents q" "fill q' = fill q"
    "buffer_size q' = buffer_size q" "buffer q' ! slot q' (fill q') = Some x"
  using assms store_keeps [OF assms(1,2)] ring_bounds(3) [OF assms(1)]
  by (auto simp: ring_ok_def ring_contents_def slot_def fill_def)

lemma ring_put_advance:
  assumes "ring_ok q" "fill q < unat (buffer_size q)" "buffer q ! slot q (fill q) = Some x"
  shows "ring_ok (put_advance q)" "ring_contents (put_advance q) = ring_contents q @ [x]"
    "buffer_size (put_advance q) = buffer_size q" "fill (put_advance q) = Suc (fill q)"
proof -
  have f: "fill (put_advance q) = Suc (fill q)"
    using fill_Suc [OF assms(1,2)] by (simp add: fill_def put_advance_def)
  have s: "slot (put_advance q) i = slot q i" "buffer (put_advance q) = buffer q" for i
    by (simp_all add: slot_def put_advance_def)
  show "ring_ok (put_advance q)"
    using assms f s by (auto simp: ring_ok_def less_Suc_eq) (auto simp: put_advance_def)
  show "ring_contents (put_advance q) = ring_contents q @ [x]"
    using assms f s by (simp add: ring_contents_def)
  show "buffer_size (put_advance q) = buffer_size q" by (simp add: put_advance_def)
  show "fill (put_advance q) = Suc (fill q)" by (rule f)
qed

lemma get_load_ok:
  assumes "ring_ok q" "0 < fill q"
  shows "get_load q = Inr (Some (hd (ring_contents q)))"
proof -
  have "buffer q ! slot q 0 \<noteq> None" using assms by (simp add: ring_ok_def)
  then show ?thesis
    using ring_bounds(2) [OF assms(1)] ring_bounds(3) [OF assms(1), of 0] assms(2)
    by (auto simp: get_load_def out_slot [OF assms(1)] Let_def ring_contents_def hd_map upt_conv_Cons)
qed

lemma ring_get_advance:
  assumes "ring_ok q" "0 < fill q"
  shows "ring_ok (get_advance q)" "ring_contents (get_advance q) = tl (ring_contents q)"
    "buffer_size (get_advance q) = buffer_size q" "fill (get_advance q) = fill q - 1"
    "slot (get_advance q) i = slot q (Suc i)"
proof -
  obtain k where k: "k < 64" "unat (buffer_size q) = 2 ^ k" using size_power [OF assms(1)] .
  have e: "in_at q - (out_at q + 1) = (in_at q - out_at q) - 1" by simp
  have "in_at q - out_at q \<noteq> 0" using assms(2) by (auto simp: fill_def)
  then have "unat (in_at q - (out_at q + 1)) = fill q - 1"
    unfolding e fill_def by (rule unat_minus_1)
  then have f: "fill (get_advance q) = fill q - 1"
    by (simp add: fill_def get_advance_def)
  have s: "slot (get_advance q) i = slot q (Suc i)" for i
  proof -
    have "(unat (out_at q + 1) + i) mod 2 ^ k = (unat (out_at q + 1) mod 2 ^ k + i) mod 2 ^ k"
      by (simp add: mod_simps)
    also have "\<dots> = (unat (out_at q) + Suc i) mod 2 ^ k"
      by (simp only: unat_add_mod_pow2 [OF k(1)]) (simp add: mod_simps)
    finally show ?thesis by (simp add: slot_def get_advance_def k(2))
  qed
  have b: "buffer (get_advance q) = buffer q" by (simp add: get_advance_def)
  show "slot (get_advance q) i = slot q (Suc i)" by (rule s)
  show "ring_ok (get_advance q)"
    using assms f s b by (auto simp: ring_ok_def) (auto simp: get_advance_def)
  show "ring_contents (get_advance q) = tl (ring_contents q)"
    by (rule nth_equalityI) (auto simp: f s b ring_contents_def nth_tl)
  show "buffer_size (get_advance q) = buffer_size q" by (simp add: get_advance_def)
  show "fill (get_advance q) = fill q - 1" by (rule f)
qed

lemma put_check_iff:
  assumes "ring_ok q"
  shows "put_check q \<longleftrightarrow> fill q < unat (buffer_size q)"
  using assms by (auto simp: put_check_def fill_def ring_ok_def word_unat_eq_iff)

lemma get_check_iff: "get_check q \<longleftrightarrow> 0 < fill q"
  by (simp add: get_check_def fill_def unat_gt_0)

interpretation ring: bounded_queue Put Get ring_contents ring_capacity ring_ok
proof
  fix q :: "'a simple_circbuf" and x
  assume ok: "ring_ok q"
  show "length (ring_contents q) \<le> ring_capacity q"
    using ok by (simp add: ring_ok_def ring_capacity_def)
  show "Put x q = Inr (- 1, q)" if "length (ring_contents q) = ring_capacity q"
    using that by (simp add: Put_def put_check_iff [OF ok] ring_capacity_def)
  show "\<exists>q'. Put x q = Inr (0, q') \<and> ring_ok q' \<and> ring_contents q' = ring_contents q @ [x] \<and>
      ring_capacity q' = ring_capacity q" if "length (ring_contents q) < ring_capacity q"
  proof -
    have l: "fill q < unat (buffer_size q)" using that by (simp add: ring_capacity_def)
    let ?q = "q\<lparr>buffer := (buffer q)[slot q (fill q) := Some x]\<rparr>"
    note r = ring_store [OF ok l refl, of x]
    have "fill ?q < unat (buffer_size ?q)" using l r by simp
    note a = ring_put_advance [OF r(1) this r(5)]
    show ?thesis
      using a(1-3) r(2) l by (simp add: Put_def put_check_iff [OF ok] put_store_ok [OF ok l] ring_capacity_def)
  qed
  show "Get q = Inr (- 1, None, q)" if "ring_contents q = []"
    using that by (simp add: Get_def get_check_iff flip: length_ring_contents)
  show "\<exists>q'. Get q = Inr (0, Some y, q') \<and> ring_ok q' \<and> ring_contents q' = ys \<and>
      ring_capacity q' = ring_capacity q" if "ring_contents q = y # ys" for y ys
  proof -
    have l: "0 < fill q" using that by (simp flip: length_ring_contents)
    then show ?thesis
      using ring_get_advance [OF ok l] that
      by (simp add: Get_def get_check_iff get_load_ok [OF ok l] ring_capacity_def)
  qed
qed

text \<open>The constructor rounds the size up to a power of two, with 2 and 1024 as the exceptions.\<close>

lemma set_buffer_size_power: "is_power_of_2 (set_buffer_size sz) \<and> 2 \<le> unat (set_buffer_size sz)"
proof -
  have p: "is_power_of_2 (1024 :: ull)" "is_power_of_2 (2 :: ull)" by code_simp+
  have "is_power_of_2 (roundup_pow_of_two sz) \<or> roundup_pow_of_two sz = 0"
    using roundup_pow_of_two_cases [of sz] by (auto simp: is_power_of_2_iff)
  then show ?thesis
    using p by (auto simp: set_buffer_size_def Let_def word_less_nat_alt not_less)
qed

lemma SimpleCircBuf_ok:
  assumes "alloc (set_buffer_size sz * sizeofT)" "0 < unat sizeofT"
    "unat (set_buffer_size sz) * unat sizeofT < 2 ^ 64"
  shows "ring_ok (SimpleCircBuf alloc sizeofT sz)"
    "ring_contents (SimpleCircBuf alloc sizeofT sz) = []"
    "buffer_size (SimpleCircBuf alloc sizeofT sz) = set_buffer_size sz"
  using assms set_buffer_size_power [of sz]
  by (simp_all add: SimpleCircBuf_def ReInit_def Let_def mm_realloc_def ring_ok_def fill_def
      ring_contents_def unat_mult_small)

section \<open>One producer and one consumer\<close>

text \<open>The program counters of the two threads between their accesses. A turn of the producer
  with value \<open>x\<close> takes its next step: the index check (which starts a \<open>Put(x)\<close>), the copy, the
  index store; likewise for the consumer. \<open>sent\<close> and \<open>received\<close> log what the two calls
  returned with success.\<close>

datatype 'a producer_pc = PReady | PStore 'a | PAdvance 'a
datatype 'a consumer_pc = CReady | CLoad | CAdvance "'a option"
datatype 'a turn = Producer 'a | Consumer

record 'a spsc =
  ring :: "'a simple_circbuf"
  ppc :: "'a producer_pc"
  cpc :: "'a consumer_pc"
  sent :: "'a list"
  received :: "'a option list"

definition spsc_start :: "'a simple_circbuf \<Rightarrow> 'a spsc" where
  "spsc_start q = \<lparr>ring = q, ppc = PReady, cpc = CReady, sent = [], received = []\<rparr>"

fun spsc_step :: "'a turn \<Rightarrow> 'a spsc \<Rightarrow> 'a spsc res" where
  "spsc_step (Producer x) s =
     (case ppc s of
        PReady \<Rightarrow> Inr (if put_check (ring s) then s\<lparr>ppc := PStore x\<rparr> else s)
      | PStore y \<Rightarrow> bind_res (put_store y (ring s)) (\<lambda>q. Inr (s\<lparr>ring := q, ppc := PAdvance y\<rparr>))
      | PAdvance y \<Rightarrow>
          Inr (s\<lparr>ring := put_advance (ring s), ppc := PReady, sent := sent s @ [y]\<rparr>))"
| "spsc_step Consumer s =
     (case cpc s of
        CReady \<Rightarrow> Inr (if get_check (ring s) then s\<lparr>cpc := CLoad\<rparr> else s)
      | CLoad \<Rightarrow> bind_res (get_load (ring s)) (\<lambda>x. Inr (s\<lparr>cpc := CAdvance x\<rparr>))
      | CAdvance x \<Rightarrow>
          Inr (s\<lparr>ring := get_advance (ring s), cpc := CReady, received := received s @ [x]\<rparr>))"

fun spsc_run :: "'a turn list \<Rightarrow> 'a spsc \<Rightarrow> 'a spsc res" where
  "spsc_run [] s = Inr s"
| "spsc_run (t # ts) s = bind_res (spsc_step t s) (spsc_run ts)"

interpretation spsc_machine: quiet_machine spsc_step spsc_run
  by unfold_locales simp_all

definition spsc_inv :: "'a spsc \<Rightarrow> bool" where
  "spsc_inv s \<longleftrightarrow>
     ring_ok (ring s) \<and>
     map Some (sent s) = received s @ map Some (ring_contents (ring s)) \<and>
     (case ppc s of PReady \<Rightarrow> True
      | PStore x \<Rightarrow> fill (ring s) < unat (buffer_size (ring s))
      | PAdvance x \<Rightarrow> fill (ring s) < unat (buffer_size (ring s)) \<and>
          buffer (ring s) ! slot (ring s) (fill (ring s)) = Some x) \<and>
     (case cpc s of CReady \<Rightarrow> True
      | CLoad \<Rightarrow> 0 < fill (ring s)
      | CAdvance y \<Rightarrow> 0 < fill (ring s) \<and> y = Some (hd (ring_contents (ring s))))"

lemma ring_contents_ne: "0 < fill q \<Longrightarrow> ring_contents q \<noteq> []"
  by (simp flip: length_ring_contents)

lemma spsc_producer:
  assumes "spsc_inv s"
  shows "\<exists>s'. spsc_step (Producer x) s = Inr s' \<and> spsc_inv s'"
proof (cases "ppc s")
  case PReady
  then show ?thesis
    using assms PReady by (auto simp: spsc_inv_def put_check_iff split: consumer_pc.splits)
next
  case (PStore y)
  then have ok: "ring_ok (ring s)" and l: "fill (ring s) < unat (buffer_size (ring s))"
    using assms by (auto simp: spsc_inv_def)
  show ?thesis
    using assms PStore ring_store [OF ok l refl, of y] l
    by (auto simp: spsc_inv_def put_store_ok [OF ok l] split: consumer_pc.splits)
next
  case (PAdvance y)
  then have ok: "ring_ok (ring s)" and l: "fill (ring s) < unat (buffer_size (ring s))"
    and b: "buffer (ring s) ! slot (ring s) (fill (ring s)) = Some y"
    using assms by (auto simp: spsc_inv_def)
  show ?thesis
    using assms PAdvance ring_put_advance [OF ok l b] ring_contents_ne [of "ring s"]
    by (auto simp: spsc_inv_def split: consumer_pc.splits)
qed

lemma spsc_consumer:
  assumes "spsc_inv s"
  shows "\<exists>s'. spsc_step Consumer s = Inr s' \<and> spsc_inv s'"
proof (cases "cpc s")
  case CReady
  then show ?thesis
    using assms by (auto simp: spsc_inv_def get_check_iff split: producer_pc.splits)
next
  case CLoad
  then have ok: "ring_ok (ring s)" and l: "0 < fill (ring s)"
    using assms by (auto simp: spsc_inv_def)
  show ?thesis
    using assms CLoad l by (auto simp: spsc_inv_def get_load_ok [OF ok l] split: producer_pc.splits)
next
  case (CAdvance y)
  then have ok: "ring_ok (ring s)" and l: "0 < fill (ring s)"
    and y: "y = Some (hd (ring_contents (ring s)))"
    using assms by (auto simp: spsc_inv_def)
  have e: "ring_contents (ring s) = hd (ring_contents (ring s)) # tl (ring_contents (ring s))"
    using ring_contents_ne [OF l] by simp
  have "map Some (ring_contents (ring s)) = y # map Some (tl (ring_contents (ring s)))"
    by (subst e) (simp add: y)
  moreover have "buffer (get_advance (ring s)) = buffer (ring s)" by (simp add: get_advance_def)
  ultimately show ?thesis
    using assms CAdvance ring_get_advance [OF ok l] l
    by (auto simp: spsc_inv_def split: producer_pc.splits)
qed

lemma spsc_run_inv: "spsc_inv s \<Longrightarrow> \<exists>s'. spsc_run ts s = Inr s' \<and> spsc_inv s'"
proof (rule spsc_machine.qrun_faultless [where ok = "\<lambda>_. True"])
  fix s :: "'a spsc" and t :: "'a turn" assume "spsc_inv s"
  then show "\<exists>s'. spsc_step t s = Inr s' \<and> spsc_inv s'"
    using spsc_producer [of s] spsc_consumer [of s] by (cases t) blast+
qed (simp_all add: list_all_iff)

section \<open>Properties\<close>

text \<open>C21. However the accesses of one producer and one consumer interleave, a
  \<open>SimpleCircBuf\<close> of any requested size never faults, and what \<open>Get\<close> returned, followed by what
  is still in the ring, is exactly what \<open>Put\<close> accepted, in order; the ring never holds more
  than its size.\<close>

theorem simple_ring_fifo:
  assumes "alloc (set_buffer_size sz * sizeofT)" "0 < unat sizeofT"
    "unat (set_buffer_size sz) * unat sizeofT < 2 ^ 64"
  shows "\<exists>s. spsc_run ts (spsc_start (SimpleCircBuf alloc sizeofT sz)) = Inr s \<and>
    map Some (sent s) = received s @ map Some (ring_contents (ring s)) \<and>
    length (ring_contents (ring s)) \<le> unat (buffer_size (ring s))"
proof -
  have "spsc_inv (spsc_start (SimpleCircBuf alloc sizeofT sz))"
    using SimpleCircBuf_ok [of alloc sz sizeofT, OF assms] by (simp add: spsc_inv_def spsc_start_def)
  then obtain s where "spsc_run ts (spsc_start (SimpleCircBuf alloc sizeofT sz)) = Inr s" "spsc_inv s"
    using spsc_run_inv by blast
  then show ?thesis by (auto simp: spsc_inv_def ring_ok_def)
qed

theorem simple_ring_fifo_witness:
  "\<exists>s. spsc_run [Producer 5, Consumer, Producer 6, Producer 7, Consumer, Consumer, Consumer]
      (spsc_start (SimpleCircBuf (\<lambda>_. True) 8 3)) = Inr (s :: nat spsc) \<and>
    map Some (sent s) = received s @ map Some (ring_contents (ring s))"
proof -
  have a: "(\<lambda>_ :: ull. True) (set_buffer_size 3 * 8)" by simp
  have b: "0 < unat (8 :: ull)" by simp
  have "set_buffer_size 3 = 4" by code_simp
  then have c: "unat (set_buffer_size 3) * unat (8 :: ull) < 2 ^ 64" by simp
  show ?thesis
    using simple_ring_fifo [OF a b c, of "[Producer 5, Consumer, Producer 6, Producer 7,
      Consumer, Consumer, Consumer]"] by blast
qed

text \<open>C26. Called in turn, a ring in any reachable position of its wrapping counters accepts
  elements until it holds its size, refuses the rest, and hands the accepted ones back in
  order.\<close>

theorem simple_ring_capacity:
  fixes q :: "'a simple_circbuf"
  assumes "ring_ok q" "ring_contents q = []"
  shows "\<exists>q'. ring.puts xs q = Inr q' \<and> ring_contents q' = take (unat (buffer_size q)) xs \<and>
    (\<exists>q''. ring.gets (length xs) q' = Inr (take (unat (buffer_size q)) xs, q'') \<and>
      ring_contents q'' = [])"
proof -
  obtain q' where q': "ring.puts xs q = Inr q'" "ring_ok q'"
    "ring_contents q' = take (unat (buffer_size q)) xs"
    using ring.puts_overflow [OF assms(1), of xs] assms by (auto simp: ring_capacity_def)
  moreover have "take (length xs) (take (unat (buffer_size q)) xs) = take (unat (buffer_size q)) xs"
    by (rule take_all) simp
  ultimately have "\<exists>q''. ring.gets (length xs) q' = Inr (take (unat (buffer_size q)) xs, q'') \<and>
      ring_contents q'' = []"
    using ring.gets_take [OF q'(2), of "length xs"] q'(3) by (simp only:) auto
  with q' show ?thesis by blast
qed

theorem simple_ring_capacity_witness:
  "\<exists>q' :: nat simple_circbuf.
     ring.puts [1, 2, 3] \<lparr>buffer = [None, Some 9], buffer_size = 2, bmask = 1,
        in_at = - 1, out_at = - 1\<rparr> = Inr q' \<and> ring_contents q' = [1, 2]"
proof -
  have "is_power_of_2 2" by code_simp
  then have "ring_ok \<lparr>buffer = [None, Some (9 :: nat)], buffer_size = 2, bmask = 1,
      in_at = - 1, out_at = - 1\<rparr>"
    by (simp add: ring_ok_def fill_def)
  from simple_ring_capacity [OF this, of "[1, 2, 3]"] show ?thesis
    by (auto simp: ring_contents_def fill_def)
qed

end
