(* ===== verification/Notifier.thy ===== *)
theory Notifier
  imports Circ_Buf
begin

text \<open>
  The notifier of \<open>notifier.h\<close> that wakes an event loop through an eventfd, and the message
  queues (\<open>msg_queue_interface.h\<close>, \<open>simple_msg_queue.h\<close>) that own one. Several threads put a
  message and call \<open>set_flag_and_notify\<close>; the event loop, when the eventfd becomes readable,
  calls \<open>unset_flag_and_clear_notify\<close> and then takes messages until there are none
  (\<open>AcceptFdCb\<close> and \<open>ResponseCb\<close>). The steps are the atomic accesses and the system calls, whose
  outcomes (success, \<open>EINTR\<close>, another error) come with the schedule. The queue operations are a
  parameter, instantiated with the ring at the end.
\<close>

section \<open>State\<close>

datatype outcome = Success | Interrupted | Failed

datatype notify_pc = NIdle | NExchange | NWrite | NClear
datatype drain_pc = DWait | DRead | DClear | DGet

record ('a, 'q) notify_sys =
  queue :: 'q
  flag :: bool
  efd :: nat
  npc :: "nat \<Rightarrow> notify_pc"
  dpc :: drain_pc
  handled :: "'a list"

definition notifier_start :: "'q \<Rightarrow> ('a, 'q) notify_sys" where
  "notifier_start q =
     \<lparr>queue = q, flag = False, efd = 0, npc = (\<lambda>_. NIdle), dpc = DWait, handled = []\<rparr>"

section \<open>Steps\<close>

definition notify_goto :: "nat \<Rightarrow> notify_pc \<Rightarrow> ('a, 'q) notify_sys \<Rightarrow> ('a, 'q) notify_sys" where
  "notify_goto t p s = s\<lparr>npc := (npc s)(t := p)\<rparr>"

text \<open>\<open>set_flag_and_notify\<close>: the exchange of the flag, the write of 1 to the eventfd when it was
  not set, and the reset of the flag when the write failed for another reason than a signal.\<close>

definition set_flag_and_notify ::
  "nat \<Rightarrow> outcome \<Rightarrow> ('a, 'q) notify_sys \<Rightarrow> ('a, 'q) notify_sys" where
  "set_flag_and_notify t r s =
     (case npc s t of
        NIdle \<Rightarrow> s
      | NExchange \<Rightarrow> notify_goto t (if flag s then NIdle else NWrite) (s\<lparr>flag := True\<rparr>)
      | NWrite \<Rightarrow>
          (case r of
             Success \<Rightarrow> notify_goto t NIdle (s\<lparr>efd := efd s + 1\<rparr>)
           | Interrupted \<Rightarrow> notify_goto t NIdle s
           | Failed \<Rightarrow> notify_goto t NClear s)
      | NClear \<Rightarrow> notify_goto t NIdle (s\<lparr>flag := False\<rparr>))"

text \<open>\<open>unset_flag_and_clear_notify\<close>, entered when \<open>epoll\<close> reports the eventfd, then the loop over
  \<open>Get\<close>. The read takes the whole counter.\<close>

definition drain_step ::
  "('q \<Rightarrow> (int \<times> 'a option \<times> 'q) res) \<Rightarrow> outcome \<Rightarrow> ('a, 'q) notify_sys \<Rightarrow> ('a, 'q) notify_sys res" where
  "drain_step get r s =
     (case dpc s of
        DWait \<Rightarrow> Inr (if efd s > 0 then s\<lparr>dpc := DRead\<rparr> else s)
      | DRead \<Rightarrow> Inr (case r of Success \<Rightarrow> s\<lparr>efd := 0, dpc := DClear\<rparr> | _ \<Rightarrow> s\<lparr>dpc := DClear\<rparr>)
      | DClear \<Rightarrow> Inr (s\<lparr>flag := False, dpc := DGet\<rparr>)
      | DGet \<Rightarrow> bind_res (get (queue s)) (\<lambda>(code, x, q).
          Inr (if code < 0 then s\<lparr>queue := q, dpc := DWait\<rparr>
               else s\<lparr>queue := q, handled := handled s @ (case x of None \<Rightarrow> [] | Some y \<Rightarrow> [y])\<rparr>)))"

datatype 'a notify_choice = Send nat 'a | Notify nat outcome | Drain outcome

text \<open>A sender starts with \<open>Put\<close>; it notifies only after the message was accepted.\<close>

definition notify_step ::
  "('a \<Rightarrow> 'q \<Rightarrow> (int \<times> 'q) res) \<Rightarrow> ('q \<Rightarrow> (int \<times> 'a option \<times> 'q) res) \<Rightarrow>
   'a notify_choice \<Rightarrow> ('a, 'q) notify_sys \<Rightarrow> ('a, 'q) notify_sys res" where
  "notify_step put get c s =
     (case c of
        Send t x \<Rightarrow>
          (case npc s t of
             NIdle \<Rightarrow> bind_res (put x (queue s)) (\<lambda>(code, q).
               Inr (if code \<noteq> 0 then s\<lparr>queue := q\<rparr> else notify_goto t NExchange (s\<lparr>queue := q\<rparr>)))
           | _ \<Rightarrow> Inr s)
      | Notify t r \<Rightarrow> Inr (set_flag_and_notify t r s)
      | Drain r \<Rightarrow> drain_step get r s)"

fun notify_run ::
  "('a \<Rightarrow> 'q \<Rightarrow> (int \<times> 'q) res) \<Rightarrow> ('q \<Rightarrow> (int \<times> 'a option \<times> 'q) res) \<Rightarrow>
   'a notify_choice list \<Rightarrow> ('a, 'q) notify_sys \<Rightarrow> ('a, 'q) notify_sys res" where
  "notify_run put get [] s = Inr s"
| "notify_run put get (c # cs) s = bind_res (notify_step put get c s) (notify_run put get cs)"

interpretation notify_machine: quiet_machine "notify_step put get" "notify_run put get" for put get
  by unfold_locales simp_all

text \<open>The write of a notification succeeds; reads may fail as they like.\<close>

definition writes_succeed :: "'a notify_choice \<Rightarrow> bool" where
  "writes_succeed c \<longleftrightarrow> (case c of Notify t r \<Rightarrow> r = Success | _ \<Rightarrow> True)"

section \<open>No message is left without a notification\<close>

text \<open>A set flag means that a wake-up is on its way. A message in the queue of a sleeping event
  loop means that the eventfd is readable or that its sender still has to notify.\<close>

definition notify_inv :: "('q \<Rightarrow> 'a list) \<Rightarrow> ('q \<Rightarrow> bool) \<Rightarrow> ('a, 'q) notify_sys \<Rightarrow> bool" where
  "notify_inv contents ok s \<longleftrightarrow>
     ok (queue s) \<and>
     (\<forall>t. npc s t \<noteq> NClear) \<and>
     (flag s \<longrightarrow> efd s > 0 \<or> (\<exists>t. npc s t = NWrite) \<or> dpc s = DClear) \<and>
     (dpc s = DWait \<and> contents (queue s) \<noteq> [] \<longrightarrow>
        efd s > 0 \<or> (\<exists>t. npc s t = NExchange \<or> npc s t = NWrite))"

context bounded_queue
begin

lemma put_cases:
  assumes "ok q"
  obtains (full) "put x q = Inr (- 1, q)"
  | (room) q' where "put x q = Inr (0, q')" "ok q'" "contents q' = contents q @ [x]"
  using put_full [OF assms, of x] put_room [OF assms, of x] bounded [OF assms]
  by (cases "length (contents q) = capacity q") (auto simp: le_less)

lemma get_cases:
  assumes "ok q"
  obtains (empty) "get q = Inr (- 1, None, q)" "contents q = []"
  | (some) y q' where "get q = Inr (0, Some y, q')" "ok q'" "contents q = y # contents q'"
proof (cases "contents q")
  case Nil
  then show ?thesis using get_empty [OF assms] empty by blast
next
  case (Cons y ys)
  then show ?thesis using get_some [OF assms Cons] some by auto
qed

lemma set_flag_and_notify_inv:
  assumes inv: "notify_inv contents ok s"
  shows "notify_inv contents ok (set_flag_and_notify t Success s)"
proof (cases "npc s t")
  case NIdle
  then show ?thesis using inv by (simp add: set_flag_and_notify_def)
next
  case NExchange
  show ?thesis
  proof (cases "flag s")
    case True
    have "efd s > 0 \<or> (\<exists>u. u \<noteq> t \<and> npc s u = NWrite) \<or> dpc s = DClear"
      using inv True NExchange unfolding notify_inv_def by (metis notify_pc.distinct(7))
    then show ?thesis
      using inv NExchange True by (auto simp: notify_inv_def set_flag_and_notify_def notify_goto_def)
  next
    case False
    then show ?thesis
      using inv NExchange by (auto simp: notify_inv_def set_flag_and_notify_def notify_goto_def)
  qed
next
  case NWrite
  then show ?thesis
    using inv by (auto simp: notify_inv_def set_flag_and_notify_def notify_goto_def)
next
  case NClear
  then show ?thesis using inv by (auto simp: notify_inv_def)
qed

lemma drain_step_inv:
  assumes inv: "notify_inv contents ok s"
  shows "\<exists>s'. drain_step get r s = Inr s' \<and> notify_inv contents ok s' \<and>
    handled s' @ contents (queue s') = handled s @ contents (queue s)"
proof (cases "dpc s")
  case DGet
  have ok: "ok (queue s)" using inv by (simp add: notify_inv_def)
  show ?thesis
    using inv DGet by (cases rule: get_cases [OF ok]) (auto simp: drain_step_def notify_inv_def)
qed (use inv in \<open>auto simp: drain_step_def notify_inv_def split: outcome.splits\<close>)

lemma send_inv:
  assumes inv: "notify_inv contents ok s"
  shows "\<exists>s'. notify_step put get (Send t x) s = Inr s' \<and> notify_inv contents ok s' \<and>
    handled s' @ contents (queue s') \<in> {handled s @ contents (queue s), handled s @ contents (queue s) @ [x]}"
proof (cases "npc s t = NIdle")
  case True
  have ok: "ok (queue s)" using inv by (simp add: notify_inv_def)
  show ?thesis
  proof (cases rule: put_cases [OF ok, of x])
    case 1
    then show ?thesis using inv True by (simp add: notify_step_def)
  next
    case (2 q')
    have "((npc s)(t := NExchange)) u = NWrite \<longleftrightarrow> npc s u = NWrite"
      "((npc s)(t := NExchange)) u = NClear \<longleftrightarrow> npc s u = NClear" for u using True by auto
    moreover have "\<exists>u. ((npc s)(t := NExchange)) u = NExchange" by (rule exI [of _ t]) simp
    ultimately have "notify_inv contents ok (notify_goto t NExchange (s\<lparr>queue := q'\<rparr>))"
      using inv 2 by (simp add: notify_inv_def notify_goto_def del: fun_upd_apply) blast
    then show ?thesis using 2 True by (auto simp: notify_step_def notify_goto_def)
  qed
next
  case False
  then show ?thesis using inv by (auto simp: notify_step_def split: notify_pc.splits)
qed

lemma notify_step_inv:
  assumes inv: "notify_inv contents ok s" and c: "writes_succeed c"
  shows "\<exists>s'. notify_step put get c s = Inr s' \<and> notify_inv contents ok s'"
proof (cases c)
  case (Send t x)
  then show ?thesis using send_inv [OF inv, of t x] by auto
next
  case (Notify t r)
  then show ?thesis
    using set_flag_and_notify_inv [OF inv, of t] c by (simp add: notify_step_def writes_succeed_def)
next
  case (Drain r)
  then show ?thesis using drain_step_inv [OF inv, of r] by (auto simp: notify_step_def)
qed

lemma notify_run_inv:
  assumes "notify_inv contents ok s" "\<forall>c \<in> set cs. writes_succeed c"
  shows "\<exists>s'. notify_run put get cs s = Inr s' \<and> notify_inv contents ok s'"
  using assms
  by (intro notify_machine.qrun_faultless [where ok = writes_succeed] notify_step_inv) (simp_all add: list_all_iff)

lemma notifier_start_inv:
  "ok q \<Longrightarrow> contents q = [] \<Longrightarrow> notify_inv contents ok (notifier_start q)"
  by (simp add: notify_inv_def notifier_start_def)

lemma no_lost_notification:
  assumes "ok q" "contents q = []" "\<forall>c \<in> set cs. writes_succeed c"
  shows "\<exists>s. notify_run put get cs (notifier_start q) = Inr s \<and>
    ((\<forall>t. npc s t = NIdle) \<and> dpc s = DWait \<and> contents (queue s) \<noteq> [] \<longrightarrow> efd s > 0)"
  using notify_run_inv [OF notifier_start_inv [OF assms(1,2)] assms(3)] by (auto simp: notify_inv_def)

text \<open>The other way round: once the flag is set with nothing to read and nobody about to write,
  no step of anyone changes that.\<close>

definition deaf :: "('a, 'q) notify_sys \<Rightarrow> bool" where
  "deaf s \<longleftrightarrow> ok (queue s) \<and> flag s \<and> efd s = 0 \<and> dpc s = DWait \<and>
     (\<forall>t. npc s t = NIdle \<or> npc s t = NExchange)"

lemma deaf_step:
  assumes "deaf s"
  shows "\<exists>s'. notify_step put get c s = Inr s' \<and> deaf s' \<and> handled s' = handled s"
proof (cases c)
  case (Send t x)
  have ok: "ok (queue s)" using assms by (simp add: deaf_def)
  show ?thesis
  proof (cases "npc s t = NIdle")
    case True
    then show ?thesis
      using assms Send by (cases rule: put_cases [OF ok, of x]) (auto simp: notify_step_def notify_goto_def deaf_def)
  next
    case False
    then show ?thesis using assms Send by (auto simp: notify_step_def deaf_def split: notify_pc.splits)
  qed
next
  case (Notify t r)
  have "npc s t = NIdle \<or> npc s t = NExchange" using assms by (simp add: deaf_def)
  then show ?thesis
    using assms Notify
    by (elim disjE) (auto simp: notify_step_def set_flag_and_notify_def notify_goto_def deaf_def)
next
  case (Drain r)
  then show ?thesis using assms by (auto simp: notify_step_def drain_step_def deaf_def)
qed

lemma deaf_run: "deaf s \<Longrightarrow> \<exists>s'. notify_run put get cs s = Inr s' \<and> deaf s' \<and> handled s' = handled s"
  by (rule notify_machine.qrun_faultless [where I = "\<lambda>t. deaf t \<and> handled t = handled s" and ok = "\<lambda>_. True"])
    (use deaf_step in \<open>fastforce simp: list_all_iff\<close>)+

end

section \<open>The queue of the accepted sockets\<close>

definition SimpleMsgQueue :: "(ull \<Rightarrow> bool) \<Rightarrow> ull \<Rightarrow> ull \<Rightarrow> ('a, 'a simple_circbuf) notify_sys" where
  "SimpleMsgQueue alloc sizeofT queue_size = notifier_start (SimpleCircBuf alloc sizeofT queue_size)"

definition set_queue_size ::
  "(ull \<Rightarrow> bool) \<Rightarrow> ull \<Rightarrow> ull \<Rightarrow> ('a, 'a simple_circbuf) notify_sys \<Rightarrow> ('a, 'a simple_circbuf) notify_sys" where
  "set_queue_size alloc sizeofT queue_size s = s\<lparr>queue := ReInit alloc sizeofT queue_size (queue s)\<rparr>"



text \<open>A write that is interrupted by a signal is neither repeated nor is the flag reset. From
  then on every later notification is suppressed: whatever anyone does afterwards, the event
  loop handles nothing any more.\<close>

theorem interrupted_notification_is_final:
  "\<exists>s. notify_run Put Get ([Send 0 x, Notify 0 Success, Notify 0 Interrupted] @ cs)
      (SimpleMsgQueue (\<lambda>_. True) 4 1024) = Inr s \<and>
    flag s \<and> efd s = 0 \<and> dpc s = DWait \<and> handled s = []"
proof -
  let ?q = "SimpleCircBuf (\<lambda>_. True) 4 1024 :: 'a simple_circbuf"
  have "set_buffer_size 1024 = 1024" by code_simp
  then have sz: "unat (set_buffer_size 1024) * unat (4 :: ull) < 2 ^ 64" by simp
  have q: "ring_ok ?q" "ring_contents ?q = []" "buffer_size ?q = set_buffer_size 1024"
    using SimpleCircBuf_ok [of "\<lambda>_. True" 1024 4] sz by simp_all
  then have "length (ring_contents ?q) < ring_capacity ?q"
    using ring_bounds(1) [OF q(1)] by (simp add: ring_capacity_def)
  then obtain q' where q': "Put x ?q = Inr (0, q')" "ring_ok q'"
    using ring.put_room [OF q(1)] by blast
  let ?s = "notify_goto 0 NIdle (notify_goto 0 NWrite ((notify_goto 0 NExchange
      ((notifier_start ?q)\<lparr>queue := q'\<rparr>))\<lparr>flag := True\<rparr>))"
  have run: "notify_run Put Get ([Send 0 x, Notify 0 Success, Notify 0 Interrupted] @ cs) (SimpleMsgQueue (\<lambda>_. True) 4 1024) =
      notify_run Put Get cs ?s"
    using q'(1)
    by (simp add: SimpleMsgQueue_def notify_step_def notifier_start_def set_flag_and_notify_def notify_goto_def)
  have "ring.deaf ?s" "handled ?s = []"
    using q'(2) by (simp_all add: ring.deaf_def notifier_start_def notify_goto_def)
  then show ?thesis
    using ring.deaf_run [of ?s cs] run by (auto simp: ring.deaf_def)
qed

end
