(* ===== verification/Ring_Core.thy ===== *)
theory Ring_Core
  imports Prelude
begin

text \<open>
  The ownership argument of the many-to-many ring, on its own: sequence numbers, one free flag
  per slot, and for every thread the sequence number it has claimed as a producer (\<open>hp\<close>) or as a
  consumer (\<open>hg\<close>). The four lemmas at the end say that the four accesses which change ownership
  keep the invariant; \<open>Conc_Buf\<close> applies them to the code.
\<close>

section \<open>Slots\<close>

text \<open>\<open>seq & mask_\<close>.\<close>

definition slot_of :: "nat \<Rightarrow> int \<Rightarrow> nat" where
  "slot_of sz n = nat (n AND (int sz - 1))"

definition pow2_size :: "nat \<Rightarrow> bool" where
  "pow2_size sz \<longleftrightarrow> (\<exists>k. sz = 2 ^ k)"

lemma slot_of_mod: "pow2_size sz \<Longrightarrow> slot_of sz n = nat (n mod int sz)"
proof -
  assume "pow2_size sz"
  then obtain k where k: "sz = 2 ^ k" by (auto simp: pow2_size_def)
  then have "int sz - 1 = mask k" by (simp add: mask_eq_exp_minus_1)
  then have "n AND (int sz - 1) = take_bit k n" by (simp add: take_bit_eq_mask)
  also have "\<dots> = n mod int sz" using k by (simp add: take_bit_eq_mod)
  finally show ?thesis by (simp add: slot_of_def)
qed

lemma pow2_pos: "pow2_size sz \<Longrightarrow> 0 < sz"
  by (auto simp: pow2_size_def)

lemma slot_of_less: "pow2_size sz \<Longrightarrow> slot_of sz n < sz"
  using pow2_pos [of sz] by (simp add: slot_of_mod nat_less_iff)

lemma slot_of_round: "pow2_size sz \<Longrightarrow> slot_of sz (n - int sz) = slot_of sz n"
  by (simp add: slot_of_mod)

text \<open>Within one lap two sequence numbers share a slot only when they are equal.\<close>

lemma slot_of_inj:
  assumes "pow2_size sz" "slot_of sz m = slot_of sz n"
    "I - int sz < m" "m \<le> I" "I - int sz < n" "n \<le> I"
  shows "m = n"
proof -
  have "0 < int sz" using pow2_pos [OF assms(1)] by simp
  then have "m mod int sz = n mod int sz"
    using assms(2) by (simp add: slot_of_mod [OF assms(1)] eq_nat_nat_iff)
  then have "int sz dvd m - n" by (simp add: mod_eq_dvd_iff)
  moreover have "\<bar>m - n\<bar> < int sz" using assms(3-6) by linarith
  ultimately show ?thesis using dvd_imp_le_int [of "m - n" "int sz"] by force
qed

section \<open>The invariant\<close>

type_synonym holder = "nat \<Rightarrow> int option"

definition unique_holder :: "holder \<Rightarrow> bool" where
  "unique_holder h \<longleftrightarrow> (\<forall>t u n. h t = Some n \<longrightarrow> h u = Some n \<longrightarrow> t = u)"

definition held :: "holder \<Rightarrow> int \<Rightarrow> bool" where
  "held h n \<longleftrightarrow> (\<exists>t. h t = Some n)"

text \<open>A slot of the last lap is marked free exactly while its producer has not published, or
  after its consumer is done.\<close>

definition ring_inv :: "nat \<Rightarrow> int \<Rightarrow> int \<Rightarrow> (nat \<Rightarrow> bool) \<Rightarrow> holder \<Rightarrow> holder \<Rightarrow> bool" where
  "ring_inv sz I Out F hp hg \<longleftrightarrow>
     pow2_size sz \<and> - 1 \<le> Out \<and> Out \<le> I \<and> I \<le> Out + int sz \<and>
     unique_holder hp \<and> unique_holder hg \<and>
     (\<forall>n. held hp n \<longrightarrow> Out < n \<and> n \<le> I) \<and>
     (\<forall>n. held hg n \<longrightarrow> 0 \<le> n \<and> I - int sz < n \<and> n \<le> Out) \<and>
     (\<forall>n. I - int sz < n \<and> n \<le> I \<longrightarrow>
        F (slot_of sz n) = (if Out < n then held hp n else \<not> held hg n))"

lemma ring_invD:
  assumes "ring_inv sz I Out F hp hg"
  shows "pow2_size sz" "- 1 \<le> Out" "Out \<le> I" "I \<le> Out + int sz"
    "unique_holder hp" "unique_holder hg"
    "\<And>n. held hp n \<Longrightarrow> Out < n \<and> n \<le> I"
    "\<And>n. held hg n \<Longrightarrow> 0 \<le> n \<and> I - int sz < n \<and> n \<le> Out"
    "\<And>n. I - int sz < n \<Longrightarrow> n \<le> I \<Longrightarrow>
        F (slot_of sz n) = (if Out < n then held hp n else \<not> held hg n)"
  using assms by (simp_all add: ring_inv_def)

lemma held_upd_Some:
  "h t = None \<Longrightarrow> held (h(t := Some n)) m \<longleftrightarrow> m = n \<or> held h m"
  by (auto simp: held_def fun_upd_def split: if_splits) (metis option.distinct(1))

lemma held_upd_None:
  "unique_holder h \<Longrightarrow> h t = Some n \<Longrightarrow> held (h(t := None)) m \<longleftrightarrow> m \<noteq> n \<and> held h m"
  by (auto simp: held_def unique_holder_def fun_upd_def split: if_splits) (metis option.inject)

lemma heldI: "h t = Some n \<Longrightarrow> held h n"
  by (auto simp: held_def)

lemma unique_upd_Some:
  "unique_holder h \<Longrightarrow> \<not> held h n \<Longrightarrow> unique_holder (h(t := Some n))"
  by (auto simp: unique_holder_def held_def)

lemma unique_upd_None: "unique_holder h \<Longrightarrow> unique_holder (h(t := None))"
  by (auto simp: unique_holder_def)

lemma ring_inv_start:
  assumes "pow2_size sz"
  shows "ring_inv sz (- 1) (- 1) (\<lambda>_. True) (\<lambda>_. None) (\<lambda>_. None)"
  using pow2_pos [OF assms] assms by (auto simp: ring_inv_def unique_holder_def held_def)

text \<open>The slot a producer is about to claim belongs to the sequence number one lap back.\<close>

lemma next_slot:
  assumes "ring_inv sz I Out F hp hg" "I + 1 - int sz \<le> Out"
  shows "F (slot_of sz (I + 1)) \<longleftrightarrow> \<not> held hg (I + 1 - int sz)"
proof -
  note d = ring_invD [OF assms(1)]
  have "F (slot_of sz (I + 1 - int sz)) = (\<not> held hg (I + 1 - int sz))"
    using d(9) [of "I + 1 - int sz"] assms(2) pow2_pos [OF d(1)] by simp
  then show ?thesis by (simp only: slot_of_round [OF d(1)])
qed

section \<open>The four changes of ownership\<close>

text \<open>A producer's compare-and-swap of \<open>in_\<close>.\<close>

lemma ring_claim_put:
  assumes inv: "ring_inv sz I Out F hp hg" and t: "hp t = None"
    and lap: "I + 1 - int sz \<le> Out" and free: "F (slot_of sz (I + 1))"
  shows "ring_inv sz (I + 1) Out F (hp(t := Some (I + 1))) hg"
proof -
  note d = ring_invD [OF inv]
  have ng: "\<not> held hg (I + 1 - int sz)" using next_slot [OF inv lap] free by simp
  have np: "\<not> held hp (I + 1)" using d(7) [of "I + 1"] by auto
  have h: "held (hp(t := Some (I + 1))) n \<longleftrightarrow> n = I + 1 \<or> held hp n" for n
    using t by (rule held_upd_Some [of _ t])
  have g: "0 \<le> n \<and> I + 1 - int sz < n \<and> n \<le> Out" if "held hg n" for n
    using d(8) [OF that] ng that by (cases "n = I + 1 - int sz") auto
  show ?thesis
    unfolding ring_inv_def
  proof (intro conjI allI impI)
    fix n assume n: "I + 1 - int sz < n \<and> n \<le> I + 1"
    show "F (slot_of sz n) = (if Out < n then held (hp(t := Some (I + 1))) n else \<not> held hg n)"
    proof (cases "n = I + 1")
      case True
      then show ?thesis using free d(3) h by simp
    next
      case False
      then show ?thesis using d(9) [of n] n h by simp
    qed
  qed (use d lap g in \<open>auto simp: h intro!: unique_upd_Some [OF d(5) np] dest: d(7)\<close>)
qed

text \<open>A producer's store of the flag in \<open>publish\<close>.\<close>

lemma ring_publish:
  assumes inv: "ring_inv sz I Out F hp hg" and t: "hp t = Some n"
  shows "ring_inv sz I Out (F(slot_of sz n := False)) (hp(t := None)) hg"
proof -
  note d = ring_invD [OF inv]
  have n: "Out < n" "n \<le> I" using d(7) [OF heldI [of hp t n, OF t]] by auto
  have h: "held (hp(t := None)) m \<longleftrightarrow> m \<noteq> n \<and> held hp m" for m
    using d(5) t by (rule held_upd_None [of _ t])
  show ?thesis
    unfolding ring_inv_def
  proof (intro conjI allI impI)
    fix m assume m: "I - int sz < m \<and> m \<le> I"
    show "(F(slot_of sz n := False)) (slot_of sz m) =
        (if Out < m then held (hp(t := None)) m else \<not> held hg m)"
    proof (cases "slot_of sz m = slot_of sz n")
      case True
      then have "m = n" using slot_of_inj [OF d(1) True, of I] m n d(4) by simp
      then show ?thesis using n h by simp
    next
      case False
      then have "m \<noteq> n" by auto
      then show ?thesis using False d(9) [of m] m h by simp
    qed
  qed (use d in \<open>auto simp: h intro!: unique_upd_None dest: d(7)\<close>)
qed

text \<open>A consumer's compare-and-swap of \<open>out_\<close>.\<close>

lemma ring_claim_get:
  assumes inv: "ring_inv sz I Out F hp hg" and t: "hg t = None"
    and lap: "Out + 1 \<le> I" and full: "\<not> F (slot_of sz (Out + 1))"
  shows "ring_inv sz I (Out + 1) F hp (hg(t := Some (Out + 1)))"
proof -
  note d = ring_invD [OF inv]
  have np: "\<not> held hp (Out + 1)" using d(9) [of "Out + 1"] full lap d(4) by auto
  have ng: "\<not> held hg (Out + 1)" using d(8) [of "Out + 1"] by auto
  have h: "held (hg(t := Some (Out + 1))) n \<longleftrightarrow> n = Out + 1 \<or> held hg n" for n
    using t by (rule held_upd_Some [of _ t])
  have p: "Out + 1 < n \<and> n \<le> I" if "held hp n" for n
    using d(7) [OF that] np that by (cases "n = Out + 1") auto
  show ?thesis
    unfolding ring_inv_def
  proof (intro conjI allI impI)
    fix n assume n: "I - int sz < n \<and> n \<le> I"
    show "F (slot_of sz n) =
        (if Out + 1 < n then held hp n else \<not> held (hg(t := Some (Out + 1))) n)"
    proof (cases "n = Out + 1")
      case True
      then show ?thesis using full h by simp
    next
      case False
      then have "Out + 1 < n \<longleftrightarrow> Out < n" by linarith
      then show ?thesis using d(9) [of n] n False h by simp
    qed
  qed (use d lap p in \<open>auto simp: h intro!: unique_upd_Some [OF d(6) ng] dest: d(8)\<close>)
qed

text \<open>A consumer's store of the flag in \<open>consumer_done\<close>.\<close>

lemma ring_done:
  assumes inv: "ring_inv sz I Out F hp hg" and t: "hg t = Some n"
  shows "ring_inv sz I Out (F(slot_of sz n := True)) hp (hg(t := None))"
proof -
  note d = ring_invD [OF inv]
  have n: "I - int sz < n" "n \<le> Out" using d(8) [OF heldI [of hg t n, OF t]] by auto
  have h: "held (hg(t := None)) m \<longleftrightarrow> m \<noteq> n \<and> held hg m" for m
    using d(6) t by (rule held_upd_None [of _ t])
  show ?thesis
    unfolding ring_inv_def
  proof (intro conjI allI impI)
    fix m assume m: "I - int sz < m \<and> m \<le> I"
    show "(F(slot_of sz n := True)) (slot_of sz m) =
        (if Out < m then held hp m else \<not> held (hg(t := None)) m)"
    proof (cases "slot_of sz m = slot_of sz n")
      case True
      then have "m = n" using slot_of_inj [OF d(1) True, of I] m n d(3) by simp
      then show ?thesis using n h by simp
    next
      case False
      then have "m \<noteq> n" by auto
      then show ?thesis using False d(9) [of m] m h by simp
    qed
  qed (use d in \<open>auto simp: h intro!: unique_upd_None dest: d(8)\<close>)
qed

end
