(* ===== verification/Conc_Buf.thy ===== *)
theory Conc_Buf
  imports Ring_Core Circ_Buf
begin

text \<open>
  The many-to-many ring of \<open>circbuf.h\<close> with the wait strategies of \<open>wait_strategy.h\<close>, as a
  transition system whose steps are the single accesses of the code to shared memory. A thread
  is at a program counter that holds its local variables; any thread may take the next step.
  Accesses are sequentially consistent here (the code relies on its fences and on x86 for that)
  and sequence numbers are unbounded (\<open>long long\<close> in the code: \<open>2 ^ 63\<close> elements would have to
  pass). A weak compare-and-swap may fail spuriously and a clock may run out: the boolean of a
  step decides.
\<close>

section \<open>State\<close>

datatype ProductionStrategy = SINGLE_THREAD | MUTIL_THREADS

datatype WaitStrategy =
  YIELD_SLEEP_WAIT_STRATEGY | BLOCK_WAIT_STRATEGY | TIMEOUT_WAIT_STRATEGY | NOBLOCK_WAIT_STRATEGY

record ring_cfg =
  csize :: nat
  production :: ProductionStrategy
  wait_strategy :: WaitStrategy

text \<open>The program counters. A producer runs \<open>take\<close> or \<open>poll\<close> (\<open>Taking\<close>, with the value it will
  put and \<open>is_block\<close>), fills the object it was given and publishes it (\<open>Putting\<close>), and wakes
  sleeping consumers (\<open>Signalling\<close>). A consumer is in \<open>wait_for\<close> of the given strategy with its
  spin counter (\<open>Waiting\<close>), then moves the object out and calls \<open>consumer_done\<close> (\<open>Getting\<close>).\<close>

datatype take_pc =
  PLoad | PChkOut int | PChkFree int | PUpdLoad int | PUpdStore int int | PClaim int

datatype put_pc = PAssert int | PFill int | PPub int | PSet int

datatype signal_pc = PSignal | PLock | PNotify | PUnlock

datatype block_pc =
  CLock | CEmptyIn2 | CEmptyOut2 int | CNeed | CSleep | CAsleep | CUnlock

datatype wait_pc =
    CLoad | CChkIn int | CChkFree int | CUpdLoad | CUpdStore int | CWait | CClaim int
  | CEmptyIn | CEmptyOut int | CBlock block_pc

datatype get_pc = CMove int | CDone int | CFree int

datatype 'a pc =
    Idle
  | Taking 'a bool take_pc | Putting 'a put_pc | Signalling signal_pc
  | Waiting WaitStrategy nat wait_pc | Getting get_pc

record 'a circ =
  in_seq :: int
  out_seq :: int
  single_in :: int
  cache_out :: int
  cache_in :: int
  isFree :: "nat \<Rightarrow> bool"
  task :: "nat \<Rightarrow> 'a"
  need_notify :: bool
  mtx :: "nat option"
  sleeping :: "nat set"
  pcs :: "nat \<Rightarrow> 'a pc"

text \<open>What the calls return, in the order in which it happens.\<close>

datatype 'a event = Published int 'a | Refused | Got int 'a | Empty | TimedOut

datatype 'a choice = StartPut 'a bool | StartGet bool | Go bool

text \<open>The constructor repeats the rounding of \<open>simple_circbuf.h\<close>.\<close>

definition CircBuf_size :: "ull \<Rightarrow> ull" where
  "CircBuf_size sz =
     (let sz = (if \<not> is_power_of_2 sz then roundup_pow_of_two sz else sz)
      in if 0 = sz then 1024 else if sz < 2 then 2 else sz)"

definition CircBuf_cfg :: "ull \<Rightarrow> ProductionStrategy \<Rightarrow> WaitStrategy \<Rightarrow> ring_cfg" where
  "CircBuf_cfg sz ps ws =
     \<lparr>csize = unat (CircBuf_size sz), production = ps, wait_strategy = ws\<rparr>"

definition CircBuf :: "'a \<Rightarrow> 'a circ" where
  "CircBuf dflt =
     \<lparr>in_seq = - 1, out_seq = - 1, single_in = - 1, cache_out = - 1, cache_in = - 1,
      isFree = (\<lambda>_. True), task = (\<lambda>_. dflt), need_notify = False, mtx = None, sleeping = {},
      pcs = (\<lambda>_. Idle)\<rparr>"

section \<open>Steps\<close>

definition goto :: "nat \<Rightarrow> 'a pc \<Rightarrow> 'a circ \<Rightarrow> 'a circ" where
  "goto t p s = s\<lparr>pcs := (pcs s)(t := p)\<rparr>"

definition is_free :: "ring_cfg \<Rightarrow> int \<Rightarrow> 'a circ \<Rightarrow> bool" where
  "is_free cfg n s = isFree s (slot_of (csize cfg) n)"

text \<open>The counter that producers advance: \<open>in_\<close>, or \<open>single_in_\<close> with a single producer.\<close>

definition get_in_seq :: "ring_cfg \<Rightarrow> 'a circ \<Rightarrow> int" where
  "get_in_seq cfg s = (case production cfg of SINGLE_THREAD \<Rightarrow> single_in s | MUTIL_THREADS \<Rightarrow> in_seq s)"

definition set_in_seq :: "ring_cfg \<Rightarrow> int \<Rightarrow> 'a circ \<Rightarrow> 'a circ" where
  "set_in_seq cfg n s =
     (case production cfg of SINGLE_THREAD \<Rightarrow> s\<lparr>single_in := n\<rparr> | MUTIL_THREADS \<Rightarrow> s\<lparr>in_seq := n\<rparr>)"

text \<open>The compare-and-swap of \<open>mutil_producer_next\<close> and its loop (\<open>spurious\<close> fails a weak one),
  or the plain store of \<open>single_producer_next\<close>, which has no assert after it.\<close>

definition claim_next :: "ring_cfg \<Rightarrow> nat \<Rightarrow> bool \<Rightarrow> 'a \<Rightarrow> bool \<Rightarrow> int \<Rightarrow> 'a circ \<Rightarrow> 'a circ" where
  "claim_next cfg t spurious v blk n s =
     (case production cfg of
        SINGLE_THREAD \<Rightarrow> goto t (Putting v (PFill n)) (set_in_seq cfg n s)
      | MUTIL_THREADS \<Rightarrow>
          if in_seq s = n - 1 \<and> \<not> spurious then goto t (Putting v (PAssert n)) (set_in_seq cfg n s)
          else goto t (Taking v blk PLoad) s)"

text \<open>\<open>single_producer_next\<close> and \<open>mutil_producer_next\<close>: they differ in the counter, in the claim,
  and in where the loop starts again.\<close>

primrec take_step ::
  "ring_cfg \<Rightarrow> nat \<Rightarrow> bool \<Rightarrow> 'a \<Rightarrow> bool \<Rightarrow> take_pc \<Rightarrow> 'a circ \<Rightarrow> 'a circ \<times> 'a event list" where
  "take_step cfg t b v blk PLoad s = (goto t (Taking v blk (PChkOut (get_in_seq cfg s + 1))) s, [])"
| "take_step cfg t b v blk (PChkOut n) s =
     (goto t (Taking v blk (if n - int (csize cfg) > cache_out s then PUpdLoad n else PChkFree n)) s, [])"
| "take_step cfg t b v blk (PChkFree n) s =
     (goto t (Taking v blk (if \<not> is_free cfg n s then PUpdLoad n else PClaim n)) s, [])"
| "take_step cfg t b v blk (PUpdLoad n) s = (goto t (Taking v blk (PUpdStore n (out_seq s))) s, [])"
| "take_step cfg t b v blk (PUpdStore n out) s =
     (let s = s\<lparr>cache_out := out\<rparr>
      in if \<not> blk then (goto t Idle s, [Refused])
         else (goto t (Taking v blk (case production cfg of SINGLE_THREAD \<Rightarrow> PChkOut n
                                                          | MUTIL_THREADS \<Rightarrow> PLoad)) s, []))"
| "take_step cfg t b v blk (PClaim n) s = (claim_next cfg t b v blk n s, [])"

text \<open>The assert after the claim, the client's write through \<open>operator[]\<close>, and \<open>publish\<close>.\<close>

primrec put_step ::
  "ring_cfg \<Rightarrow> nat \<Rightarrow> 'a \<Rightarrow> put_pc \<Rightarrow> 'a circ \<Rightarrow> ('a circ \<times> 'a event list) res" where
  "put_step cfg t v (PAssert n) s =
     (if is_free cfg n s then Inr (goto t (Putting v (PFill n)) s, []) else Inl AssertFail)"
| "put_step cfg t v (PFill n) s =
     Inr (goto t (Putting v (PPub n)) (s\<lparr>task := (task s)(slot_of (csize cfg) n := v)\<rparr>), [])"
| "put_step cfg t v (PPub n) s =
     (if is_free cfg n s then Inr (goto t (Putting v (PSet n)) s, []) else Inl AssertFail)"
| "put_step cfg t v (PSet n) s =
     Inr (goto t (case wait_strategy cfg of BLOCK_WAIT_STRATEGY \<Rightarrow> Signalling PSignal | _ \<Rightarrow> Idle)
            (s\<lparr>isFree := (isFree s)(slot_of (csize cfg) n := False)\<rparr>), [Published n v])"

text \<open>\<open>signal_when_blocking\<close> of the blocking strategy.\<close>

primrec signal_step :: "nat \<Rightarrow> signal_pc \<Rightarrow> 'a circ \<Rightarrow> 'a circ" where
  "signal_step t PSignal s =
     goto t (if need_notify s then Signalling PLock else Idle) (s\<lparr>need_notify := False\<rparr>)"
| "signal_step t PLock s =
     (case mtx s of None \<Rightarrow> goto t (Signalling PNotify) (s\<lparr>mtx := Some t\<rparr>) | Some _ \<Rightarrow> s)"
| "signal_step t PNotify s = goto t (Signalling PUnlock) (s\<lparr>sleeping := {}\<rparr>)"
| "signal_step t PUnlock s = goto t Idle (s\<lparr>mtx := None\<rparr>)"

text \<open>What a strategy does after it has refreshed \<open>cache_in_\<close>: spin, yield or sleep and look
  again; the same until the counter is used up and the time is over (\<open>late\<close> is the clock); or
  test the ring for emptiness first.\<close>

definition yield_sleep_wait :: "nat \<Rightarrow> WaitStrategy \<Rightarrow> nat \<Rightarrow> 'a circ \<Rightarrow> 'a circ \<times> 'a event list" where
  "yield_sleep_wait t w k s = (goto t (Waiting w (k - 1) CLoad) s, [])"

definition timeout_wait ::
  "nat \<Rightarrow> bool \<Rightarrow> WaitStrategy \<Rightarrow> nat \<Rightarrow> 'a circ \<Rightarrow> 'a circ \<times> 'a event list" where
  "timeout_wait t late w k s =
     (if k - 1 = 0 \<and> late then (goto t Idle s, [TimedOut])
      else (goto t (Waiting w (k - 1) CLoad) s, []))"

definition after_update ::
  "nat \<Rightarrow> bool \<Rightarrow> WaitStrategy \<Rightarrow> nat \<Rightarrow> 'a circ \<Rightarrow> 'a circ \<times> 'a event list" where
  "after_update t late w k s =
     (case w of
        YIELD_SLEEP_WAIT_STRATEGY \<Rightarrow> yield_sleep_wait t w k s
      | TIMEOUT_WAIT_STRATEGY \<Rightarrow> timeout_wait t late w k s
      | _ \<Rightarrow> (goto t (Waiting w k CEmptyIn) s, []))"

lemmas after_update_defs = after_update_def yield_sleep_wait_def timeout_wait_def

text \<open>The locked part of the blocking strategy's \<open>apply_wait_method\<close>.\<close>

primrec block_step :: "ring_cfg \<Rightarrow> nat \<Rightarrow> WaitStrategy \<Rightarrow> nat \<Rightarrow> block_pc \<Rightarrow> 'a circ \<Rightarrow> 'a circ" where
  "block_step cfg t w k CLock s =
     (case mtx s of None \<Rightarrow> goto t (Waiting w k (CBlock CEmptyIn2)) (s\<lparr>mtx := Some t\<rparr>) | Some _ \<Rightarrow> s)"
| "block_step cfg t w k CEmptyIn2 s = goto t (Waiting w k (CBlock (CEmptyOut2 (get_in_seq cfg s)))) s"
| "block_step cfg t w k (CEmptyOut2 i) s =
     goto t (Waiting w k (CBlock (if i = out_seq s then CNeed else CUnlock))) s"
| "block_step cfg t w k CNeed s = goto t (Waiting w k (CBlock CSleep)) (s\<lparr>need_notify := True\<rparr>)"
| "block_step cfg t w k CSleep s =
     goto t (Waiting w k (CBlock CAsleep)) (s\<lparr>mtx := None, sleeping := insert t (sleeping s)\<rparr>)"
| "block_step cfg t w k CAsleep s =
     (if t \<in> sleeping s then s
      else (case mtx s of
              None \<Rightarrow> goto t (Waiting w k (CBlock CEmptyIn2)) (s\<lparr>mtx := Some t\<rparr>)
            | Some _ \<Rightarrow> s))"
| "block_step cfg t w k CUnlock s = goto t (Waiting w k CLoad) (s\<lparr>mtx := None\<rparr>)"

text \<open>\<open>wait_for\<close>: the strategies share the loop; \<open>b\<close> is the clock in \<open>CWait\<close> and the spurious
  failure in \<open>CClaim\<close>.\<close>

primrec wait_step ::
  "ring_cfg \<Rightarrow> nat \<Rightarrow> bool \<Rightarrow> WaitStrategy \<Rightarrow> nat \<Rightarrow> wait_pc \<Rightarrow> 'a circ \<Rightarrow> 'a circ \<times> 'a event list" where
  "wait_step cfg t b w k CLoad s = (goto t (Waiting w k (CChkIn (out_seq s + 1))) s, [])"
| "wait_step cfg t b w k (CChkIn n) s =
     (goto t (Waiting w k (if n > cache_in s then CUpdLoad else CChkFree n)) s, [])"
| "wait_step cfg t b w k (CChkFree n) s =
     (goto t (Waiting w k (if is_free cfg n s then CUpdLoad else CClaim n)) s, [])"
| "wait_step cfg t b w k CUpdLoad s = (goto t (Waiting w k (CUpdStore (get_in_seq cfg s))) s, [])"
| "wait_step cfg t b w k (CUpdStore i) s = (goto t (Waiting w k CWait) (s\<lparr>cache_in := i\<rparr>), [])"
| "wait_step cfg t b w k CWait s = after_update t b w k s"
| "wait_step cfg t b w k (CClaim n) s =
     (if out_seq s = n - 1 \<and> \<not> b then goto t (Getting (CMove n)) (s\<lparr>out_seq := n\<rparr>)
      else goto t (Waiting w k (CChkIn (out_seq s + 1))) s, [])"
| "wait_step cfg t b w k CEmptyIn s = (goto t (Waiting w k (CEmptyOut (get_in_seq cfg s))) s, [])"
| "wait_step cfg t b w k (CEmptyOut i) s =
     (if i \<noteq> out_seq s then (goto t (Waiting w k CLoad) s, [])
      else (case w of
              NOBLOCK_WAIT_STRATEGY \<Rightarrow> (goto t Idle s, [Empty])
            | _ \<Rightarrow> (goto t (Waiting w k (CBlock CLock)) s, [])))"
| "wait_step cfg t b w k (CBlock p) s = (block_step cfg t w k p s, [])"

text \<open>The rest of \<open>get_move\<close>, with \<open>consumer_done\<close>.\<close>

primrec get_step :: "ring_cfg \<Rightarrow> nat \<Rightarrow> get_pc \<Rightarrow> 'a circ \<Rightarrow> ('a circ \<times> 'a event list) res" where
  "get_step cfg t (CMove n) s =
     Inr (goto t (Getting (CDone n)) s, [Got n (task s (slot_of (csize cfg) n))])"
| "get_step cfg t (CDone n) s =
     (if is_free cfg n s then Inl AssertFail else Inr (goto t (Getting (CFree n)) s, []))"
| "get_step cfg t (CFree n) s =
     Inr (goto t Idle (s\<lparr>isFree := (isFree s)(slot_of (csize cfg) n := True)\<rparr>), [])"

primrec thread_step :: "ring_cfg \<Rightarrow> nat \<Rightarrow> bool \<Rightarrow> 'a pc \<Rightarrow> 'a circ \<Rightarrow> ('a circ \<times> 'a event list) res" where
  "thread_step cfg t b Idle s = Inr (s, [])"
| "thread_step cfg t b (Taking v blk p) s = Inr (take_step cfg t b v blk p s)"
| "thread_step cfg t b (Putting v p) s = put_step cfg t v p s"
| "thread_step cfg t b (Signalling p) s = Inr (signal_step t p s, [])"
| "thread_step cfg t b (Waiting w k p) s = Inr (wait_step cfg t b w k p s)"
| "thread_step cfg t b (Getting p) s = get_step cfg t p s"

text \<open>An idle thread starts a call; \<open>get_move_with_timeout\<close> uses the timeout strategy whatever
  the ring's own. Both spinning strategies try 200 times before they sleep.\<close>

definition spin_tries :: nat where "spin_tries = 200"

definition ring_step :: "ring_cfg \<Rightarrow> nat \<Rightarrow> 'a choice \<Rightarrow> 'a circ \<Rightarrow> ('a circ \<times> 'a event list) res" where
  "ring_step cfg t c s =
     (case c of
        Go b \<Rightarrow> thread_step cfg t b (pcs s t) s
      | StartPut v blk \<Rightarrow>
          Inr (case pcs s t of Idle \<Rightarrow> goto t (Taking v blk PLoad) s | _ \<Rightarrow> s, [])
      | StartGet timed \<Rightarrow>
          Inr (case pcs s t of
                 Idle \<Rightarrow> goto t (Waiting (if timed then TIMEOUT_WAIT_STRATEGY
                                            else wait_strategy cfg) spin_tries CLoad) s
               | _ \<Rightarrow> s, []))"

fun ring_run :: "ring_cfg \<Rightarrow> (nat \<times> 'a choice) list \<Rightarrow> 'a circ \<Rightarrow> ('a circ \<times> 'a event list) res" where
  "ring_run cfg [] s = Inr (s, [])"
| "ring_run cfg ((t, c) # cs) s =
     bind_res (ring_step cfg t c s) (\<lambda>(s, e).
     bind_res (ring_run cfg cs s) (\<lambda>(s, e'). Inr (s, e @ e')))"

interpretation ring_machine: machine "\<lambda>(t, c). ring_step cfg t c" "ring_run cfg" for cfg
  by unfold_locales (auto split: prod.splits)

section \<open>Sizes\<close>

text \<open>The constructor always ends with a power of two.\<close>

lemma CircBuf_size_eq: "CircBuf_size sz = set_buffer_size sz"
  by (simp add: CircBuf_size_def set_buffer_size_def)

lemma cfg_pow2: "pow2_size (csize (CircBuf_cfg sz ps ws))"
proof -
  have "is_power_of_2 (CircBuf_size sz)" using set_buffer_size_power by (simp add: CircBuf_size_eq)
  then show ?thesis
    by (auto simp: CircBuf_cfg_def pow2_size_def is_power_of_2_iff unat_2_power)
qed

end
