(* ===== verification/Conc_Inv.thy ===== *)
theory Conc_Inv
  imports Conc_Buf
begin

text \<open>
  The control invariant of \<open>Conc_Buf\<close>: which sequence number each thread owns, what a thread may
  rely on between its checks and its compare-and-swap, and the proof that every step of the code
  keeps the ownership invariant of \<open>Ring_Core\<close> and passes its asserts.
\<close>

section \<open>The invariant of the shared counters and flags\<close>

text \<open>The sequence number a thread owns.\<close>

primrec put_seq :: "put_pc \<Rightarrow> int" where
  "put_seq (PAssert n) = n" | "put_seq (PFill n) = n" | "put_seq (PPub n) = n" | "put_seq (PSet n) = n"

primrec get_seq :: "get_pc \<Rightarrow> int" where
  "get_seq (CMove n) = n" | "get_seq (CDone n) = n" | "get_seq (CFree n) = n"

definition hold_put :: "'a pc \<Rightarrow> int option" where
  "hold_put p = (case p of Putting v q \<Rightarrow> Some (put_seq q) | _ \<Rightarrow> None)"

definition hold_get :: "'a pc \<Rightarrow> int option" where
  "hold_get p = (case p of Getting q \<Rightarrow> Some (get_seq q) | _ \<Rightarrow> None)"

lemma hold_simps [simp]:
  "hold_put Idle = None" "hold_put (Taking v blk q) = None" "hold_put (Putting v q') = Some (put_seq q')"
  "hold_put (Signalling q1) = None" "hold_put (Waiting w k q2) = None" "hold_put (Getting q3) = None"
  "hold_get Idle = None" "hold_get (Taking v blk q) = None" "hold_get (Putting v q') = None"
  "hold_get (Signalling q1) = None" "hold_get (Waiting w k q2) = None"
  "hold_get (Getting q3) = Some (get_seq q3)"
  by (simp_all add: hold_put_def hold_get_def)

text \<open>What a thread between its checks may rely on, and other threads cannot invalidate.\<close>

primrec take_know :: "nat \<Rightarrow> int \<Rightarrow> int \<Rightarrow> (nat \<Rightarrow> bool) \<Rightarrow> take_pc \<Rightarrow> bool" where
  "take_know sz I Out F PLoad = True"
| "take_know sz I Out F (PChkOut n) = (n \<le> I + 1)"
| "take_know sz I Out F (PChkFree n) = (n \<le> I + 1 \<and> n - int sz \<le> Out)"
| "take_know sz I Out F (PUpdLoad n) = (n \<le> I + 1)"
| "take_know sz I Out F (PUpdStore n out) = (n \<le> I + 1 \<and> out \<le> Out)"
| "take_know sz I Out F (PClaim n) =
     (n \<le> I + 1 \<and> n - int sz \<le> Out \<and> (n = I + 1 \<longrightarrow> F (slot_of sz n)))"

primrec take_next :: "take_pc \<Rightarrow> int option" where
  "take_next PLoad = None"
| "take_next (PChkOut n) = Some n" | "take_next (PChkFree n) = Some n" | "take_next (PUpdLoad n) = Some n"
| "take_next (PUpdStore n out) = Some n" | "take_next (PClaim n) = Some n"

primrec wait_know :: "nat \<Rightarrow> int \<Rightarrow> int \<Rightarrow> (nat \<Rightarrow> bool) \<Rightarrow> wait_pc \<Rightarrow> bool" where
  "wait_know sz I Out F CLoad = True"
| "wait_know sz I Out F (CChkIn n) = (n \<le> Out + 1)"
| "wait_know sz I Out F (CChkFree n) = (n \<le> Out + 1 \<and> n \<le> I)"
| "wait_know sz I Out F CUpdLoad = True"
| "wait_know sz I Out F (CUpdStore i) = (i \<le> I)"
| "wait_know sz I Out F CWait = True"
| "wait_know sz I Out F (CClaim n) =
     (n \<le> Out + 1 \<and> n \<le> I \<and> (n = Out + 1 \<longrightarrow> \<not> F (slot_of sz n)))"
| "wait_know sz I Out F CEmptyIn = True"
| "wait_know sz I Out F (CEmptyOut i) = True"
| "wait_know sz I Out F (CBlock q) = True"

text \<open>With a single producer, that producer's next number is exact.\<close>

definition pc_ok ::
  "ring_cfg \<Rightarrow> nat \<Rightarrow> int \<Rightarrow> int \<Rightarrow> (nat \<Rightarrow> bool) \<Rightarrow> nat \<Rightarrow> 'a pc \<Rightarrow> bool" where
  "pc_ok cfg p I Out F t pc \<longleftrightarrow>
     (case pc of
        Taking v blk q \<Rightarrow> take_know (csize cfg) I Out F q \<and>
          (production cfg = SINGLE_THREAD \<longrightarrow> t = p \<and> (\<forall>n. take_next q = Some n \<longrightarrow> n = I + 1))
      | Waiting w k q \<Rightarrow> wait_know (csize cfg) I Out F q
      | _ \<Rightarrow> True)"

lemma pc_ok_simps [simp]:
  "pc_ok cfg p I Out F t Idle"
  "pc_ok cfg p I Out F t (Putting v q')"
  "pc_ok cfg p I Out F t (Signalling q1)"
  "pc_ok cfg p I Out F t (Getting q3)"
  "pc_ok cfg p I Out F t (Taking v blk q) \<longleftrightarrow> take_know (csize cfg) I Out F q \<and>
     (production cfg = SINGLE_THREAD \<longrightarrow> t = p \<and> (\<forall>n. take_next q = Some n \<longrightarrow> n = I + 1))"
  "pc_ok cfg p I Out F t (Waiting w k q2) \<longleftrightarrow> wait_know (csize cfg) I Out F q2"
  by (simp_all add: pc_ok_def)

definition put_holder :: "'a circ \<Rightarrow> holder" where
  "put_holder s = (\<lambda>t. hold_put (pcs s t))"

definition get_holder :: "'a circ \<Rightarrow> holder" where
  "get_holder s = (\<lambda>t. hold_get (pcs s t))"

definition ctl_inv :: "ring_cfg \<Rightarrow> nat \<Rightarrow> 'a circ \<Rightarrow> bool" where
  "ctl_inv cfg p s \<longleftrightarrow>
     ring_inv (csize cfg) (get_in_seq cfg s) (out_seq s) (isFree s) (put_holder s) (get_holder s) \<and>
     cache_out s \<le> out_seq s \<and> cache_in s \<le> get_in_seq cfg s \<and>
     (\<forall>t. pc_ok cfg p (get_in_seq cfg s) (out_seq s) (isFree s) t (pcs s t))"

lemma ctl_invD:
  assumes "ctl_inv cfg p s"
  shows "ring_inv (csize cfg) (get_in_seq cfg s) (out_seq s) (isFree s) (put_holder s) (get_holder s)"
    "cache_out s \<le> out_seq s" "cache_in s \<le> get_in_seq cfg s"
    "pc_ok cfg p (get_in_seq cfg s) (out_seq s) (isFree s) t (pcs s t)"
  using assms by (simp_all add: ctl_inv_def)

lemma goto_simps [simp]:
  "in_seq (goto t q s) = in_seq s" "out_seq (goto t q s) = out_seq s"
  "single_in (goto t q s) = single_in s" "cache_out (goto t q s) = cache_out s"
  "cache_in (goto t q s) = cache_in s" "isFree (goto t q s) = isFree s" "task (goto t q s) = task s"
  "need_notify (goto t q s) = need_notify s" "mtx (goto t q s) = mtx s" "sleeping (goto t q s) = sleeping s"
  "pcs (goto t q s) = (pcs s)(t := q)"
  "get_in_seq cfg (goto t q s) = get_in_seq cfg s"
  "put_holder (goto t q s) = (put_holder s)(t := hold_put q)"
  "get_holder (goto t q s) = (get_holder s)(t := hold_get q)"
  by (auto simp: goto_def get_in_seq_def put_holder_def get_holder_def split: ProductionStrategy.splits)

lemma get_in_seq_upd [simp]:
  "get_in_seq cfg (s\<lparr>out_seq := o'\<rparr>) = get_in_seq cfg s"
  "get_in_seq cfg (s\<lparr>cache_out := o'\<rparr>) = get_in_seq cfg s"
  "get_in_seq cfg (s\<lparr>cache_in := o'\<rparr>) = get_in_seq cfg s"
  "get_in_seq cfg (s\<lparr>isFree := f\<rparr>) = get_in_seq cfg s"
  "get_in_seq cfg (s\<lparr>task := ta\<rparr>) = get_in_seq cfg s"
  "get_in_seq cfg (s\<lparr>need_notify := b\<rparr>) = get_in_seq cfg s"
  "get_in_seq cfg (s\<lparr>mtx := mo\<rparr>) = get_in_seq cfg s"
  "get_in_seq cfg (s\<lparr>sleeping := sl\<rparr>) = get_in_seq cfg s"
  "get_in_seq cfg (set_in_seq cfg n s) = n"
  by (simp_all add: get_in_seq_def set_in_seq_def split: ProductionStrategy.splits)

lemma set_in_seq_simps [simp]:
  "out_seq (set_in_seq cfg n s) = out_seq s" "isFree (set_in_seq cfg n s) = isFree s"
  "cache_out (set_in_seq cfg n s) = cache_out s" "cache_in (set_in_seq cfg n s) = cache_in s"
  "task (set_in_seq cfg n s) = task s" "pcs (set_in_seq cfg n s) = pcs s"
  by (simp_all add: set_in_seq_def split: ProductionStrategy.splits)

lemma holder_upd [simp]:
  "put_holder (s\<lparr>out_seq := o'\<rparr>) = put_holder s" "get_holder (s\<lparr>out_seq := o'\<rparr>) = get_holder s"
  "put_holder (s\<lparr>cache_out := o'\<rparr>) = put_holder s" "get_holder (s\<lparr>cache_out := o'\<rparr>) = get_holder s"
  "put_holder (s\<lparr>cache_in := o'\<rparr>) = put_holder s" "get_holder (s\<lparr>cache_in := o'\<rparr>) = get_holder s"
  "put_holder (s\<lparr>isFree := f\<rparr>) = put_holder s" "get_holder (s\<lparr>isFree := f\<rparr>) = get_holder s"
  "put_holder (s\<lparr>task := ta\<rparr>) = put_holder s" "get_holder (s\<lparr>task := ta\<rparr>) = get_holder s"
  "put_holder (s\<lparr>need_notify := b\<rparr>) = put_holder s" "get_holder (s\<lparr>need_notify := b\<rparr>) = get_holder s"
  "put_holder (s\<lparr>mtx := mo\<rparr>) = put_holder s" "get_holder (s\<lparr>mtx := mo\<rparr>) = get_holder s"
  "put_holder (s\<lparr>sleeping := sl\<rparr>) = put_holder s" "get_holder (s\<lparr>sleeping := sl\<rparr>) = get_holder s"
  "put_holder (set_in_seq cfg n s) = put_holder s" "get_holder (set_in_seq cfg n s) = get_holder s"
  by (simp_all add: put_holder_def get_holder_def)

text \<open>A step that changes neither counters nor flags nor what its thread owns.\<close>

lemma ctl_inv_quiet:
  assumes "ctl_inv cfg p s" "hold_put q = hold_put (pcs s t)" "hold_get q = hold_get (pcs s t)"
    "pc_ok cfg p (get_in_seq cfg s) (out_seq s) (isFree s) t q"
    "get_in_seq cfg s1 = get_in_seq cfg s" "out_seq s1 = out_seq s" "isFree s1 = isFree s"
    "pcs s1 = pcs s" "cache_out s1 \<le> out_seq s" "cache_in s1 \<le> get_in_seq cfg s"
  shows "ctl_inv cfg p (goto t q s1)"
proof -
  have "put_holder (goto t q s1) = put_holder s" "get_holder (goto t q s1) = get_holder s"
    using assms(2,3,8) by (auto simp: put_holder_def get_holder_def)
  then show ?thesis using assms by (simp add: ctl_inv_def del: goto_simps(13,14))
qed

text \<open>What the other threads know survives the four changes of ownership.\<close>

lemma pc_ok_claim_put:
  assumes "pc_ok cfg p I Out F u q" "production cfg = SINGLE_THREAD \<longrightarrow> u \<noteq> p"
  shows "pc_ok cfg p (I + 1) Out F u q"
proof (cases q)
  case (Taking v blk q')
  then show ?thesis using assms by (cases q') auto
next
  case (Waiting w k q')
  then show ?thesis using assms by (cases q') auto
qed simp_all

lemma pc_ok_publish:
  assumes "pc_ok cfg p I Out F u q" "pow2_size (csize cfg)" "Out < m" "m \<le> I" "I \<le> Out + int (csize cfg)"
  shows "pc_ok cfg p I Out (F(slot_of (csize cfg) m := False)) u q"
proof (cases q)
  case (Taking v blk q')
  have "slot_of (csize cfg) (I + 1) \<noteq> slot_of (csize cfg) m" if "I + 1 - int (csize cfg) \<le> Out"
  proof
    assume "slot_of (csize cfg) (I + 1) = slot_of (csize cfg) m"
    then have "slot_of (csize cfg) (I + 1 - int (csize cfg)) = slot_of (csize cfg) m"
      by (simp only: slot_of_round [OF assms(2)])
    from slot_of_inj [OF assms(2) this, of I] show False
      using that assms(3-5) pow2_pos [OF assms(2)] by simp
  qed
  then show ?thesis using assms(1) Taking by (cases q') auto
next
  case (Waiting w k q')
  then show ?thesis using assms by (cases q') auto
qed simp_all

lemma pc_ok_claim_get:
  assumes "pc_ok cfg p I Out F u q"
  shows "pc_ok cfg p I (Out + 1) F u q"
proof (cases q)
  case (Taking v blk q')
  then show ?thesis using assms by (cases q') auto
next
  case (Waiting w k q')
  then show ?thesis using assms by (cases q') auto
qed simp_all

lemma pc_ok_done:
  assumes "pc_ok cfg p I Out F u q" "pow2_size (csize cfg)" "I - int (csize cfg) < m" "m \<le> Out" "Out \<le> I"
    "I \<le> Out + int (csize cfg)"
  shows "pc_ok cfg p I Out (F(slot_of (csize cfg) m := True)) u q"
proof (cases q)
  case (Taking v blk q')
  then show ?thesis using assms by (cases q') auto
next
  case (Waiting w k q')
  have "slot_of (csize cfg) (Out + 1) \<noteq> slot_of (csize cfg) m" if "Out + 1 \<le> I"
    using slot_of_inj [OF assms(2), of "Out + 1" m I] that assms(3-6) by auto
  then show ?thesis using assms(1) Waiting by (cases q') auto
qed simp_all

section \<open>Every step keeps it\<close>

lemma ctl_claim_put:
  assumes inv: "ctl_inv cfg p s" and t: "pcs s t = Taking v blk (PClaim (get_in_seq cfg s + 1))"
    and q: "hold_put q = Some (get_in_seq cfg s + 1)" "hold_get q = None"
      "\<And>I. pc_ok cfg p I (out_seq s) (isFree s) t q"
  shows "ctl_inv cfg p (goto t q (set_in_seq cfg (get_in_seq cfg s + 1) s))"
proof -
  note d = ctl_invD [OF inv]
  have k: "get_in_seq cfg s + 1 - int (csize cfg) \<le> out_seq s"
    "isFree s (slot_of (csize cfg) (get_in_seq cfg s + 1))"
    "production cfg = SINGLE_THREAD \<longrightarrow> t = p"
    using d(4) [of t] t by auto
  have h: "put_holder s t = None" "get_holder s t = None"
    using t by (simp_all add: put_holder_def get_holder_def)
  have g: "(get_holder s)(t := None) = get_holder s" using h by (simp add: fun_upd_idem)
  have r: "ring_inv (csize cfg) (get_in_seq cfg s + 1) (out_seq s) (isFree s)
      ((put_holder s)(t := Some (get_in_seq cfg s + 1))) (get_holder s)"
    by (rule ring_claim_put [OF d(1) h(1) k(1,2)])
  have "pc_ok cfg p (get_in_seq cfg s + 1) (out_seq s) (isFree s) u (pcs s u)"
    if "u \<noteq> t" for u
  proof (cases "production cfg = SINGLE_THREAD \<longrightarrow> u \<noteq> p")
    case True
    then show ?thesis by (rule pc_ok_claim_put [OF d(4)])
  qed (use k(3) that in simp)
  then show ?thesis
    using r g q d(2,3) by (simp add: ctl_inv_def)
qed

lemma ctl_claim_get:
  assumes inv: "ctl_inv cfg p s" and t: "pcs s t = Waiting w k (CClaim (out_seq s + 1))"
  shows "ctl_inv cfg p (goto t (Getting (CMove (out_seq s + 1))) (s\<lparr>out_seq := out_seq s + 1\<rparr>))"
proof -
  note d = ctl_invD [OF inv]
  have kn: "out_seq s + 1 \<le> get_in_seq cfg s" "\<not> isFree s (slot_of (csize cfg) (out_seq s + 1))"
    using d(4) [of t] t by auto
  have h: "put_holder s t = None" "get_holder s t = None"
    using t by (simp_all add: put_holder_def get_holder_def)
  have g: "(put_holder s)(t := None) = put_holder s" using h by (simp add: fun_upd_idem)
  have r: "ring_inv (csize cfg) (get_in_seq cfg s) (out_seq s + 1) (isFree s)
      (put_holder s) ((get_holder s)(t := Some (out_seq s + 1)))"
    by (rule ring_claim_get [OF d(1) h(2) kn])
  then show ?thesis
    using g d(2,3) pc_ok_claim_get [OF d(4)] by (simp add: ctl_inv_def)
qed

lemma ctl_publish:
  assumes inv: "ctl_inv cfg p s" and t: "pcs s t = Putting v (PSet n)"
    and q: "hold_put q = None" "hold_get q = None" "\<And>F. pc_ok cfg p (get_in_seq cfg s) (out_seq s) F t q"
  shows "ctl_inv cfg p (goto t q (s\<lparr>isFree := (isFree s)(slot_of (csize cfg) n := False)\<rparr>))"
proof -
  note d = ctl_invD [OF inv]
  note rd = ring_invD [OF d(1)]
  have h: "put_holder s t = Some n" "get_holder s t = None"
    using t by (simp_all add: put_holder_def get_holder_def)
  have n: "out_seq s < n" "n \<le> get_in_seq cfg s" using rd(7) [OF heldI, of t n] h by auto
  have g: "(get_holder s)(t := None) = get_holder s" using h by (simp add: fun_upd_idem)
  have r: "ring_inv (csize cfg) (get_in_seq cfg s) (out_seq s)
      ((isFree s)(slot_of (csize cfg) n := False)) ((put_holder s)(t := None)) (get_holder s)"
    by (rule ring_publish [OF d(1) h(1)])
  then show ?thesis
    using g q d(2,3) pc_ok_publish [OF d(4) rd(1) n rd(4)] by (simp add: ctl_inv_def)
qed

lemma ctl_done:
  assumes inv: "ctl_inv cfg p s" and t: "pcs s t = Getting (CFree n)"
  shows "ctl_inv cfg p (goto t Idle (s\<lparr>isFree := (isFree s)(slot_of (csize cfg) n := True)\<rparr>))"
proof -
  note d = ctl_invD [OF inv]
  note rd = ring_invD [OF d(1)]
  have h: "get_holder s t = Some n" "put_holder s t = None"
    using t by (simp_all add: put_holder_def get_holder_def)
  have n: "get_in_seq cfg s - int (csize cfg) < n" "n \<le> out_seq s"
    using rd(8) [OF heldI, of t n] h by auto
  have g: "(put_holder s)(t := None) = put_holder s" using h by (simp add: fun_upd_idem)
  have r: "ring_inv (csize cfg) (get_in_seq cfg s) (out_seq s)
      ((isFree s)(slot_of (csize cfg) n := True)) (put_holder s) ((get_holder s)(t := None))"
    by (rule ring_done [OF d(1) h(1)])
  then show ?thesis
    using g d(2,3) pc_ok_done [OF d(4) rd(1) n rd(3,4)] by (simp add: ctl_inv_def)
qed

text \<open>The slot of a producer is still marked free, that of a consumer is not.\<close>

lemma putting_free:
  assumes "ctl_inv cfg p s" "pcs s t = Putting v q"
  shows "is_free cfg (put_seq q) s"
proof -
  note rd = ring_invD [OF ctl_invD(1) [OF assms(1)]]
  have "held (put_holder s) (put_seq q)"
    by (rule heldI [of _ t]) (simp add: put_holder_def assms(2))
  moreover from this have "out_seq s < put_seq q" "put_seq q \<le> get_in_seq cfg s" using rd(7) by auto
  ultimately show ?thesis using rd(4) rd(9) [of "put_seq q"] by (simp add: is_free_def)
qed

lemma getting_full:
  assumes "ctl_inv cfg p s" "pcs s t = Getting q"
  shows "\<not> is_free cfg (get_seq q) s"
proof -
  note rd = ring_invD [OF ctl_invD(1) [OF assms(1)]]
  have h: "held (get_holder s) (get_seq q)"
    by (rule heldI [of _ t]) (simp add: get_holder_def assms(2))
  then have "get_in_seq cfg s - int (csize cfg) < get_seq q" "get_seq q \<le> out_seq s" using rd(8) by auto
  with h show ?thesis using rd(3) rd(9) [of "get_seq q"] by (simp add: is_free_def)
qed

lemma take_step_inv:
  assumes inv: "ctl_inv cfg p s" and t: "pcs s t = Taking v blk q"
  shows "ctl_inv cfg p (fst (take_step cfg t b v blk q s))"
proof -
  note d = ctl_invD [OF inv]
  have k: "take_know (csize cfg) (get_in_seq cfg s) (out_seq s) (isFree s) q"
    "production cfg = SINGLE_THREAD \<longrightarrow> t = p \<and> (\<forall>n. take_next q = Some n \<longrightarrow> n = get_in_seq cfg s + 1)"
    using d(4) [of t] t by simp_all
  show ?thesis
  proof (cases q)
    case PLoad
    then show ?thesis using t k d(2,3) by (auto intro!: ctl_inv_quiet [OF inv])
  next
    case (PChkOut n)
    then show ?thesis using t k d(2,3) by (auto intro!: ctl_inv_quiet [OF inv])
  next
    case (PChkFree n)
    then show ?thesis using t k d(2,3) by (auto simp: is_free_def intro!: ctl_inv_quiet [OF inv])
  next
    case (PUpdLoad n)
    then show ?thesis using t k d(2,3) by (auto intro!: ctl_inv_quiet [OF inv])
  next
    case (PUpdStore n out)
    then show ?thesis using t k d(2,3)
      by (auto simp: Let_def split: ProductionStrategy.splits intro!: ctl_inv_quiet [OF inv])
  next
    case (PClaim n)
    show ?thesis
    proof (cases "production cfg = SINGLE_THREAD \<or> in_seq s = n - 1 \<and> \<not> b")
      case True
      then have n: "n = get_in_seq cfg s + 1"
        using k(2) PClaim by (cases "production cfg") (auto simp: get_in_seq_def)
      show ?thesis
        using True PClaim t ctl_claim_put [OF inv, of t v blk]
        by (auto simp: claim_next_def n split: ProductionStrategy.splits)
    next
      case False
      then have m: "production cfg = MUTIL_THREADS" by (cases "production cfg") auto
      then show ?thesis using False PClaim t d(2,3)
        by (auto simp: claim_next_def intro!: ctl_inv_quiet [OF inv])
    qed
  qed
qed

lemma put_step_inv:
  assumes inv: "ctl_inv cfg p s" and t: "pcs s t = Putting v q"
  shows "\<exists>s' e. put_step cfg t v q s = Inr (s', e) \<and> ctl_inv cfg p s'"
proof -
  note d = ctl_invD [OF inv]
  note f = putting_free [OF inv t]
  show ?thesis
  proof (cases q)
    case (PAssert n)
    then show ?thesis using t f d(2,3) by (auto intro!: ctl_inv_quiet [OF inv])
  next
    case (PFill n)
    then show ?thesis using t d(2,3) by (auto intro!: ctl_inv_quiet [OF inv])
  next
    case (PPub n)
    then show ?thesis using t f d(2,3) by (auto intro!: ctl_inv_quiet [OF inv])
  next
    case (PSet n)
    then show ?thesis using ctl_publish [OF inv, of t v n] t by (auto split: WaitStrategy.splits)
  qed
qed

lemma signal_step_inv:
  assumes inv: "ctl_inv cfg p s" and t: "pcs s t = Signalling q"
  shows "ctl_inv cfg p (signal_step t q s)"
  using ctl_invD(2,3) [OF inv] t inv
  by (cases q) (auto intro!: ctl_inv_quiet [OF inv] split: option.splits)

lemma block_step_inv:
  assumes inv: "ctl_inv cfg p s" and t: "pcs s t = Waiting w k (CBlock q)"
  shows "ctl_inv cfg p (block_step cfg t w k q s)"
  using ctl_invD(2,3) [OF inv] t inv
  by (cases q) (auto intro!: ctl_inv_quiet [OF inv] split: option.splits)

lemma wait_step_inv:
  assumes inv: "ctl_inv cfg p s" and t: "pcs s t = Waiting w k q"
  shows "ctl_inv cfg p (fst (wait_step cfg t b w k q s))"
proof -
  note d = ctl_invD [OF inv]
  have kn: "wait_know (csize cfg) (get_in_seq cfg s) (out_seq s) (isFree s) q"
    using d(4) [of t] t by simp
  show ?thesis
  proof (cases q)
    case CWait
    then show ?thesis using t d(2,3)
      by (auto simp: after_update_defs split: WaitStrategy.splits intro!: ctl_inv_quiet [OF inv])
  next
    case (CClaim n)
    show ?thesis
    proof (cases "out_seq s = n - 1 \<and> \<not> b")
      case True
      then have "n = out_seq s + 1" by simp
      then show ?thesis using True CClaim t ctl_claim_get [OF inv, of t w k] by auto
    next
      case False
      then show ?thesis using CClaim t d(2,3) by (auto intro!: ctl_inv_quiet [OF inv])
    qed
  next
    case (CBlock q')
    then show ?thesis using block_step_inv [OF inv] t by simp
  next
    case (CEmptyOut i)
    then show ?thesis using t d(2,3)
      by (auto split: WaitStrategy.splits intro!: ctl_inv_quiet [OF inv])
  qed (use t kn d(2,3) in \<open>auto simp: is_free_def intro!: ctl_inv_quiet [OF inv]\<close>)
qed

lemma get_step_inv:
  assumes inv: "ctl_inv cfg p s" and t: "pcs s t = Getting q"
  shows "\<exists>s' e. get_step cfg t q s = Inr (s', e) \<and> ctl_inv cfg p s'"
proof -
  note d = ctl_invD [OF inv]
  note f = getting_full [OF inv t]
  show ?thesis
  proof (cases q)
    case (CMove n)
    then show ?thesis using t d(2,3) by (auto intro!: ctl_inv_quiet [OF inv])
  next
    case (CDone n)
    then show ?thesis using t f d(2,3) by (auto intro!: ctl_inv_quiet [OF inv])
  next
    case (CFree n)
    then show ?thesis using ctl_done [OF inv, of t n] t by auto
  qed
qed

text \<open>A schedule respects the production strategy when only thread \<open>p\<close> puts in single-producer
  mode.\<close>

definition choice_ok :: "ring_cfg \<Rightarrow> nat \<Rightarrow> nat \<Rightarrow> 'a choice \<Rightarrow> bool" where
  "choice_ok cfg p t c \<longleftrightarrow>
     (case c of StartPut v blk \<Rightarrow> production cfg = SINGLE_THREAD \<longrightarrow> t = p | _ \<Rightarrow> True)"

lemma ring_step_inv:
  assumes inv: "ctl_inv cfg p s" and c: "choice_ok cfg p t c"
  shows "\<exists>s' e. ring_step cfg t c s = Inr (s', e) \<and> ctl_inv cfg p s'"
proof (cases c)
  case (Go b)
  show ?thesis
  proof (cases "pcs s t")
    case (Taking v blk q)
    then show ?thesis using take_step_inv [OF inv, of t v blk q b] Go
      by (cases "take_step cfg t b v blk q s") (auto simp: ring_step_def)
  next
    case (Waiting w k q)
    then show ?thesis using wait_step_inv [OF inv, of t w k q b] Go
      by (cases "wait_step cfg t b w k q s") (auto simp: ring_step_def)
  qed (use Go inv put_step_inv [OF inv] get_step_inv [OF inv] signal_step_inv [OF inv]
      in \<open>auto simp: ring_step_def\<close>)
next
  case (StartPut v blk)
  then show ?thesis
    using inv c ctl_invD(2,3) [OF inv]
    by (auto simp: ring_step_def choice_ok_def split: pc.splits intro!: ctl_inv_quiet [OF inv])
next
  case (StartGet timed)
  then show ?thesis
    using inv ctl_invD(2,3) [OF inv]
    by (auto simp: ring_step_def split: pc.splits intro!: ctl_inv_quiet [OF inv])
qed

lemma ctl_inv_start:
  assumes "pow2_size (csize cfg)"
  shows "ctl_inv cfg p (CircBuf dflt)"
  using ring_inv_start [OF assms]
  by (simp add: ctl_inv_def CircBuf_def get_in_seq_def put_holder_def get_holder_def
      split: ProductionStrategy.splits)

end
