(* ===== verification/Conc_Fifo.thy ===== *)
theory Conc_Fifo
  imports Conc_Inv
begin

text \<open>
  What the many-to-many ring does with the values: the history of a run records each published
  and each consumed element with its sequence number, and the invariant relates the history to
  the slots. The properties of the ring are at the end.
\<close>

section \<open>Histories\<close>

definition published :: "'a event list \<Rightarrow> (int \<times> 'a) list" where
  "published E = concat (map (\<lambda>e. case e of Published n v \<Rightarrow> [(n, v)] | _ \<Rightarrow> []) E)"

definition got :: "'a event list \<Rightarrow> (int \<times> 'a) list" where
  "got E = concat (map (\<lambda>e. case e of Got n v \<Rightarrow> [(n, v)] | _ \<Rightarrow> []) E)"

lemma published_simps [simp]:
  "published [] = []" "published (E @ E') = published E @ published E'"
  "published (Published n v # E) = (n, v) # published E" "published (Refused # E) = published E"
  "published (Got n v # E) = published E" "published (Empty # E) = published E"
  "published (TimedOut # E) = published E"
  by (simp_all add: published_def)

lemma got_simps [simp]:
  "got [] = []" "got (E @ E') = got E @ got E'"
  "got (Got n v # E) = (n, v) # got E" "got (Refused # E) = got E"
  "got (Published n v # E) = got E" "got (Empty # E) = got E"
  "got (TimedOut # E) = got E"
  by (simp_all add: got_def)

section \<open>The value invariant\<close>

text \<open>\<open>P\<close> and \<open>G\<close> are the published and the consumed elements, \<open>T\<close> the slots, \<open>mv n\<close> that some
  consumer has claimed \<open>n\<close> and not yet moved its element out.\<close>

definition val_inv ::
  "nat \<Rightarrow> int \<Rightarrow> int \<Rightarrow> (nat \<Rightarrow> 'a) \<Rightarrow> holder \<Rightarrow> (int \<Rightarrow> bool) \<Rightarrow>
   (int \<times> 'a) list \<Rightarrow> (int \<times> 'a) list \<Rightarrow> bool" where
  "val_inv sz I Out T hp mv P G \<longleftrightarrow>
     distinct (map fst P) \<and> distinct (map fst G) \<and>
     (\<forall>n. n \<in> fst ` set P \<longleftrightarrow> 0 \<le> n \<and> n \<le> I \<and> \<not> held hp n) \<and>
     (\<forall>n. n \<in> fst ` set G \<longleftrightarrow> 0 \<le> n \<and> n \<le> Out \<and> \<not> mv n) \<and>
     set G \<subseteq> set P \<and>
     (\<forall>n. 0 \<le> n \<and> I - int sz < n \<and> n \<le> I \<and> \<not> held hp n \<and> (Out < n \<or> mv n) \<longrightarrow>
        (n, T (slot_of sz n)) \<in> set P)"

lemma val_invD:
  assumes "val_inv sz I Out T hp mv P G"
  shows "distinct (map fst P)" "distinct (map fst G)"
    "\<And>n. n \<in> fst ` set P \<longleftrightarrow> 0 \<le> n \<and> n \<le> I \<and> \<not> held hp n"
    "\<And>n. n \<in> fst ` set G \<longleftrightarrow> 0 \<le> n \<and> n \<le> Out \<and> \<not> mv n"
    "set G \<subseteq> set P"
    "\<And>n. 0 \<le> n \<Longrightarrow> I - int sz < n \<Longrightarrow> n \<le> I \<Longrightarrow> \<not> held hp n \<Longrightarrow> Out < n \<or> mv n \<Longrightarrow>
        (n, T (slot_of sz n)) \<in> set P"
  using assms by (simp_all add: val_inv_def)

lemma val_claim_put:
  assumes r: "ring_inv sz I Out F hp hg" and v: "val_inv sz I Out T hp mv P G" and t: "hp t = None"
  shows "val_inv sz (I + 1) Out T (hp(t := Some (I + 1))) mv P G"
proof -
  have h: "held (hp(t := Some (I + 1))) n \<longleftrightarrow> n = I + 1 \<or> held hp n" for n
    using t by (rule held_upd_Some [of _ t])
  have "0 \<le> n \<and> n \<le> I \<and> \<not> held hp n \<longleftrightarrow>
      0 \<le> n \<and> n \<le> I + 1 \<and> \<not> (n = I + 1 \<or> held hp n)" for n
    by auto
  then show ?thesis
    using val_invD [OF v] by (simp add: val_inv_def h)
qed

lemma val_fill:
  assumes r: "ring_inv sz I Out F hp hg" and v: "val_inv sz I Out T hp mv P G" and t: "hp t = Some n"
  shows "val_inv sz I Out (T(slot_of sz n := x)) hp mv P G"
proof -
  note rd = ring_invD [OF r]
  have n: "Out < n" "n \<le> I" using rd(7) [OF heldI [of hp t n, OF t]] by auto
  have "slot_of sz m \<noteq> slot_of sz n" if "I - int sz < m" "m \<le> I" "\<not> held hp m" for m
    using slot_of_inj [OF rd(1), of m n I] that n rd(4) heldI [of hp t n, OF t] by auto
  then show ?thesis
    using val_invD [OF v] by (simp add: val_inv_def)
qed

lemma val_publish:
  assumes r: "ring_inv sz I Out F hp hg" and v: "val_inv sz I Out T hp mv P G" and t: "hp t = Some n"
    and x: "T (slot_of sz n) = x"
  shows "val_inv sz I Out T (hp(t := None)) mv (P @ [(n, x)]) G"
proof -
  note rd = ring_invD [OF r] and vd = val_invD [OF v]
  have hn: "held hp n" using t by (rule heldI)
  have n: "Out < n" "n \<le> I" "0 \<le> n" using rd(2) rd(7) [OF hn] by auto
  have h: "held (hp(t := None)) m \<longleftrightarrow> m \<noteq> n \<and> held hp m" for m
    using rd(5) t by (rule held_upd_None [of _ t])
  have new: "n \<notin> fst ` set P" using vd(3) hn by simp
  have dom: "m \<in> fst ` set (P @ [(n, x)]) \<longleftrightarrow> 0 \<le> m \<and> m \<le> I \<and> \<not> held (hp(t := None)) m" for m
    using vd(3) [of m] n by (auto simp: h)
  have "(m, T (slot_of sz m)) \<in> set (P @ [(n, x)])"
    if "0 \<le> m" "I - int sz < m" "m \<le> I" "\<not> held (hp(t := None)) m" "Out < m \<or> mv m" for m
    using vd(6) [of m] that x by (auto simp: h)
  then show ?thesis
    using vd(1,2,4,5) new dom by (auto simp: val_inv_def)
qed

lemma val_claim_get:
  assumes r: "ring_inv sz I Out F hp hg" and v: "val_inv sz I Out T hp mv P G"
    and mv': "\<And>n. mv' n \<longleftrightarrow> n = Out + 1 \<or> mv n"
  shows "val_inv sz I (Out + 1) T hp mv' P G"
proof -
  note rd = ring_invD [OF r] and vd = val_invD [OF v]
  have "0 \<le> n \<and> n \<le> Out \<and> \<not> mv n \<longleftrightarrow> 0 \<le> n \<and> n \<le> Out + 1 \<and> \<not> mv' n" for n
    using mv' [of n] by (cases "n = Out + 1") auto
  moreover have "(n, T (slot_of sz n)) \<in> set P"
    if "0 \<le> n" "I - int sz < n" "n \<le> I" "\<not> held hp n" "Out + 1 < n \<or> mv' n" for n
    using vd(6) [of n] that mv' [of n] by (cases "n = Out + 1") auto
  ultimately show ?thesis
    using vd(1-5) by (simp add: val_inv_def)
qed

lemma val_move:
  assumes r: "ring_inv sz I Out F hp hg" and v: "val_inv sz I Out T hp mv P G"
    and t: "hg t = Some n" and mv: "mv n" and mv': "\<And>m. mv' m \<longleftrightarrow> m \<noteq> n \<and> mv m"
  shows "val_inv sz I Out T hp mv' P (G @ [(n, T (slot_of sz n))])"
proof -
  note rd = ring_invD [OF r] and vd = val_invD [OF v]
  have n: "0 \<le> n" "I - int sz < n" "n \<le> Out" using rd(8) [OF heldI [of hg t n, OF t]] by auto
  then have "\<not> held hp n" using rd(7) [of n] by auto
  then have p: "(n, T (slot_of sz n)) \<in> set P" using vd(6) [of n] n mv rd(3) by simp
  have new: "n \<notin> fst ` set G" using vd(4) mv by simp
  have dom: "m \<in> fst ` set (G @ [(n, x)]) \<longleftrightarrow> 0 \<le> m \<and> m \<le> Out \<and> \<not> mv' m" for m x
    using vd(4) [of m] n mv' [of m] by auto
  have "(m, T (slot_of sz m)) \<in> set P"
    if "0 \<le> m" "I - int sz < m" "m \<le> I" "\<not> held hp m" "Out < m \<or> mv' m" for m
    using vd(6) [of m] that mv' [of m] by blast
  then show ?thesis
    using vd(1,2,3,5) new dom p by (auto simp: val_inv_def)
qed

text \<open>Two producers never own the same slot, nor do two consumers, nor one of each.\<close>

lemma holders_slots:
  assumes "ring_inv sz I Out F hp hg" "hp t = Some m" "hp u = Some n" "t \<noteq> u"
  shows "slot_of sz m \<noteq> slot_of sz n"
proof
  assume eq: "slot_of sz m = slot_of sz n"
  note d = ring_invD [OF assms(1)]
  have "Out < m \<and> m \<le> I" "Out < n \<and> n \<le> I"
    using d(7) heldI [of hp t m] heldI [of hp u n] assms(2,3) by auto
  then have "m = n" using slot_of_inj [OF d(1) eq, of I] d(4) by auto
  then show False using d(5) assms(2-4) by (auto simp: unique_holder_def)
qed

section \<open>Every step keeps it\<close>

definition moving :: "'a circ \<Rightarrow> int \<Rightarrow> bool" where
  "moving s n \<longleftrightarrow> (\<exists>t. pcs s t = Getting (CMove n))"

text \<open>A producer that has filled its object has not been overwritten.\<close>

definition filled :: "ring_cfg \<Rightarrow> 'a circ \<Rightarrow> bool" where
  "filled cfg s \<longleftrightarrow>
     (\<forall>t v q n. pcs s t = Putting v q \<and> (q = PPub n \<or> q = PSet n) \<longrightarrow> task s (slot_of (csize cfg) n) = v)"

definition hist_inv :: "ring_cfg \<Rightarrow> nat \<Rightarrow> 'a circ \<Rightarrow> 'a event list \<Rightarrow> bool" where
  "hist_inv cfg p s E \<longleftrightarrow>
     ctl_inv cfg p s \<and> filled cfg s \<and>
     val_inv (csize cfg) (get_in_seq cfg s) (out_seq s) (task s) (put_holder s) (moving s)
       (published E) (got E)"

text \<open>Most steps change nothing of all this.\<close>

definition no_value_pc :: "'a pc \<Rightarrow> bool" where
  "no_value_pc q \<longleftrightarrow> (\<forall>v r. q \<noteq> Putting v r) \<and> (\<forall>n. q \<noteq> Getting (CMove n))"

lemma no_value_pc_simps [simp]:
  "no_value_pc Idle" "no_value_pc (Taking v blk q)" "\<not> no_value_pc (Putting v r)"
  "no_value_pc (Signalling q1)" "no_value_pc (Waiting w k q2)"
  "no_value_pc (Getting q3) \<longleftrightarrow> (\<forall>n. q3 \<noteq> CMove n)"
  by (auto simp: no_value_pc_def)

lemma moving_goto:
  "(\<And>n. pcs s t \<noteq> Getting (CMove n)) \<Longrightarrow> (\<And>n. q \<noteq> Getting (CMove n)) \<Longrightarrow>
   pcs s1 = pcs s \<Longrightarrow> moving (goto t q s1) = moving s"
proof
  fix n assume a: "\<And>n. pcs s t \<noteq> Getting (CMove n)" "\<And>n. q \<noteq> Getting (CMove n)" "pcs s1 = pcs s"
  then have "pcs (goto t q s1) u = Getting (CMove n) \<longleftrightarrow> pcs s u = Getting (CMove n)" for u
    by (cases "u = t") auto
  then show "moving (goto t q s1) n = moving s n" by (simp add: moving_def)
qed

lemma filled_goto:
  assumes "filled cfg s" "pcs s1 = pcs s" "task s1 = task s"
    "\<And>v n. q \<noteq> Putting v (PPub n)" "\<And>v n. q \<noteq> Putting v (PSet n)"
  shows "filled cfg (goto t q s1)"
  unfolding filled_def
proof (intro allI impI)
  fix u v r n
  assume a: "pcs (goto t q s1) u = Putting v r \<and> (r = PPub n \<or> r = PSet n)"
  then have "u \<noteq> t" using assms(4,5) by auto
  then show "task (goto t q s1) (slot_of (csize cfg) n) = v"
    using a assms(1-3) by (auto simp: filled_def)
qed

lemma hist_quiet:
  assumes h: "hist_inv cfg p s E" and c: "ctl_inv cfg p (goto t q s1)"
    and s1: "pcs s1 = pcs s" "task s1 = task s" "out_seq s1 = out_seq s"
      "get_in_seq cfg s1 = get_in_seq cfg s"
    and q: "no_value_pc (pcs s t)" "no_value_pc q"
    and e: "published e = []" "got e = []"
  shows "hist_inv cfg p (goto t q s1) (E @ e)"
proof -
  have f: "filled cfg s" and v: "val_inv (csize cfg) (get_in_seq cfg s) (out_seq s) (task s)
      (put_holder s) (moving s) (published E) (got E)"
    using h by (simp_all add: hist_inv_def)
  have "moving (goto t q s1) = moving s"
    using q s1(1) by (intro moving_goto) (auto simp: no_value_pc_def)
  moreover have "put_holder (goto t q s1) = put_holder s"
    using q s1(1) by (auto simp: put_holder_def hold_put_def no_value_pc_def split: pc.splits)
  moreover have "filled cfg (goto t q s1)"
    using q(2) by (intro filled_goto [OF f s1(1,2)]) auto
  ultimately show ?thesis
    using c v s1 e by (simp add: hist_inv_def del: goto_simps(13,14))
qed

lemma hist_quiet_silent:
  assumes "hist_inv cfg p s E" "ctl_inv cfg p (goto t q s1)" "pcs s1 = pcs s" "task s1 = task s"
    "out_seq s1 = out_seq s" "get_in_seq cfg s1 = get_in_seq cfg s" "no_value_pc (pcs s t)" "no_value_pc q"
  shows "hist_inv cfg p (goto t q s1) E"
  using hist_quiet [OF assms, of "[]"] by simp

lemmas hist_quiet_intros = hist_quiet hist_quiet_silent

lemma hist_invD:
  assumes "hist_inv cfg p s E"
  shows "ctl_inv cfg p s" "filled cfg s"
    "val_inv (csize cfg) (get_in_seq cfg s) (out_seq s) (task s) (put_holder s) (moving s)
      (published E) (got E)"
    "ring_inv (csize cfg) (get_in_seq cfg s) (out_seq s) (isFree s) (put_holder s) (get_holder s)"
  using assms by (simp_all add: hist_inv_def ctl_inv_def)

lemma hist_take:
  assumes h: "hist_inv cfg p s E" and t: "pcs s t = Taking v blk q"
  shows "hist_inv cfg p (fst (take_step cfg t b v blk q s)) (E @ snd (take_step cfg t b v blk q s))"
proof -
  note hd = hist_invD [OF h]
  have c: "ctl_inv cfg p (fst (take_step cfg t b v blk q s))"
    by (rule take_step_inv [OF hd(1) t])
  show ?thesis
  proof (cases q)
    case (PClaim n)
    show ?thesis
    proof (cases "production cfg = SINGLE_THREAD \<or> in_seq s = n - 1 \<and> \<not> b")
      case True
      have "pc_ok cfg p (get_in_seq cfg s) (out_seq s) (isFree s) t (pcs s t)"
        by (rule ctl_invD(4) [OF hd(1)])
      then have n: "n = get_in_seq cfg s + 1"
        using True PClaim t by (cases "production cfg") (auto simp: get_in_seq_def)
      obtain r where r: "take_step cfg t b v blk q s = (goto t (Putting v r) (set_in_seq cfg n s), [])"
        "put_seq r = n" "\<And>m. r \<noteq> PPub m" "\<And>m. r \<noteq> PSet m"
        using True PClaim by (cases "production cfg") (auto simp: claim_next_def)
      have "moving (goto t (Putting v r) (set_in_seq cfg n s)) = moving s"
        using t by (intro moving_goto) auto
      moreover have "filled cfg (goto t (Putting v r) (set_in_seq cfg n s))"
        using r(3,4) by (intro filled_goto [OF hd(2)]) auto
      moreover have "put_holder s t = None" using t by (simp add: put_holder_def)
      ultimately show ?thesis
        using c val_claim_put [OF hd(4,3), of t] r n by (simp add: hist_inv_def)
    next
      case False
      then show ?thesis using c t PClaim
        by (auto simp: claim_next_def split: ProductionStrategy.splits intro!: hist_quiet_intros [OF h])
    qed
  next
    case (PUpdStore n out)
    then show ?thesis using c t
      by (auto simp: Let_def split: ProductionStrategy.splits intro!: hist_quiet_intros [OF h])
  qed (use c t in \<open>auto intro!: hist_quiet_intros [OF h]\<close>)
qed

lemma hist_wait:
  assumes h: "hist_inv cfg p s E" and t: "pcs s t = Waiting w k q"
  shows "hist_inv cfg p (fst (wait_step cfg t b w k q s)) (E @ snd (wait_step cfg t b w k q s))"
proof -
  note hd = hist_invD [OF h]
  have c: "ctl_inv cfg p (fst (wait_step cfg t b w k q s))"
    by (rule wait_step_inv [OF hd(1) t])
  show ?thesis
  proof (cases q)
    case (CClaim n)
    show ?thesis
    proof (cases "out_seq s = n - 1 \<and> \<not> b")
      case True
      let ?s = "goto t (Getting (CMove n)) (s\<lparr>out_seq := n\<rparr>)"
      have n: "n = out_seq s + 1" using True by simp
      have "moving ?s m \<longleftrightarrow> m = out_seq s + 1 \<or> moving s m" for m
      proof
        assume "moving ?s m"
        then obtain u where "pcs ?s u = Getting (CMove m)" by (auto simp: moving_def)
        then show "m = out_seq s + 1 \<or> moving s m"
          using n by (cases "u = t") (auto simp: moving_def)
      next
        assume "m = out_seq s + 1 \<or> moving s m"
        then consider "m = out_seq s + 1" | u where "pcs s u = Getting (CMove m)"
          by (auto simp: moving_def)
        then show "moving ?s m"
        proof cases
          case 1
          then show ?thesis using n by (auto simp: moving_def)
        next
          case 2
          then have "u \<noteq> t" using t by auto
          then show ?thesis using 2 unfolding moving_def by (intro exI [of _ u]) simp
        qed
      qed
      note va = val_claim_get [OF hd(4,3), of "moving ?s", OF this]
      have "put_holder ?s = put_holder s"
        using t by (auto simp: put_holder_def)
      moreover have "filled cfg ?s"
        using hd(2) by (auto simp: filled_def)
      moreover have "wait_step cfg t b w k q s = (?s, [])" using True CClaim by simp
      ultimately show ?thesis
        using c va n by (simp add: hist_inv_def del: goto_simps(13,14))
    next
      case False
      then show ?thesis using c t CClaim by (auto intro!: hist_quiet_intros [OF h])
    qed
  next
    case CWait
    then show ?thesis using c t
      by (auto simp: after_update_defs split: WaitStrategy.splits intro!: hist_quiet_intros [OF h])
  next
    case (CEmptyOut i)
    then show ?thesis using c t
      by (auto split: WaitStrategy.splits intro!: hist_quiet_intros [OF h])
  next
    case (CBlock q')
    then show ?thesis using c t h
      by (cases q') (auto split: option.splits intro!: hist_quiet_intros [OF h])
  qed (use c t in \<open>auto intro!: hist_quiet_intros [OF h]\<close>)
qed

lemma hist_signal:
  assumes h: "hist_inv cfg p s E" and t: "pcs s t = Signalling q"
  shows "hist_inv cfg p (signal_step t q s) E"
  using signal_step_inv [OF hist_invD(1) [OF h] t] t h
  by (cases q) (auto split: option.splits intro!: hist_quiet_intros [OF h])

lemma hist_put:
  assumes h: "hist_inv cfg p s E" and t: "pcs s t = Putting v q"
  shows "\<exists>s' e. put_step cfg t v q s = Inr (s', e) \<and> hist_inv cfg p s' (E @ e)"
proof -
  note hd = hist_invD [OF h]
  obtain s' e where s': "put_step cfg t v q s = Inr (s', e)" and c: "ctl_inv cfg p s'"
    using put_step_inv [OF hd(1) t] by blast
  have ph: "put_holder s t = Some (put_seq q)" using t by (simp add: put_holder_def)
  have same: "(put_holder s)(t := Some (put_seq q)) = put_holder s"
    by (rule fun_upd_idem) (rule ph)
  have mv: "moving (goto t r s1) = moving s" if "pcs s1 = pcs s" "\<And>n. r \<noteq> Getting (CMove n)" for r s1
    using t that by (intro moving_goto) auto
  have "hist_inv cfg p s' (E @ e)"
  proof (cases q)
    case (PAssert n)
    then have s1: "s' = goto t (Putting v (PFill n)) s" "e = []"
      using s' by (auto split: if_splits)
    have "filled cfg s'" unfolding s1 by (rule filled_goto [OF hd(2)]) auto
    then show ?thesis
      using c hd(3) same PAssert s1 mv by (simp add: hist_inv_def)
  next
    case (PFill n)
    then have s1: "s' = goto t (Putting v (PPub n)) (s\<lparr>task := (task s)(slot_of (csize cfg) n := v)\<rparr>)"
      "e = []" using s' by auto
    have "filled cfg s'"
      unfolding filled_def
    proof (intro allI impI)
      fix u w r m
      assume a: "pcs s' u = Putting w r \<and> (r = PPub m \<or> r = PSet m)"
      show "task s' (slot_of (csize cfg) m) = w"
      proof (cases "u = t")
        case True
        then show ?thesis using a s1 by auto
      next
        case False
        then have u: "pcs s u = Putting w r" using a s1 by simp
        have "put_holder s u = Some m" using u a by (auto simp: put_holder_def)
        moreover have "put_holder s t = Some n" using ph PFill by simp
        ultimately have "slot_of (csize cfg) m \<noteq> slot_of (csize cfg) n"
          using holders_slots [OF hd(4)] False by blast
        then show ?thesis using hd(2) u a s1 by (auto simp: filled_def)
      qed
    qed
    moreover have "val_inv (csize cfg) (get_in_seq cfg s) (out_seq s)
        ((task s)(slot_of (csize cfg) n := v)) (put_holder s) (moving s) (published E) (got E)"
      by (rule val_fill [OF hd(4,3)]) (use ph PFill in simp)
    ultimately show ?thesis
      using c same PFill s1 mv by (simp add: hist_inv_def)
  next
    case (PPub n)
    then have s1: "s' = goto t (Putting v (PSet n)) s" "e = []"
      using s' by (auto split: if_splits)
    have "task s (slot_of (csize cfg) n) = v" using hd(2) t PPub by (auto simp: filled_def)
    then have "filled cfg s'" using hd(2) s1 by (auto simp: filled_def)
    then show ?thesis
      using c hd(3) same PPub s1 mv by (simp add: hist_inv_def)
  next
    case (PSet n)
    then obtain r where s1: "s' = goto t r (s\<lparr>isFree := (isFree s)(slot_of (csize cfg) n := False)\<rparr>)"
      "e = [Published n v]" "no_value_pc r" "hold_put r = None"
      using s' by (auto split: WaitStrategy.splits)
    have "task s (slot_of (csize cfg) n) = v" using hd(2) t PSet by (auto simp: filled_def)
    then have "val_inv (csize cfg) (get_in_seq cfg s) (out_seq s) (task s) ((put_holder s)(t := None))
        (moving s) (published E @ [(n, v)]) (got E)"
      using val_publish [OF hd(4,3)] ph PSet by simp
    moreover have "filled cfg s'"
      unfolding s1 using s1(3) by (intro filled_goto [OF hd(2)]) auto
    moreover have "moving s' = moving s"
      unfolding s1 using s1(3) by (intro mv) (auto simp: no_value_pc_def)
    ultimately show ?thesis
      using c s1 by (simp add: hist_inv_def)
  qed
  with s' show ?thesis by blast
qed

lemma hist_get:
  assumes h: "hist_inv cfg p s E" and t: "pcs s t = Getting q"
  shows "\<exists>s' e. get_step cfg t q s = Inr (s', e) \<and> hist_inv cfg p s' (E @ e)"
proof -
  note hd = hist_invD [OF h]
  obtain s' e where s': "get_step cfg t q s = Inr (s', e)" and c: "ctl_inv cfg p s'"
    using get_step_inv [OF hd(1) t] by blast
  have "hist_inv cfg p s' (E @ e)"
  proof (cases q)
    case (CMove n)
    then have s1: "s' = goto t (Getting (CDone n)) s" "e = [Got n (task s (slot_of (csize cfg) n))]"
      using s' by auto
    have gh: "get_holder s t = Some n" using t CMove by (simp add: get_holder_def)
    have "moving s' m \<longleftrightarrow> m \<noteq> n \<and> moving s m" for m
    proof
      assume "moving s' m"
      then obtain u where u: "pcs s' u = Getting (CMove m)" by (auto simp: moving_def)
      then have "u \<noteq> t" "pcs s u = Getting (CMove m)" using s1 by (auto split: if_splits)
      moreover from this have "get_holder s u = Some m" by (simp add: get_holder_def)
      ultimately show "m \<noteq> n \<and> moving s m"
        using gh ring_invD(6) [OF hd(4)] by (auto simp: unique_holder_def moving_def)
    next
      assume "m \<noteq> n \<and> moving s m"
      then obtain u where "pcs s u = Getting (CMove m)" "m \<noteq> n" by (auto simp: moving_def)
      moreover from this have "u \<noteq> t" using t CMove by auto
      ultimately show "moving s' m" using s1 by (auto simp: moving_def)
    qed
    moreover have "moving s n" using t CMove by (auto simp: moving_def)
    ultimately have "val_inv (csize cfg) (get_in_seq cfg s) (out_seq s) (task s) (put_holder s)
        (moving s') (published E) (got E @ [(n, task s (slot_of (csize cfg) n))])"
      using val_move [OF hd(4,3) gh] by blast
    moreover have "filled cfg s'" unfolding s1 by (rule filled_goto [OF hd(2)]) auto
    moreover have "put_holder s' = put_holder s" using t s1 by (auto simp: put_holder_def)
    ultimately show ?thesis
      using c s1 by (simp add: hist_inv_def del: goto_simps(13,14))
  next
    case (CDone n)
    then show ?thesis using s' c t by (auto split: if_splits intro!: hist_quiet_intros [OF h])
  next
    case (CFree n)
    then show ?thesis using s' c t by (auto intro!: hist_quiet_intros [OF h])
  qed
  with s' show ?thesis by blast
qed

lemma hist_step:
  assumes h: "hist_inv cfg p s E" and c: "choice_ok cfg p t c"
  shows "\<exists>s' e. ring_step cfg t c s = Inr (s', e) \<and> hist_inv cfg p s' (E @ e)"
proof (cases c)
  case (Go b)
  show ?thesis
  proof (cases "pcs s t")
    case (Taking v blk q)
    then show ?thesis using hist_take [OF h Taking, of b] Go
      by (cases "take_step cfg t b v blk q s") (auto simp: ring_step_def)
  next
    case (Waiting w k q)
    then show ?thesis using hist_wait [OF h Waiting, of b] Go
      by (cases "wait_step cfg t b w k q s") (auto simp: ring_step_def)
  qed (use Go h hist_put [OF h] hist_get [OF h] hist_signal [OF h] in \<open>auto simp: ring_step_def\<close>)
next
  case (StartPut v blk)
  then show ?thesis
    using ring_step_inv [OF hist_invD(1) [OF h] c] h
    by (auto simp: ring_step_def split: pc.splits intro!: hist_quiet_intros [OF h])
next
  case (StartGet timed)
  then show ?thesis
    using ring_step_inv [OF hist_invD(1) [OF h] c] h
    by (auto simp: ring_step_def split: pc.splits intro!: hist_quiet_intros [OF h])
qed

lemma hist_run:
  assumes "hist_inv cfg p s E" "\<forall>(t, c) \<in> set cs. choice_ok cfg p t c"
  shows "\<exists>s' e. ring_run cfg cs s = Inr (s', e) \<and> hist_inv cfg p s' (E @ e)"
  by (rule ring_machine.run_faultless [where ok = "\<lambda>(t, c). choice_ok cfg p t c"])
    (use assms hist_step in \<open>auto simp: list_all_iff\<close>)

lemma hist_start:
  assumes "pow2_size (csize cfg)"
  shows "hist_inv cfg p (CircBuf dflt) []"
  using ctl_inv_start [OF assms]
  by (auto simp: hist_inv_def CircBuf_def filled_def val_inv_def moving_def get_in_seq_def
      split: ProductionStrategy.splits)

text \<open>Runs from the constructor satisfy all of it.\<close>

lemma ring_run_hist:
  assumes "\<forall>(t, c) \<in> set cs. choice_ok (CircBuf_cfg sz ps ws) p t c"
  obtains s E where "ring_run (CircBuf_cfg sz ps ws) cs (CircBuf dflt) = Inr (s, E)"
    "hist_inv (CircBuf_cfg sz ps ws) p s E"
  using hist_run [OF hist_start [OF cfg_pow2] assms, of dflt] by auto

text \<open>The slot a thread works on.\<close>

definition works_on :: "ring_cfg \<Rightarrow> 'a pc \<Rightarrow> nat option" where
  "works_on cfg q = (case q of
     Putting v r \<Rightarrow> Some (slot_of (csize cfg) (put_seq r))
   | Getting r \<Rightarrow> Some (slot_of (csize cfg) (get_seq r))
   | _ \<Rightarrow> None)"

lemma works_on_unique:
  assumes h: "hist_inv cfg p s E" and "t \<noteq> u" "works_on cfg (pcs s t) = Some i"
    "works_on cfg (pcs s u) = Some j"
  shows "i \<noteq> j"
proof
  assume eq: "i = j"
  define I where "I = get_in_seq cfg s"
  note d = ring_invD [OF hist_invD(4) [OF h]]
  have seq: "\<exists>n. slot_of (csize cfg) n = k \<and> I - int (csize cfg) < n \<and> n \<le> I \<and>
      (put_holder s w = Some n \<and> out_seq s < n \<or> get_holder s w = Some n \<and> n \<le> out_seq s)"
    if "works_on cfg (pcs s w) = Some k" for w k
  proof (cases "pcs s w")
    case (Putting v r)
    then have w: "put_holder s w = Some (put_seq r)" by (simp add: put_holder_def)
    then show ?thesis using Putting that d(4) d(7) [OF heldI, OF w] by (auto simp: works_on_def I_def)
  next
    case (Getting r)
    then have w: "get_holder s w = Some (get_seq r)" by (simp add: get_holder_def)
    then show ?thesis using Getting that d(3) d(8) [OF heldI, OF w] by (auto simp: works_on_def I_def)
  qed (use that in \<open>auto simp: works_on_def\<close>)
  obtain m n where mn: "slot_of (csize cfg) m = i" "I - int (csize cfg) < m" "m \<le> I"
    "put_holder s t = Some m \<and> out_seq s < m \<or> get_holder s t = Some m \<and> m \<le> out_seq s"
    "slot_of (csize cfg) n = j" "I - int (csize cfg) < n" "n \<le> I"
    "put_holder s u = Some n \<and> out_seq s < n \<or> get_holder s u = Some n \<and> n \<le> out_seq s"
    using seq [OF assms(3)] seq [OF assms(4)] by blast
  then have "m = n" using slot_of_inj [OF d(1), of m n I] eq by simp
  then show False
    using mn(4,8) d(5,6) assms(2) by (auto simp: unique_holder_def)
qed

section \<open>Calls by one thread at a time\<close>

lemma step_other_threads:
  assumes "ring_step cfg u c s = Inr (s', e)" "t \<noteq> u"
  shows "pcs s' t = pcs s t"
proof (cases c)
  case (Go b)
  then have a: "thread_step cfg u b (pcs s u) s = Inr (s', e)" using assms by (simp add: ring_step_def)
  show ?thesis
  proof (cases "pcs s u")
    case (Taking v blk q)
    then show ?thesis using a assms(2)
      by (cases q) (auto simp: Let_def claim_next_def split: ProductionStrategy.splits if_splits)
  next
    case (Putting v q)
    then show ?thesis using a assms(2) by (cases q) (auto split: if_splits)
  next
    case (Signalling q)
    then show ?thesis using a assms(2) by (cases q) (auto split: if_splits option.splits)
  next
    case (Waiting w k q)
    show ?thesis
    proof (cases q)
      case (CBlock r)
      then show ?thesis using a assms(2) Waiting
        by (cases r) (auto split: if_splits option.splits)
    qed (use a assms(2) Waiting in \<open>auto simp: after_update_defs split: if_splits WaitStrategy.splits\<close>)
  next
    case (Getting q)
    then show ?thesis using a assms(2) by (cases q) (auto split: if_splits)
  qed (use a in simp)
qed (use assms in \<open>auto simp: ring_step_def split: pc.splits\<close>)

lemma run_other_threads:
  assumes "ring_run cfg cs s = Inr (s', E)" "t \<notin> fst ` set cs"
  shows "pcs s' t = pcs s t"
  by (rule ring_machine.run_unchanged [where v = "\<lambda>s. pcs s t" and ok = "\<lambda>(u, _). u \<noteq> t", OF _ assms(1)])
    (use assms(2) in \<open>auto simp: list_all_iff image_iff intro: step_other_threads\<close>)

text \<open>What the invariant says when no call is running.\<close>

lemma quiet_slots:
  assumes h: "hist_inv cfg p s E" and idle: "\<forall>t. pcs s t = Idle"
  shows "cache_out s \<le> out_seq s" "cache_in s \<le> get_in_seq cfg s"
    "out_seq s < get_in_seq cfg s \<Longrightarrow> \<not> is_free cfg (out_seq s + 1) s"
    "out_seq s < get_in_seq cfg s \<Longrightarrow>
      (out_seq s + 1, task s (slot_of (csize cfg) (out_seq s + 1))) \<in> set (published E)"
    "get_in_seq cfg s < out_seq s + int (csize cfg) \<Longrightarrow> is_free cfg (get_in_seq cfg s + 1) s"
    "get_in_seq cfg s = out_seq s + int (csize cfg) \<Longrightarrow> \<not> is_free cfg (get_in_seq cfg s + 1) s"
proof -
  note hd = hist_invD [OF h]
  note r = ring_invD [OF hd(4)] and v = val_invD [OF hd(3)]
  have n: "\<not> held (put_holder s) n" "\<not> held (get_holder s) n" for n
    using idle by (auto simp: held_def put_holder_def get_holder_def)
  show "cache_out s \<le> out_seq s" "cache_in s \<le> get_in_seq cfg s" using ctl_invD [OF hd(1)] by auto
  show "\<not> is_free cfg (out_seq s + 1) s" if "out_seq s < get_in_seq cfg s"
    using r(9) [of "out_seq s + 1"] r(4) that n by (simp add: is_free_def)
  show "(out_seq s + 1, task s (slot_of (csize cfg) (out_seq s + 1))) \<in> set (published E)"
    if "out_seq s < get_in_seq cfg s"
    using v(6) [of "out_seq s + 1"] r(2,4) that n by simp
  show "is_free cfg (get_in_seq cfg s + 1) s" if "get_in_seq cfg s < out_seq s + int (csize cfg)"
    using next_slot [OF hd(4)] that n by (simp add: is_free_def)
  show "\<not> is_free cfg (get_in_seq cfg s + 1) s" if "get_in_seq cfg s = out_seq s + int (csize cfg)"
  proof -
    have "\<not> isFree s (slot_of (csize cfg) (out_seq s + 1))"
      using r(9) [of "out_seq s + 1"] that n pow2_pos [OF r(1)] by simp
    moreover have "slot_of (csize cfg) (get_in_seq cfg s + 1) = slot_of (csize cfg) (out_seq s + 1)"
      using slot_of_round [OF r(1), of "get_in_seq cfg s + 1"] that by (simp add: algebra_simps)
    ultimately show ?thesis by (simp add: is_free_def)
  qed
qed

lemma is_free_goto [simp]: "is_free cfg n (goto t q s) = is_free cfg n s"
  by (simp add: is_free_def)

lemma is_free_upd [simp]:
  "is_free cfg n (s\<lparr>out_seq := o'\<rparr>) = is_free cfg n s"
  "is_free cfg n (s\<lparr>cache_out := o'\<rparr>) = is_free cfg n s"
  "is_free cfg n (s\<lparr>cache_in := o'\<rparr>) = is_free cfg n s"
  "is_free cfg n (s\<lparr>task := ta\<rparr>) = is_free cfg n s"
  "is_free cfg n (set_in_seq cfg m s) = is_free cfg n s"
  by (simp_all add: is_free_def)

lemma run_Go:
  "ring_run cfg ((t, Go b) # cs) s =
     bind_res (thread_step cfg t b (pcs s t) s) (\<lambda>(s, e).
     bind_res (ring_run cfg cs s) (\<lambda>(s, e'). Inr (s, e @ e')))"
  by (simp add: ring_step_def)

lemma run_starts:
  "pcs s t = Idle \<Longrightarrow> ring_run cfg ((t, StartGet False) # cs) s =
     ring_run cfg cs (goto t (Waiting (wait_strategy cfg) spin_tries CLoad) s)"
  "pcs s t = Idle \<Longrightarrow> ring_run cfg ((t, StartPut x blk) # cs) s = ring_run cfg cs (goto t (Taking x blk PLoad) s)"
  by (cases "ring_run cfg cs (goto t (Waiting (wait_strategy cfg) spin_tries CLoad) s)";
      cases "ring_run cfg cs (goto t (Taking x blk PLoad) s)"; auto simp: ring_step_def)+

lemma solo_get:
  assumes m: "production cfg = MUTIL_THREADS" "wait_strategy cfg = NOBLOCK_WAIT_STRATEGY"
    and i: "pcs s t = Idle" and f: "out_seq s < in_seq s" "\<not> is_free cfg (out_seq s + 1) s"
  shows "\<exists>n s'. ring_run cfg ((t, StartGet False) # replicate n (t, Go False)) s =
      Inr (s', [Got (out_seq s + 1) (task s (slot_of (csize cfg) (out_seq s + 1)))]) \<and> pcs s' t = Idle"
proof (cases "out_seq s + 1 \<le> cache_in s")
  case True
  show ?thesis
    by (rule exI [of _ "Suc (Suc (Suc (Suc (Suc (Suc (Suc 0))))))"])
      (use m i f True in \<open>simp add: run_starts run_Go del: ring_run.simps(2)\<close>)
next
  case False
  show ?thesis
    by (rule exI [of _ "Suc (Suc (Suc (Suc (Suc (Suc (Suc (Suc (Suc (Suc (Suc (Suc (Suc (Suc 0)))))))))))))"])
      (use m i f False in \<open>simp add: run_starts run_Go after_update_defs get_in_seq_def del: ring_run.simps(2)\<close>)
qed

lemma solo_empty:
  assumes m: "production cfg = MUTIL_THREADS" "wait_strategy cfg = NOBLOCK_WAIT_STRATEGY"
    and i: "pcs s t = Idle" and f: "out_seq s = in_seq s" "cache_in s \<le> in_seq s"
  shows "\<exists>n s'. ring_run cfg ((t, StartGet False) # replicate n (t, Go False)) s = Inr (s', [Empty]) \<and>
      pcs s' t = Idle"
  by (rule exI [of _ "Suc (Suc (Suc (Suc (Suc (Suc (Suc 0))))))"])
    (use m i f in \<open>simp add: run_starts run_Go after_update_defs get_in_seq_def del: ring_run.simps(2)\<close>)

lemma solo_take:
  assumes m: "production cfg = MUTIL_THREADS" "wait_strategy cfg = NOBLOCK_WAIT_STRATEGY"
    and i: "pcs s t = Idle" and f: "in_seq s < out_seq s + int (csize cfg)" "is_free cfg (in_seq s + 1) s"
  shows "\<exists>n s'. ring_run cfg ((t, StartPut x True) # replicate n (t, Go False)) s =
      Inr (s', [Published (in_seq s + 1) x]) \<and> pcs s' t = Idle"
proof (cases "in_seq s + 1 - int (csize cfg) \<le> cache_out s")
  case True
  show ?thesis
    by (rule exI [of _ "Suc (Suc (Suc (Suc (Suc (Suc (Suc (Suc 0)))))))"])
      (use m i f True in \<open>simp add: run_starts run_Go claim_next_def get_in_seq_def del: ring_run.simps(2)\<close>)
next
  case False
  show ?thesis
    by (rule exI [of _ "Suc (Suc (Suc (Suc (Suc (Suc (Suc (Suc (Suc (Suc (Suc (Suc 0)))))))))))"])
      (use m i f False in \<open>simp add: run_starts run_Go claim_next_def get_in_seq_def Let_def del: ring_run.simps(2)\<close>)
qed

lemma solo_refuse:
  assumes m: "production cfg = MUTIL_THREADS" "wait_strategy cfg = NOBLOCK_WAIT_STRATEGY"
    and i: "pcs s t = Idle" and f: "\<not> is_free cfg (in_seq s + 1) s"
  shows "\<exists>n s'. ring_run cfg ((t, StartPut x False) # replicate n (t, Go False)) s =
      Inr (s', [Refused]) \<and> pcs s' t = Idle"
proof (cases "in_seq s + 1 - int (csize cfg) \<le> cache_out s")
  case True
  show ?thesis
    by (rule exI [of _ "Suc (Suc (Suc (Suc (Suc 0))))"])
      (use m i f True in \<open>simp add: run_starts run_Go get_in_seq_def Let_def del: ring_run.simps(2)\<close>)
next
  case False
  show ?thesis
    by (rule exI [of _ "Suc (Suc (Suc (Suc 0)))"])
      (use m i f False in \<open>simp add: run_starts run_Go get_in_seq_def Let_def del: ring_run.simps(2)\<close>)
qed

section \<open>Properties\<close>

text \<open>C3. Whatever the schedule, with any number of producers and consumers (one producer in
  single-producer mode) and any wait strategy, no assert of the ring fails, and no two threads
  ever work on the same slot.\<close>

theorem ring_exclusive:
  assumes "\<forall>(t, c) \<in> set cs. choice_ok (CircBuf_cfg sz ps ws) p t c"
  shows "\<exists>s E. ring_run (CircBuf_cfg sz ps ws) cs (CircBuf dflt) = Inr (s, E) \<and>
    (\<forall>t u i. t \<noteq> u \<and> works_on (CircBuf_cfg sz ps ws) (pcs s t) = Some i \<longrightarrow>
       works_on (CircBuf_cfg sz ps ws) (pcs s u) \<noteq> Some i)"
proof -
  obtain s E where s: "ring_run (CircBuf_cfg sz ps ws) cs (CircBuf dflt) = Inr (s, E)"
    "hist_inv (CircBuf_cfg sz ps ws) p s E"
    by (rule ring_run_hist [OF assms])
  moreover have "works_on (CircBuf_cfg sz ps ws) (pcs s u) \<noteq> Some i"
    if "t \<noteq> u" "works_on (CircBuf_cfg sz ps ws) (pcs s t) = Some i" for t u i
    using works_on_unique [OF s(2) that] by blast
  ultimately show ?thesis by blast
qed

text \<open>Two producers and a consumer of a ring of two slots.\<close>

definition sample_schedule :: "(nat \<times> nat choice) list" where
  "sample_schedule =
     [(0, StartPut 5 True), (1, StartPut 6 True), (0, Go False), (1, Go False), (0, Go False),
      (0, Go False), (1, Go False), (1, Go False), (0, Go False), (1, Go False), (0, Go False),
      (0, Go False), (0, Go False), (0, Go False), (2, StartGet False), (2, Go False), (2, Go False),
      (2, Go False), (2, Go False), (2, Go False), (2, Go False), (2, Go False), (2, Go False),
      (2, Go False), (2, Go False), (2, Go False), (2, Go False), (2, Go False), (2, Go False)]"

lemma sample_schedule_ok:
  "\<forall>(t, c) \<in> set sample_schedule. choice_ok (CircBuf_cfg 2 MUTIL_THREADS NOBLOCK_WAIT_STRATEGY) p t c"
  by (simp add: sample_schedule_def choice_ok_def CircBuf_cfg_def)

theorem ring_exclusive_witness:
  "\<exists>s E. ring_run (CircBuf_cfg 2 MUTIL_THREADS NOBLOCK_WAIT_STRATEGY) sample_schedule (CircBuf 0) = Inr (s, E)"
  using ring_exclusive [OF sample_schedule_ok [of 0], of 0] by blast

text \<open>C6. Every published element has its own sequence number, every consumed element was
  published under the number it was consumed with, and none is consumed twice; never more than
  the size of the ring is in it. When all threads are idle the published numbers are 0 to \<open>in_\<close>
  and the consumed ones 0 to \<open>out_\<close>: nothing is lost, and elements leave in the order in
  which their numbers were claimed.\<close>

theorem ring_fifo:
  assumes "\<forall>(t, c) \<in> set cs. choice_ok (CircBuf_cfg sz ps ws) p t c"
  shows "\<exists>s E. ring_run (CircBuf_cfg sz ps ws) cs (CircBuf dflt) = Inr (s, E) \<and>
    distinct (map fst (published E)) \<and> distinct (map fst (got E)) \<and>
    set (got E) \<subseteq> set (published E) \<and>
    out_seq s \<le> get_in_seq (CircBuf_cfg sz ps ws) s \<and>
    get_in_seq (CircBuf_cfg sz ps ws) s \<le> out_seq s + int (unat (CircBuf_size sz)) \<and>
    ((\<forall>t. pcs s t = Idle) \<longrightarrow>
       fst ` set (published E) = {0 .. get_in_seq (CircBuf_cfg sz ps ws) s} \<and>
       fst ` set (got E) = {0 .. out_seq s})"
proof -
  let ?c = "CircBuf_cfg sz ps ws"
  obtain s E where s: "ring_run ?c cs (CircBuf dflt) = Inr (s, E)" "hist_inv ?c p s E"
    by (rule ring_run_hist [OF assms])
  note v = val_invD [OF hist_invD(3) [OF s(2)]] and r = ring_invD [OF hist_invD(4) [OF s(2)]]
  have q: "fst ` set (published E) = {0 .. get_in_seq ?c s} \<and> fst ` set (got E) = {0 .. out_seq s}"
    if "\<forall>t. pcs s t = Idle"
  proof -
    have "\<not> held (put_holder s) n" "\<not> moving s n" for n
      using that by (auto simp: held_def put_holder_def moving_def)
    then show ?thesis using v(3,4) by (simp add: set_eq_iff)
  qed
  have "csize ?c = unat (CircBuf_size sz)" by (simp add: CircBuf_cfg_def)
  with s(1) v(1,2,5) r(3,4) q show ?thesis by metis
qed

theorem ring_fifo_witness:
  "\<exists>s E. ring_run (CircBuf_cfg 2 MUTIL_THREADS NOBLOCK_WAIT_STRATEGY) sample_schedule (CircBuf 0) = Inr (s, E) \<and>
     set (got E) \<subseteq> set (published E) \<and> got E = [(0, 5)]"
proof -
  have "map_sum (\<lambda>_. ()) (\<lambda>(s, E). got E) (ring_run (CircBuf_cfg 2 MUTIL_THREADS NOBLOCK_WAIT_STRATEGY)
      sample_schedule (CircBuf 0)) = Inr [(0, 5)]"
    by code_simp
  then obtain s E where "ring_run (CircBuf_cfg 2 MUTIL_THREADS NOBLOCK_WAIT_STRATEGY) sample_schedule
      (CircBuf 0) = Inr (s, E)" "got E = [(0, 5)]" by (cases "ring_run (CircBuf_cfg 2 MUTIL_THREADS NOBLOCK_WAIT_STRATEGY) sample_schedule (CircBuf 0)") auto
  then show ?thesis using ring_fifo [OF sample_schedule_ok [of 0], of 0] by auto
qed

definition lost_wakeup_schedule :: "(nat \<times> nat choice) list" where
  "lost_wakeup_schedule =
     (1, StartGet False) # replicate 10 (1, Go False) @
     (0, StartPut 5 True) # replicate 9 (0, Go False) @ replicate 2 (1, Go False)"

text \<open>C27. The blocking strategy can lose a wake-up: \<open>need_notify\<close> is set after the emptiness
  test, and \<open>signal_when_blocking\<close> exchanges it without the mutex. Here an element is published
  and its producer has returned, and the only consumer sleeps: running it changes nothing.\<close>

theorem block_wait_loses_wakeup:
  "\<exists>s. ring_run (CircBuf_cfg 2 MUTIL_THREADS BLOCK_WAIT_STRATEGY) lost_wakeup_schedule (CircBuf 0) =
       Inr (s, [Published 0 5]) \<and>
     (\<forall>t. t \<noteq> 1 \<longleftrightarrow> pcs s t = Idle) \<and> 1 \<in> sleeping s \<and>
     (\<forall>n b. ring_run (CircBuf_cfg 2 MUTIL_THREADS BLOCK_WAIT_STRATEGY) (replicate n (1, Go b)) s =
        Inr (s, []))"
proof -
  let ?c = "CircBuf_cfg 2 MUTIL_THREADS BLOCK_WAIT_STRATEGY"
  have "map_sum (\<lambda>_. ()) (\<lambda>(s, E). (published E, length E, 1 \<in> sleeping s,
      case pcs s 0 of Idle \<Rightarrow> True | _ \<Rightarrow> False,
      case pcs s 1 of Waiting w k (CBlock CAsleep) \<Rightarrow> True | _ \<Rightarrow> False))
    (ring_run ?c lost_wakeup_schedule (CircBuf 0)) = Inr ([(0, 5)], 1, True, True, True)"
    by code_simp
  then obtain s E where s: "ring_run ?c lost_wakeup_schedule (CircBuf 0) = Inr (s, E)"
    "published E = [(0, 5)]" "length E = 1" "1 \<in> sleeping s" "pcs s 0 = Idle"
    "\<exists>w k. pcs s 1 = Waiting w k (CBlock CAsleep)"
    by (cases "ring_run ?c lost_wakeup_schedule (CircBuf 0)")
      (auto split: pc.splits wait_pc.splits block_pc.splits)
  have e: "E = [Published 0 5]"
    using s(2,3) by (auto simp: length_Suc_conv published_def split: event.splits)
  have idle: "pcs s t = Idle" if "t \<noteq> 0" "t \<noteq> 1" for t
    using run_other_threads [OF s(1), of t] that by (auto simp: lost_wakeup_schedule_def CircBuf_def)
  have "ring_run ?c (replicate n (1, Go b)) s = Inr (s, [])" for n b
    using s(4,6) by (induction n) (auto simp: ring_step_def)
  moreover have "t \<noteq> 1 \<longleftrightarrow> pcs s t = Idle" for t
    using s(5,6) idle [of t] by (cases "t = 0"; cases "t = 1") auto
  ultimately show ?thesis using s(1,4) e by blast
qed

text \<open>Seen from outside, between calls, the non-blocking ring is a bounded queue: a consumer
  gets the oldest element or is told that the ring is empty, \<open>take\<close> publishes under the next
  number when there is room, and \<open>poll\<close> refuses when there is none.\<close>

theorem ring_solo_calls:
  assumes "ring_run (CircBuf_cfg sz MUTIL_THREADS NOBLOCK_WAIT_STRATEGY) cs (CircBuf dflt) = Inr (s, E)"
    "\<forall>t. pcs s t = Idle"
  shows
    "(out_seq s < in_seq s \<longrightarrow> (\<exists>n v s'. (out_seq s + 1, v) \<in> set (published E) \<and>
        ring_run (CircBuf_cfg sz MUTIL_THREADS NOBLOCK_WAIT_STRATEGY)
          ((t, StartGet False) # replicate n (t, Go False)) s = Inr (s', [Got (out_seq s + 1) v]) \<and>
        pcs s' t = Idle)) \<and>
     (out_seq s = in_seq s \<longrightarrow> (\<exists>n s'.
        ring_run (CircBuf_cfg sz MUTIL_THREADS NOBLOCK_WAIT_STRATEGY)
          ((t, StartGet False) # replicate n (t, Go False)) s = Inr (s', [Empty]) \<and> pcs s' t = Idle)) \<and>
     (in_seq s < out_seq s + int (unat (CircBuf_size sz)) \<longrightarrow> (\<exists>n s'.
        ring_run (CircBuf_cfg sz MUTIL_THREADS NOBLOCK_WAIT_STRATEGY)
          ((t, StartPut x True) # replicate n (t, Go False)) s = Inr (s', [Published (in_seq s + 1) x]) \<and>
        pcs s' t = Idle)) \<and>
     (in_seq s = out_seq s + int (unat (CircBuf_size sz)) \<longrightarrow> (\<exists>n s'.
        ring_run (CircBuf_cfg sz MUTIL_THREADS NOBLOCK_WAIT_STRATEGY)
          ((t, StartPut x False) # replicate n (t, Go False)) s = Inr (s', [Refused]) \<and> pcs s' t = Idle))"
proof -
  let ?c = "CircBuf_cfg sz MUTIL_THREADS NOBLOCK_WAIT_STRATEGY"
  have "\<forall>(t, c) \<in> set cs. choice_ok ?c 0 t c"
    by (auto simp: choice_ok_def CircBuf_cfg_def split: choice.splits)
  then have h: "hist_inv ?c 0 s E"
    using assms(1) by (auto elim: ring_run_hist [where dflt = dflt])
  note q = quiet_slots [OF h assms(2)]
  have c: "csize ?c = unat (CircBuf_size sz)" "production ?c = MUTIL_THREADS"
    "wait_strategy ?c = NOBLOCK_WAIT_STRATEGY" "get_in_seq ?c s' = in_seq s'" for s' :: "'a circ"
    by (simp_all add: CircBuf_cfg_def get_in_seq_def)
  show ?thesis
    using q solo_get [OF c(2,3), of s t] solo_empty [OF c(2,3), of s t]
      solo_take [OF c(2,3), of s t x] solo_refuse [OF c(2,3), of s t x] assms(2)
    unfolding c by blast
qed

theorem ring_solo_calls_witness:
  "\<exists>n s'. ring_run (CircBuf_cfg 2 MUTIL_THREADS NOBLOCK_WAIT_STRATEGY)
     ((3, StartPut 7 True) # replicate n (3, Go False)) (CircBuf (0 :: nat)) = Inr (s', [Published 0 7]) \<and>
   pcs s' 3 = Idle"
proof -
  have "CircBuf_size 2 = 2" by code_simp
  then show ?thesis
    using ring_solo_calls [of 2 "[]" 0 "CircBuf (0 :: nat)" "[]" 3 7] by (simp add: CircBuf_def)
qed

end
