(* ===== verification/Config_Parser.thy ===== *)
theory Config_Parser
  imports Prelude
begin

text \<open>
  The configuration file parser of \<open>config_parser.cpp\<close>. The contents are a character list;
  \<open>contents_[pos]\<close> is the terminating NUL at the length and a fault beyond it. All scanning loops
  of the file are instances of \<open>scan_while\<close>. One round of the main loop of \<open>ParseConfig\<close> is
  \<open>parse_step\<close>; the loop ends because every round that goes on has moved forward.
\<close>

section \<open>Characters\<close>

definition NUL :: char where "NUL = CHR 0x00"
definition TAB :: char where "TAB = CHR 0x09"
definition NL :: char where "NL = CHR 0x0A"

text \<open>The C locale's \<open>isspace\<close>, \<open>isdigit\<close>, \<open>isalpha\<close>.\<close>

definition isspace :: "char \<Rightarrow> bool" where
  "isspace c \<longleftrightarrow> c = CHR '' '' \<or> 9 \<le> (of_char c :: nat) \<and> (of_char c :: nat) \<le> 13"

definition isdigit :: "char \<Rightarrow> bool" where
  "isdigit c \<longleftrightarrow> 48 \<le> (of_char c :: nat) \<and> (of_char c :: nat) \<le> 57"

definition isalpha :: "char \<Rightarrow> bool" where
  "isalpha c \<longleftrightarrow>
     65 \<le> (of_char c :: nat) \<and> (of_char c :: nat) \<le> 90 \<or> 97 \<le> (of_char c :: nat) \<and> (of_char c :: nat) \<le> 122"

definition is_name_char :: "char \<Rightarrow> bool" where
  "is_name_char c \<longleftrightarrow> isalpha c \<or> isdigit c \<or> c = CHR ''_''"

section \<open>Scanning\<close>

definition char_at :: "string \<Rightarrow> nat \<Rightarrow> char res" where
  "char_at s pos =
     (if pos < length s then Inr (s ! pos) else if pos = length s then Inr NUL else Inl OutOfBounds)"

function scan_while :: "(char \<Rightarrow> bool) \<Rightarrow> string \<Rightarrow> nat \<Rightarrow> nat res" where
  "scan_while P s pos =
     (case char_at s pos of
        Inl e \<Rightarrow> Inl e
      | Inr c \<Rightarrow> if P c then scan_while P s (pos + 1) else Inr pos)"
  by pat_completeness auto
termination
  by (relation "measure (\<lambda>(P, s, pos). Suc (length s) - pos)") (auto simp: char_at_def split: if_splits)

declare scan_while.simps [simp del]

definition ParseSectionName :: "string \<Rightarrow> nat \<Rightarrow> nat res" where
  "ParseSectionName s pos = scan_while is_name_char s pos"

definition ParseKeyName :: "string \<Rightarrow> nat \<Rightarrow> nat res" where
  "ParseKeyName s pos = scan_while is_name_char s pos"

definition SkipSpace :: "string \<Rightarrow> nat \<Rightarrow> nat res" where
  "SkipSpace s pos = scan_while (\<lambda>c. c = CHR '' '' \<or> c = TAB) s pos"

text \<open>\<open>CountLine\<close> looks at the characters up to and with \<open>end_pos\<close>.\<close>

function count_lines_from :: "string \<Rightarrow> nat \<Rightarrow> nat \<Rightarrow> nat \<Rightarrow> nat res" where
  "count_lines_from s end_pos pos line =
     (if pos \<le> end_pos
      then bind_res (char_at s pos) (\<lambda>c.
             count_lines_from s end_pos (pos + 1) (if c = NL then line + 1 else line))
      else Inr line)"
  by pat_completeness auto
termination
  by (relation "measure (\<lambda>(s, end_pos, pos, line). Suc end_pos - pos)") auto

declare count_lines_from.simps [simp del]

definition CountLine :: "string \<Rightarrow> nat \<Rightarrow> nat res" where
  "CountLine s end_pos = count_lines_from s end_pos 0 1"

section \<open>ParseConfig\<close>

type_synonym config_kv = "string \<Rightarrow> (string \<Rightarrow> string option) option"

text \<open>The error messages, with the line they report.\<close>

datatype parse_error =
    UnrecognizedSection nat
  | DuplicatedSection string nat
  | ExpectBracket nat
  | NoSection nat
  | UnrecognizedKey nat
  | ExpectEquals nat
  | ExpectValue nat
  | UnrecognizedChar char nat

record parse_state =
  ppos :: nat
  cur_section :: string
  kv :: config_kv

datatype step_result = Again parse_state | Parsed config_kv | Rejected parse_error config_kv

definition substr :: "string \<Rightarrow> nat \<Rightarrow> nat \<Rightarrow> string" where
  "substr s pos n = take n (drop pos s)"

definition rejected :: "(nat \<Rightarrow> parse_error) \<Rightarrow> string \<Rightarrow> nat \<Rightarrow> config_kv \<Rightarrow> step_result res" where
  "rejected err s pos m = bind_res (CountLine s pos) (\<lambda>line. Inr (Rejected (err line) m))"

text \<open>\<open>config_kv_[section][key] = value\<close>.\<close>

definition set_item :: "string \<Rightarrow> string \<Rightarrow> string \<Rightarrow> config_kv \<Rightarrow> config_kv" where
  "set_item sec key v m =
     m(sec \<mapsto> (case m sec of None \<Rightarrow> Map.empty | Some k \<Rightarrow> k)(key \<mapsto> v))"

definition parse_section :: "string \<Rightarrow> nat \<Rightarrow> config_kv \<Rightarrow> step_result res" where
  "parse_section s pos m =
     bind_res (scan_while (\<lambda>c. c = CHR '' '') s (pos + 1)) (\<lambda>pos.
     bind_res (ParseSectionName s pos) (\<lambda>section_name_end_pos.
     if section_name_end_pos = pos then rejected UnrecognizedSection s section_name_end_pos m
     else
       let sec = substr s pos (section_name_end_pos - pos)
       in if m sec \<noteq> None then rejected (DuplicatedSection sec) s pos m
          else
            let m = m(sec \<mapsto> Map.empty)
            in bind_res (SkipSpace s section_name_end_pos) (\<lambda>pos.
               bind_res (char_at s pos) (\<lambda>c.
               if c \<noteq> CHR '']'' then rejected ExpectBracket s pos m
               else Inr (Again \<lparr>ppos = pos + 1, cur_section = sec, kv = m\<rparr>)))))"

definition parse_item :: "string \<Rightarrow> nat \<Rightarrow> string \<Rightarrow> config_kv \<Rightarrow> step_result res" where
  "parse_item s pos sec m =
     (if sec = [] then rejected NoSection s pos m
      else bind_res (ParseKeyName s pos) (\<lambda>key_name_end_pos.
           if key_name_end_pos = pos then rejected UnrecognizedKey s key_name_end_pos m
           else
             let key = substr s pos (key_name_end_pos - pos); temp_pos = pos
             in bind_res (SkipSpace s key_name_end_pos) (\<lambda>pos.
                bind_res (char_at s pos) (\<lambda>c.
                if c \<noteq> CHR ''='' then rejected ExpectEquals s temp_pos m
                else
                  let temp_pos = pos
                  in bind_res (SkipSpace s (pos + 1)) (\<lambda>pos.
                     bind_res (scan_while (\<lambda>c. \<not> isspace c \<and> c \<noteq> NUL) s pos) (\<lambda>value_end_pos.
                     if value_end_pos = pos then rejected ExpectValue s temp_pos m
                     else Inr (Again \<lparr>ppos = value_end_pos, cur_section = sec,
                            kv = set_item sec key (substr s pos (value_end_pos - pos)) m\<rparr>)))))))"

definition parse_step :: "string \<Rightarrow> parse_state \<Rightarrow> step_result res" where
  "parse_step s st =
     bind_res (scan_while isspace s (ppos st)) (\<lambda>pos.
     bind_res (char_at s pos) (\<lambda>c.
     if c = NUL then Inr (Parsed (kv st))
     else if c = CHR ''#'' then
       bind_res (scan_while (\<lambda>c. c \<noteq> NL \<and> c \<noteq> NUL) s pos) (\<lambda>pos. Inr (Again (st\<lparr>ppos := pos\<rparr>)))
     else if c = CHR ''['' then parse_section s pos (kv st)
     else if is_name_char c then parse_item s pos (cur_section st) (kv st)
     else rejected (UnrecognizedChar c) s pos (kv st)))"

section \<open>Scanning stays inside and moves forward\<close>

lemma char_at_inside: "pos \<le> length s \<Longrightarrow> \<exists>c. char_at s pos = Inr c"
  by (simp add: char_at_def)

lemma char_at_not_NUL: "char_at s pos = Inr c \<Longrightarrow> c \<noteq> NUL \<Longrightarrow> pos < length s"
  by (simp add: char_at_def split: if_splits)

lemma scan_while_inside:
  assumes "pos \<le> length s" "\<not> P NUL"
  shows "\<exists>q c. scan_while P s pos = Inr q \<and> pos \<le> q \<and> q \<le> length s \<and> char_at s q = Inr c \<and> \<not> P c"
  using assms
proof (induction "length s - pos" arbitrary: pos)
  case 0
  then show ?case by (subst scan_while.simps) (auto simp: char_at_def scan_while.simps [of P s pos])
next
  case (Suc d)
  then have l: "pos < length s" by simp
  show ?case
  proof (cases "P (s ! pos)")
    case True
    obtain q c where "scan_while P s (pos + 1) = Inr q" "pos + 1 \<le> q" "q \<le> length s"
      "char_at s q = Inr c" "\<not> P c"
      using Suc.hyps(1) [of "pos + 1"] Suc.hyps(2) Suc.prems(2) l
      by (metis Suc_eq_plus1 Suc_leI diff_Suc_eq_diff_pred diff_Suc_1 Suc_diff_Suc)
    then show ?thesis using True l by (subst scan_while.simps) (auto simp: char_at_def)
  next
    case False
    then show ?thesis using l by (subst scan_while.simps) (auto simp: char_at_def)
  qed
qed

lemma scan_while_step:
  "char_at s pos = Inr c \<Longrightarrow> P c \<Longrightarrow> scan_while P s pos = scan_while P s (pos + 1)"
  by (subst scan_while.simps) simp

lemma class_NUL [simp]: "\<not> isspace NUL" "\<not> is_name_char NUL" "NUL \<noteq> CHR '' ''" "NUL \<noteq> TAB"
  by (simp_all add: isspace_def is_name_char_def isalpha_def isdigit_def NUL_def TAB_def)

lemma CountLine_inside: "end_pos \<le> length s \<Longrightarrow> \<exists>n. CountLine s end_pos = Inr n"
proof -
  assume e: "end_pos \<le> length s"
  have "\<exists>n. count_lines_from s end_pos pos line = Inr n" for pos line
    using e
  proof (induction s end_pos pos line rule: count_lines_from.induct)
    case (1 s end_pos pos line)
    then show ?case
      using char_at_inside [of pos s] by (subst count_lines_from.simps) auto
  qed
  then show ?thesis by (simp add: CountLine_def)
qed

lemma rejected_inside: "pos \<le> length s \<Longrightarrow> \<exists>n. rejected err s pos m = Inr (Rejected (err n) m)"
  using CountLine_inside [of pos s] by (auto simp: rejected_def)

text \<open>What one round can return.\<close>

definition round_ok :: "string \<Rightarrow> nat \<Rightarrow> step_result res \<Rightarrow> bool" where
  "round_ok s pos r \<longleftrightarrow>
     (\<exists>st. r = Inr (Again st) \<and> pos < ppos st \<and> ppos st \<le> length s) \<or>
     (\<exists>m. r = Inr (Parsed m)) \<or> (\<exists>e m. r = Inr (Rejected e m))"

lemma round_ok_rejected: "pos' \<le> length s \<Longrightarrow> round_ok s pos (rejected err s pos' m)"
  using rejected_inside [of pos' s err m] by (auto simp: round_ok_def)

lemma parse_section_round:
  assumes "char_at s pos = Inr (CHR ''['')"
  shows "round_ok s pos (parse_section s pos m)"
proof -
  have l: "pos < length s" using char_at_not_NUL [OF assms] by (simp add: NUL_def)
  obtain p1 where p1: "scan_while (\<lambda>c. c = CHR '' '') s (pos + 1) = Inr p1" "pos + 1 \<le> p1" "p1 \<le> length s"
    using scan_while_inside [of "pos + 1" s "\<lambda>c. c = CHR '' ''"] l by auto
  obtain p2 where p2: "ParseSectionName s p1 = Inr p2" "p1 \<le> p2" "p2 \<le> length s"
    using scan_while_inside [of p1 s is_name_char] p1(3) by (auto simp: ParseSectionName_def)
  obtain p3 where p3: "SkipSpace s p2 = Inr p3" "p2 \<le> p3" "p3 \<le> length s"
    using scan_while_inside [of p2 s "\<lambda>c. c = CHR '' '' \<or> c = TAB"] p2(3) by (auto simp: SkipSpace_def)
  obtain c where c: "char_at s p3 = Inr c" using char_at_inside [OF p3(3)] by blast
  show ?thesis
    using p1 p2 p3 c char_at_not_NUL [OF c]
    by (auto simp: parse_section_def Let_def intro!: round_ok_rejected)
      (auto simp: round_ok_def NUL_def)
qed

lemma parse_item_round:
  assumes "char_at s pos = Inr c" "is_name_char c"
  shows "round_ok s pos (parse_item s pos sec m)"
proof -
  have "c \<noteq> NUL" using assms(2) by (metis class_NUL(2))
  then have l: "pos < length s" by (rule char_at_not_NUL [OF assms(1)])
  obtain p1 where p1: "ParseKeyName s pos = Inr p1" "pos \<le> p1" "p1 \<le> length s"
    using scan_while_inside [of pos s is_name_char] l by (auto simp: ParseKeyName_def)
  obtain p2 where p2: "SkipSpace s p1 = Inr p2" "p1 \<le> p2" "p2 \<le> length s"
    using scan_while_inside [of p1 s "\<lambda>c. c = CHR '' '' \<or> c = TAB"] p1(3) by (auto simp: SkipSpace_def)
  obtain c2 where c2: "char_at s p2 = Inr c2" using char_at_inside [OF p2(3)] by blast
  have eq: "p2 < length s" if "c2 = CHR ''=''" using char_at_not_NUL [OF c2] that by (simp add: NUL_def)
  show ?thesis
  proof (cases "c2 = CHR ''=''")
    case False
    then show ?thesis
      using p1 p2 c2 l by (auto simp: parse_item_def Let_def intro!: round_ok_rejected)
  next
    case True
    obtain p3 where p3: "SkipSpace s (p2 + 1) = Inr p3" "p2 + 1 \<le> p3" "p3 \<le> length s"
      using scan_while_inside [of "p2 + 1" s "\<lambda>c. c = CHR '' '' \<or> c = TAB"] eq [OF True]
      by (auto simp: SkipSpace_def)
    obtain p4 where p4: "scan_while (\<lambda>c. \<not> isspace c \<and> c \<noteq> NUL) s p3 = Inr p4" "p3 \<le> p4" "p4 \<le> length s"
      using scan_while_inside [of p3 s "\<lambda>c. \<not> isspace c \<and> c \<noteq> NUL"] p3(3) by auto
    show ?thesis
      using True p1 p2 p3 p4 c2 l
      by (auto simp: parse_item_def Let_def intro!: round_ok_rejected) (auto simp: round_ok_def)
  qed
qed

lemma round_ok_weaken: "round_ok s pos' r \<Longrightarrow> pos \<le> pos' \<Longrightarrow> round_ok s pos r"
  by (auto simp: round_ok_def)

lemma parse_step_round:
  assumes "ppos st \<le> length s"
  shows "round_ok s (ppos st) (parse_step s st)"
proof -
  obtain p c where p: "scan_while isspace s (ppos st) = Inr p" "ppos st \<le> p" "p \<le> length s"
    "char_at s p = Inr c"
    using scan_while_inside [of "ppos st" s isspace] assms by auto
  consider "c = NUL" | "c = CHR ''#''" | "c = CHR ''[''" | "c \<noteq> NUL" "c \<noteq> CHR ''#''" "c \<noteq> CHR ''[''"
    by blast
  then show ?thesis
  proof cases
    case 1
    then show ?thesis using p by (auto simp: parse_step_def round_ok_def)
  next
    case 2
    then have l: "p < length s" using char_at_not_NUL [OF p(4)] by (simp add: NUL_def)
    then obtain q where "scan_while (\<lambda>c. c \<noteq> NL \<and> c \<noteq> NUL) s (p + 1) = Inr q" "p + 1 \<le> q" "q \<le> length s"
      using scan_while_inside [of "p + 1" s "\<lambda>c. c \<noteq> NL \<and> c \<noteq> NUL"] by auto
    moreover have "scan_while (\<lambda>c. c \<noteq> NL \<and> c \<noteq> NUL) s p = scan_while (\<lambda>c. c \<noteq> NL \<and> c \<noteq> NUL) s (p + 1)"
      by (rule scan_while_step [OF p(4)]) (simp add: 2 NL_def NUL_def)
    ultimately show ?thesis using p 2 by (auto simp: parse_step_def round_ok_def NUL_def)
  next
    case 3
    then show ?thesis
      using p round_ok_weaken [OF parse_section_round p(2)] by (auto simp: parse_step_def NUL_def)
  next
    case 4
    then show ?thesis
      using p round_ok_weaken [OF parse_item_round p(2)] round_ok_rejected [OF p(3)]
      by (auto simp: parse_step_def)
  qed
qed

section \<open>The loop\<close>

function parse_loop :: "string \<Rightarrow> parse_state \<Rightarrow> (parse_error option \<times> config_kv) res" where
  "parse_loop s st =
     (if ppos st > length s then Inl OutOfBounds
      else case parse_step s st of
             Inl e \<Rightarrow> Inl e
           | Inr (Again st') \<Rightarrow> parse_loop s st'
           | Inr (Parsed m) \<Rightarrow> Inr (None, m)
           | Inr (Rejected e m) \<Rightarrow> Inr (Some e, m))"
  by pat_completeness auto
termination
proof (relation "measure (\<lambda>(s, st). length s - ppos st)", goal_cases)
  case (2 s st r st')
  then show ?case using parse_step_round [of st s] by (auto simp: round_ok_def)
qed simp

declare parse_loop.simps [simp del]

text \<open>\<open>ParseConfig\<close>: \<open>None\<close> is the result \<open>true\<close>, \<open>Some e\<close> the result \<open>false\<close> with the message
  logged. The map is an object member: it starts with what earlier calls left in it, and keeps
  what was stored before an error.\<close>

definition ParseConfig :: "string \<Rightarrow> config_kv \<Rightarrow> (parse_error option \<times> config_kv) res" where
  "ParseConfig contents m = parse_loop contents \<lparr>ppos = 0, cur_section = [], kv = m\<rparr>"

section \<open>GetItem\<close>

text \<open>The results are the return value and what is left in \<open>*value\<close>.\<close>

definition GetItem :: "config_kv \<Rightarrow> string \<Rightarrow> string \<Rightarrow> string \<Rightarrow> bool \<times> string" where
  "GetItem m sec key v =
     (case m sec of
        None \<Rightarrow> (False, v)
      | Some k \<Rightarrow> (case k key of None \<Rightarrow> (False, v) | Some v' \<Rightarrow> (True, v')))"

definition GetItem_default :: "config_kv \<Rightarrow> string \<Rightarrow> string \<Rightarrow> string \<Rightarrow> string \<Rightarrow> bool \<times> string" where
  "GetItem_default m sec key v default_value =
     (case GetItem m sec key v of (ret, v) \<Rightarrow> (ret, if \<not> ret then default_value else v))"

text \<open>\<open>atoi\<close> of the C library: leading white space, a sign, digits up to the first other
  character. Numbers that do not fit in an \<open>int\<close> have no defined result there; here they are
  what they say.\<close>

fun digits_value :: "int \<Rightarrow> string \<Rightarrow> int" where
  "digits_value acc [] = acc"
| "digits_value acc (c # cs) =
     (if isdigit c then digits_value (10 * acc + int (of_char c - 48)) cs else acc)"

definition atoi :: "string \<Rightarrow> int" where
  "atoi s =
     (case dropWhile isspace s of
        [] \<Rightarrow> 0
      | c # cs \<Rightarrow> if c = CHR ''-'' then - digits_value 0 cs
                  else if c = CHR ''+'' then digits_value 0 cs
                  else digits_value 0 (c # cs))"

definition GetItem_int :: "config_kv \<Rightarrow> string \<Rightarrow> string \<Rightarrow> int \<Rightarrow> bool \<times> int" where
  "GetItem_int m sec key v =
     (case GetItem m sec key [] of (ret, temp_value) \<Rightarrow> (ret, if ret then atoi temp_value else v))"

definition GetItem_int_default :: "config_kv \<Rightarrow> string \<Rightarrow> string \<Rightarrow> int \<Rightarrow> int \<Rightarrow> bool \<times> int" where
  "GetItem_int_default m sec key v default_value =
     (case GetItem_int m sec key v of (ret, v) \<Rightarrow> (ret, if \<not> ret then default_value else v))"

text \<open>\<open>Init\<close>, with the file as read by \<open>ReadFile\<close> (\<open>None\<close> when that failed).\<close>

definition ConfigParser_Init :: "string option \<Rightarrow> config_kv \<Rightarrow> (bool \<times> config_kv) res" where
  "ConfigParser_Init file m =
     (case file of
        None \<Rightarrow> Inr (False, m)
      | Some contents \<Rightarrow> bind_res (ParseConfig contents m) (\<lambda>(e, m). Inr (e = None, m)))"

section \<open>What a configuration text means\<close>

text \<open>The texts the parser is meant for: any mix of white space, comments, sections and items with
  blanks where the parser allows them.\<close>

datatype item =
    Blank string
  | Comment string
  | Sect string string string
  | KeyVal string string string string char

definition render_item :: "item \<Rightarrow> string" where
  "render_item i =
     (case i of
        Blank w \<Rightarrow> w
      | Comment t \<Rightarrow> CHR ''#'' # t @ [NL]
      | Sect a n b \<Rightarrow> CHR ''['' # a @ n @ b @ [CHR '']'']
      | KeyVal k a b v e \<Rightarrow> k @ a @ CHR ''='' # b @ v @ [e])"

definition render :: "item list \<Rightarrow> string" where
  "render is = concat (map render_item is)"

definition blank_char :: "char \<Rightarrow> bool" where
  "blank_char c \<longleftrightarrow> c = CHR '' '' \<or> c = TAB"

definition value_char :: "char \<Rightarrow> bool" where
  "value_char c \<longleftrightarrow> \<not> isspace c \<and> c \<noteq> NUL"

definition item_ok :: "item \<Rightarrow> bool" where
  "item_ok i \<longleftrightarrow>
     (case i of
        Blank w \<Rightarrow> list_all isspace w
      | Comment t \<Rightarrow> list_all (\<lambda>c. c \<noteq> NL \<and> c \<noteq> NUL) t
      | Sect a n b \<Rightarrow> list_all (\<lambda>c. c = CHR '' '') a \<and> n \<noteq> [] \<and> list_all is_name_char n \<and> list_all blank_char b
      | KeyVal k a b v e \<Rightarrow> k \<noteq> [] \<and> list_all is_name_char k \<and> list_all blank_char a \<and> list_all blank_char b \<and>
          v \<noteq> [] \<and> list_all value_char v \<and> isspace e)"

definition newlines :: "string \<Rightarrow> nat" where
  "newlines s = length (filter (\<lambda>c. c = NL) s)"

text \<open>The meaning of a text that starts on the given line: the map, or the first error.\<close>

fun meaning :: "nat \<Rightarrow> string \<Rightarrow> config_kv \<Rightarrow> item list \<Rightarrow> parse_error option \<times> config_kv" where
  "meaning line sec m [] = (None, m)"
| "meaning line sec m (Blank w # is) = meaning (line + newlines w) sec m is"
| "meaning line sec m (Comment t # is) = meaning (line + 1) sec m is"
| "meaning line sec m (Sect a n b # is) =
     (if m n \<noteq> None then (Some (DuplicatedSection n line), m)
      else meaning line n (m(n \<mapsto> Map.empty)) is)"
| "meaning line sec m (KeyVal k a b v e # is) =
     (if sec = [] then (Some (NoSection line), m)
      else meaning (line + newlines [e]) sec (set_item sec k v m) is)"

section \<open>Parsing a rendered text\<close>

lemma char_at_append: "char_at (pre @ rest) (length pre) = Inr (hd (rest @ [NUL]))"
  by (cases rest) (auto simp: char_at_def nth_append)

lemma scan_while_append:
  assumes "list_all P xs" "\<not> P (hd (rest @ [NUL]))"
  shows "scan_while P (pre @ xs @ rest) (length pre) = Inr (length pre + length xs)"
  using assms(1)
proof (induction xs arbitrary: pre)
  case Nil
  then show ?case using assms(2) char_at_append [of pre rest] by (subst scan_while.simps) simp
next
  case (Cons x xs)
  then have "P x" by simp
  have "scan_while P (pre @ (x # xs) @ rest) (length pre) = scan_while P (pre @ (x # xs) @ rest) (length pre + 1)"
    by (rule scan_while_step [of _ _ x]) (use \<open>P x\<close> in \<open>simp_all add: char_at_append\<close>)
  also have "\<dots> = scan_while P ((pre @ [x]) @ xs @ rest) (length (pre @ [x]))" by simp
  also have "\<dots> = Inr (length (pre @ [x]) + length xs)" using Cons by (intro Cons.IH) simp
  finally show ?case by simp
qed

lemma count_lines_from_take:
  "end_pos < length s \<Longrightarrow> pos \<le> Suc end_pos \<Longrightarrow>
   count_lines_from s end_pos pos line = Inr (line + newlines (take (Suc end_pos - pos) (drop pos s)))"
proof (induction s end_pos pos line rule: count_lines_from.induct)
  case (1 s end_pos pos line)
  show ?case
  proof (cases "pos \<le> end_pos")
    case True
    have "take (Suc end_pos - pos) (drop pos s) = s ! pos # take (Suc end_pos - Suc pos) (drop (Suc pos) s)"
      using True 1(2) by (simp add: Cons_nth_drop_Suc [symmetric] Suc_diff_le)
    then show ?thesis
      using True 1 by (subst count_lines_from.simps) (auto simp: char_at_def newlines_def)
  next
    case False
    then show ?thesis using 1(3) by (subst count_lines_from.simps) (simp add: newlines_def)
  qed
qed

lemma newlines_append [simp]: "newlines (xs @ ys) = newlines xs + newlines ys"
  by (simp add: newlines_def)

lemma newlines_none: "list_all (\<lambda>c. c \<noteq> NL) xs \<Longrightarrow> newlines xs = 0"
  by (simp add: newlines_def list_all_iff)

lemma CountLine_append:
  assumes "c \<noteq> NL"
  shows "CountLine (pre @ c # rest) (length pre) = Inr (1 + newlines pre)"
  using count_lines_from_take [of "length pre" "pre @ c # rest" 0 1] assms
  by (simp add: CountLine_def newlines_def)

lemma char_classes:
  "is_name_char c \<Longrightarrow> \<not> isspace c" "is_name_char c \<Longrightarrow> \<not> blank_char c" "is_name_char c \<Longrightarrow> c \<noteq> NL"
  "is_name_char c \<Longrightarrow> c \<noteq> CHR ''#''" "is_name_char c \<Longrightarrow> c \<noteq> CHR ''[''"  "is_name_char c \<Longrightarrow> c \<noteq> CHR '' ''"
  "value_char c \<Longrightarrow> \<not> blank_char c" "blank_char c \<Longrightarrow> \<not> is_name_char c" "isspace NL" "\<not> value_char NL"
  "\<not> isspace (CHR ''#'')" "\<not> isspace (CHR ''['')" "\<not> is_name_char (CHR '']'')" "\<not> is_name_char (CHR ''='')"
  "\<not> blank_char (CHR '']'')" "\<not> blank_char (CHR ''='')"
  by (auto simp: isspace_def is_name_char_def isalpha_def isdigit_def blank_char_def value_char_def NL_def TAB_def)

lemma SkipSpace_append:
  "list_all blank_char xs \<Longrightarrow> \<not> blank_char (hd (rest @ [NUL])) \<Longrightarrow>
   SkipSpace (pre @ xs @ rest) (length pre) = Inr (length pre + length xs)"
  unfolding SkipSpace_def blank_char_def by (rule scan_while_append)

lemma substr_append: "substr (pre @ xs @ rest) (length pre) (length xs) = xs"
  by (simp add: substr_def)

lemma list_all_hd: "list_all P xs \<Longrightarrow> xs \<noteq> [] \<Longrightarrow> P (hd (xs @ ys))"
  by (cases xs) auto

lemma skip_blank_step:
  assumes "list_all isspace w"
  shows "parse_step (pre @ w @ rest) \<lparr>ppos = length pre, cur_section = sec, kv = m\<rparr> =
    parse_step (pre @ w @ rest) \<lparr>ppos = length pre + length w, cur_section = sec, kv = m\<rparr>"
proof -
  have "scan_while isspace (pre @ w @ rest) (length pre) =
      scan_while isspace (pre @ w @ rest) (length pre + length w)"
    using assms
  proof (induction w arbitrary: pre)
    case (Cons x xs)
    have "scan_while isspace (pre @ (x # xs) @ rest) (length pre) =
        scan_while isspace (pre @ (x # xs) @ rest) (length pre + 1)"
      by (rule scan_while_step [of _ _ x]) (use Cons.prems in \<open>simp_all add: char_at_append\<close>)
    also have "\<dots> = scan_while isspace ((pre @ [x]) @ xs @ rest) (length (pre @ [x]))" by simp
    also have "\<dots> = scan_while isspace ((pre @ [x]) @ xs @ rest) (length (pre @ [x]) + length xs)"
      using Cons by (intro Cons.IH) simp
    finally show ?case by simp
  qed simp
  then show ?thesis by (simp add: parse_step_def cong: if_cong)
qed

lemma skip_blank_loop:
  assumes "list_all isspace w"
  shows "parse_loop (pre @ w @ rest) \<lparr>ppos = length pre, cur_section = sec, kv = m\<rparr> =
    parse_loop ((pre @ w) @ rest) \<lparr>ppos = length (pre @ w), cur_section = sec, kv = m\<rparr>"
  using skip_blank_step [OF assms, of pre rest sec m]
  by (simp add: parse_loop.simps [of "pre @ w @ rest"])

text \<open>One round at the beginning of a comment, a section and an item.\<close>

lemma no_space_here: "\<not> isspace c \<Longrightarrow> scan_while isspace (pre @ c # rest) (length pre) = Inr (length pre)"
  using scan_while_append [of isspace "[]" "c # rest" pre] by simp

lemma char_here: "char_at (pre @ c # rest) (length pre) = Inr c"
  using char_at_append [of pre "c # rest"] by simp

lemma comment_round:
  assumes "list_all (\<lambda>c. c \<noteq> NL \<and> c \<noteq> NUL) t"
  shows "parse_step (pre @ (CHR ''#'' # t @ [NL]) @ rest) \<lparr>ppos = length pre, cur_section = sec, kv = m\<rparr> =
    Inr (Again \<lparr>ppos = length (pre @ CHR ''#'' # t), cur_section = sec, kv = m\<rparr>)"
proof -
  have "scan_while (\<lambda>c. c \<noteq> NL \<and> c \<noteq> NUL) (pre @ (CHR ''#'' # t) @ NL # rest) (length pre) =
      Inr (length pre + length (CHR ''#'' # t))"
    by (rule scan_while_append) (use assms in \<open>simp_all add: NL_def NUL_def\<close>)
  then show ?thesis
    using no_space_here [OF char_classes(11), of pre "t @ NL # rest"] char_here [of pre "CHR ''#''" "t @ NL # rest"]
    by (simp add: parse_step_def NUL_def)
qed

lemma section_round:
  assumes "list_all (\<lambda>c. c = CHR '' '') a" "n \<noteq> []" "list_all is_name_char n" "list_all blank_char b"
  shows "parse_step (pre @ (CHR ''['' # a @ n @ b @ [CHR '']'']) @ rest)
      \<lparr>ppos = length pre, cur_section = sec, kv = m\<rparr> =
    (if m n \<noteq> None then Inr (Rejected (DuplicatedSection n (1 + newlines pre)) m)
     else Inr (Again \<lparr>ppos = length (pre @ CHR ''['' # a @ n @ b @ [CHR '']'']), cur_section = n,
            kv = m(n \<mapsto> Map.empty)\<rparr>))"
proof -
  let ?s = "pre @ (CHR ''['' # a @ n @ b @ [CHR '']'']) @ rest"
  have hn: "is_name_char (hd (n @ b @ CHR '']'' # rest))" "hd (n @ b @ CHR '']'' # rest) = hd n"
    using list_all_hd [OF assms(3,2)] assms(2) by simp_all
  have a: "scan_while (\<lambda>c. c = CHR '' '') ((pre @ [CHR ''['']) @ a @ (n @ b @ CHR '']'' # rest)) (length (pre @ [CHR ''[''])) =
      Inr (length (pre @ [CHR ''['']) + length a)"
    by (rule scan_while_append [OF assms(1)]) (use hn char_classes(6) assms(2) in auto)
  have hb: "\<not> is_name_char (hd ((b @ CHR '']'' # rest) @ [NUL]))"
    using list_all_hd [OF assms(4)] char_classes(8,13) by (cases "b = []") auto
  have nm: "ParseSectionName ((pre @ CHR ''['' # a) @ n @ (b @ CHR '']'' # rest)) (length (pre @ CHR ''['' # a)) =
      Inr (length (pre @ CHR ''['' # a) + length n)"
    unfolding ParseSectionName_def by (rule scan_while_append [OF assms(3) hb])
  have b: "SkipSpace ((pre @ CHR ''['' # a @ n) @ b @ (CHR '']'' # rest)) (length (pre @ CHR ''['' # a @ n)) =
      Inr (length (pre @ CHR ''['' # a @ n) + length b)"
    by (rule SkipSpace_append [OF assms(4)]) (use char_classes(15) in simp)
  have sub: "substr ((pre @ CHR ''['' # a) @ n @ (b @ CHR '']'' # rest)) (length (pre @ CHR ''['' # a)) (length n) = n"
    by (rule substr_append)
  have nl: "newlines a = 0"
    using assms(1) by (induction a) (simp_all add: newlines_def NL_def)
  obtain x xs where x: "n = x # xs" using assms(2) by (cases n) auto
  have "CountLine ((pre @ CHR ''['' # a) @ x # (xs @ b @ CHR '']'' # rest)) (length (pre @ CHR ''['' # a)) =
      Inr (1 + newlines (pre @ CHR ''['' # a))"
    by (rule CountLine_append) (use assms(3) x char_classes(3) in simp)
  moreover have "newlines (pre @ CHR ''['' # a) = newlines pre"
    using nl by (simp add: newlines_def NL_def)
  moreover have s_eq: "(pre @ CHR ''['' # a) @ x # (xs @ b @ CHR '']'' # rest) = ?s"
    using x by simp
  ultimately have line: "CountLine ?s (length (pre @ CHR ''['' # a)) = Inr (1 + newlines pre)"
    by (simp only:)
  have close: "char_at ((pre @ CHR ''['' # a @ n @ b) @ CHR '']'' # rest) (length (pre @ CHR ''['' # a @ n @ b)) = Inr (CHR '']'')"
    by (rule char_here)
  define p1 where "p1 = length (pre @ CHR ''['' # a)"
  define p2 where "p2 = length (pre @ CHR ''['' # a @ n)"
  define p3 where "p3 = length (pre @ CHR ''['' # a @ n @ b)"
  have f: "scan_while (\<lambda>c. c = CHR '' '') ?s (length pre + 1) = Inr p1" "ParseSectionName ?s p1 = Inr p2"
    "SkipSpace ?s p2 = Inr p3" "substr ?s p1 (p2 - p1) = n" "CountLine ?s p1 = Inr (1 + newlines pre)"
    "char_at ?s p3 = Inr (CHR '']'')" "p2 \<noteq> p1"
    "p3 + 1 = length (pre @ CHR ''['' # a @ n @ b @ [CHR '']''])"
    using a nm b sub line close assms(2) by (simp_all add: p1_def p2_def p3_def add.assoc)
  have sec: "parse_section ?s (length pre) m =
      (if m n \<noteq> None then Inr (Rejected (DuplicatedSection n (1 + newlines pre)) m)
       else Inr (Again \<lparr>ppos = length (pre @ CHR ''['' # a @ n @ b @ [CHR '']'']), cur_section = n,
              kv = m(n \<mapsto> Map.empty)\<rparr>))"
    unfolding parse_section_def rejected_def Let_def f(1) bind_res_simps f(2) f(3) f(4) f(5) f(6)
      f(8) [symmetric]
    using f(7) by simp
  show ?thesis
    using sec no_space_here [OF char_classes(12), of pre "a @ n @ b @ CHR '']'' # rest"]
      char_here [of pre "CHR ''[''" "a @ n @ b @ CHR '']'' # rest"]
    by (simp add: parse_step_def NUL_def)
qed

lemma item_round:
  assumes "k \<noteq> []" "list_all is_name_char k" "list_all blank_char a" "list_all blank_char b"
    "v \<noteq> []" "list_all value_char v" "isspace e"
  shows "parse_step (pre @ (k @ a @ CHR ''='' # b @ v @ [e]) @ rest)
      \<lparr>ppos = length pre, cur_section = sec, kv = m\<rparr> =
    (if sec = [] then Inr (Rejected (NoSection (1 + newlines pre)) m)
     else Inr (Again \<lparr>ppos = length (pre @ k @ a @ CHR ''='' # b @ v), cur_section = sec,
            kv = set_item sec k v m\<rparr>))"
proof -
  let ?s = "pre @ (k @ a @ CHR ''='' # b @ v @ [e]) @ rest"
  obtain x xs where x: "k = x # xs" using assms(1) by (cases k) auto
  have nx: "is_name_char x" using assms(2) x by simp
  have hk: "\<not> is_name_char (hd ((a @ CHR ''='' # b @ v @ e # rest) @ [NUL]))"
    using list_all_hd [OF assms(3)] char_classes(8,14) by (cases "a = []") auto
  have key: "ParseKeyName (pre @ k @ (a @ CHR ''='' # b @ v @ e # rest)) (length pre) =
      Inr (length pre + length k)"
    unfolding ParseKeyName_def by (rule scan_while_append [OF assms(2) hk])
  have a: "SkipSpace ((pre @ k) @ a @ (CHR ''='' # b @ v @ e # rest)) (length (pre @ k)) =
      Inr (length (pre @ k) + length a)"
    by (rule SkipSpace_append [OF assms(3)]) (use char_classes(16) in simp)
  have eq: "char_at ((pre @ k @ a) @ CHR ''='' # (b @ v @ e # rest)) (length (pre @ k @ a)) = Inr (CHR ''='')"
    by (rule char_here)
  have hv: "\<not> blank_char (hd ((v @ e # rest) @ [NUL]))"
    using list_all_hd [OF assms(6,5), of "e # rest @ [NUL]"] char_classes(7) by auto
  have b: "SkipSpace ((pre @ k @ a @ [CHR ''='']) @ b @ (v @ e # rest)) (length (pre @ k @ a @ [CHR ''=''])) =
      Inr (length (pre @ k @ a @ [CHR ''='']) + length b)"
    by (rule SkipSpace_append [OF assms(4) hv])
  have "scan_while value_char ((pre @ k @ a @ CHR ''='' # b) @ v @ (e # rest)) (length (pre @ k @ a @ CHR ''='' # b)) =
      Inr (length (pre @ k @ a @ CHR ''='' # b) + length v)"
    by (rule scan_while_append [OF assms(6)]) (use assms(7) in \<open>simp add: value_char_def\<close>)
  then have v: "scan_while (\<lambda>c. \<not> isspace c \<and> c \<noteq> NUL) ((pre @ k @ a @ CHR ''='' # b) @ v @ (e # rest))
      (length (pre @ k @ a @ CHR ''='' # b)) = Inr (length (pre @ k @ a @ CHR ''='' # b) + length v)"
    by (simp only: value_char_def [abs_def])
  have subk: "substr (pre @ k @ (a @ CHR ''='' # b @ v @ e # rest)) (length pre) (length k) = k"
    by (rule substr_append)
  have subv: "substr ((pre @ k @ a @ CHR ''='' # b) @ v @ (e # rest)) (length (pre @ k @ a @ CHR ''='' # b)) (length v) = v"
    by (rule substr_append)
  have "CountLine (pre @ x # (xs @ a @ CHR ''='' # b @ v @ e # rest)) (length pre) = Inr (1 + newlines pre)"
    by (rule CountLine_append) (use nx char_classes(3) in simp)
  then have line: "CountLine ?s (length pre) = Inr (1 + newlines pre)" using x by simp
  define p1 where "p1 = length (pre @ k)"
  define p2 where "p2 = length (pre @ k @ a)"
  define p3 where "p3 = length (pre @ k @ a @ CHR ''='' # b)"
  define p4 where "p4 = length (pre @ k @ a @ CHR ''='' # b @ v)"
  have f: "ParseKeyName ?s (length pre) = Inr p1" "SkipSpace ?s p1 = Inr p2" "char_at ?s p2 = Inr (CHR ''='')"
    "SkipSpace ?s (p2 + 1) = Inr p3" "scan_while (\<lambda>c. \<not> isspace c \<and> c \<noteq> NUL) ?s p3 = Inr p4"
    "substr ?s (length pre) (p1 - length pre) = k" "substr ?s p3 (p4 - p3) = v" "p1 \<noteq> length pre" "p4 \<noteq> p3"
    using key a eq b v subk subv assms(1,5) by (simp_all add: p1_def p2_def p3_def p4_def add.assoc)
  have it: "parse_item ?s (length pre) sec m =
      (if sec = [] then Inr (Rejected (NoSection (1 + newlines pre)) m)
       else Inr (Again \<lparr>ppos = length (pre @ k @ a @ CHR ''='' # b @ v), cur_section = sec,
            kv = set_item sec k v m\<rparr>))"
    unfolding parse_item_def rejected_def Let_def f(1) bind_res_simps f(2) f(3) f(4) f(5) f(6) f(7) line
      p4_def [symmetric]
    using f(8,9) by simp
  have "x \<noteq> NUL" using nx by (metis class_NUL(2))
  then show ?thesis
    using it no_space_here [OF char_classes(1) [OF nx], of pre "xs @ a @ CHR ''='' # b @ v @ e # rest"]
      char_here [of pre x "xs @ a @ CHR ''='' # b @ v @ e # rest"] nx x char_classes(4,5) [OF nx]
    by (simp add: parse_step_def)
qed

lemma parse_loop_unfold:
  "ppos st \<le> length s \<Longrightarrow> parse_loop s st =
     (case parse_step s st of
        Inl e \<Rightarrow> Inl e
      | Inr (Again st') \<Rightarrow> parse_loop s st'
      | Inr (Parsed m) \<Rightarrow> Inr (None, m)
      | Inr (Rejected e m) \<Rightarrow> Inr (Some e, m))"
  by (subst parse_loop.simps) simp

lemma newlines_Nil [simp]: "newlines [] = 0"
  by (simp add: newlines_def)

lemma newlines_Cons: "newlines (c # xs) = (if c = NL then 1 else 0) + newlines xs"
  by (simp add: newlines_def)

lemma newlines_class:
  "list_all is_name_char xs \<Longrightarrow> newlines xs = 0" "list_all blank_char xs \<Longrightarrow> newlines xs = 0"
  "list_all (\<lambda>c. c = CHR '' '') xs \<Longrightarrow> newlines xs = 0" "list_all value_char xs \<Longrightarrow> newlines xs = 0"
  "list_all (\<lambda>c. c \<noteq> NL \<and> c \<noteq> NUL) xs \<Longrightarrow> newlines xs = 0"
proof -
  have b: "\<not> blank_char NL" "\<not> is_name_char NL" "NL \<noteq> CHR '' ''"
    by (simp_all add: blank_char_def is_name_char_def isalpha_def isdigit_def NL_def TAB_def)
  show "list_all is_name_char xs \<Longrightarrow> newlines xs = 0" "list_all blank_char xs \<Longrightarrow> newlines xs = 0"
    "list_all value_char xs \<Longrightarrow> newlines xs = 0" "list_all (\<lambda>c. c \<noteq> NL \<and> c \<noteq> NUL) xs \<Longrightarrow> newlines xs = 0"
    using b char_classes(10) by (induction xs) (auto simp: newlines_Cons)
  show "list_all (\<lambda>c. c = CHR '' '') xs \<Longrightarrow> newlines xs = 0"
    using b(3) by (induction xs) (simp_all add: newlines_Cons)
qed

lemma newlines_item:
  "item_ok (Comment t) \<Longrightarrow> newlines (render_item (Comment t)) = 1"
  "item_ok (Sect a n b) \<Longrightarrow> newlines (render_item (Sect a n b)) = 0"
  "item_ok (KeyVal k a b v e) \<Longrightarrow> newlines (render_item (KeyVal k a b v e)) = newlines [e]"
proof -
  have ne: "newlines [] = 0" "CHR ''#'' \<noteq> NL" "CHR ''['' \<noteq> NL" "CHR '']'' \<noteq> NL" "CHR ''='' \<noteq> NL"
    by (simp_all add: newlines_def NL_def)
  show "item_ok (Comment t) \<Longrightarrow> newlines (render_item (Comment t)) = 1"
    "item_ok (Sect a n b) \<Longrightarrow> newlines (render_item (Sect a n b)) = 0"
    "item_ok (KeyVal k a b v e) \<Longrightarrow> newlines (render_item (KeyVal k a b v e)) = newlines [e]"
    by (simp_all add: item_ok_def render_item_def newlines_Cons newlines_class ne)
qed

lemma parse_render:
  assumes "list_all item_ok is"
  shows "parse_loop (pre @ render is) \<lparr>ppos = length pre, cur_section = sec, kv = m\<rparr> =
    Inr (meaning (1 + newlines pre) sec m is)"
  using assms
proof (induction "is" arbitrary: pre sec m)
  case Nil
  have "scan_while isspace pre (length pre) = Inr (length pre)"
    using scan_while_append [of isspace "[]" "[]" pre] by simp
  moreover have "char_at pre (length pre) = Inr NUL" by (simp add: char_at_def)
  ultimately have "parse_step pre \<lparr>ppos = length pre, cur_section = sec, kv = m\<rparr> = Inr (Parsed m)"
    by (simp add: parse_step_def)
  then show ?case by (simp add: render_def parse_loop_unfold)
next
  case (Cons i "is")
  have IH: "parse_loop ((pre @ render_item i) @ render is)
      \<lparr>ppos = length (pre @ render_item i), cur_section = sec', kv = m'\<rparr> =
    Inr (meaning (1 + newlines pre + newlines (render_item i)) sec' m' is)" for sec' m'
    using Cons.IH [of "pre @ render_item i" sec' m'] Cons.prems by (simp add: add.assoc)
  have r: "pre @ render (i # is) = pre @ render_item i @ render is" by (simp add: render_def)
  have ok: "item_ok i" using Cons.prems by simp
  show ?case
  proof (cases i)
    case (Blank w)
    then have "list_all isspace w" using ok by (simp add: item_ok_def)
    from skip_blank_loop [OF this, of pre "render is" sec m] show ?thesis
      using IH [of sec m] Blank unfolding r by (simp add: render_item_def)
  next
    case (Comment t)
    then have t: "list_all (\<lambda>c. c \<noteq> NL \<and> c \<noteq> NUL) t" using ok by (simp add: item_ok_def)
    have "parse_loop (pre @ render (i # is)) \<lparr>ppos = length pre, cur_section = sec, kv = m\<rparr> =
        parse_loop ((pre @ CHR ''#'' # t) @ [NL] @ render is)
          \<lparr>ppos = length (pre @ CHR ''#'' # t), cur_section = sec, kv = m\<rparr>"
      using comment_round [OF t, of pre "render is" sec m] Comment unfolding r
      by (simp add: parse_loop_unfold render_item_def)
    also have "\<dots> = Inr (meaning (1 + newlines pre + 1) sec m is)"
      using skip_blank_loop [of "[NL]" "pre @ CHR ''#'' # t" "render is" sec m] IH [of sec m]
        newlines_item(1) [of t] ok Comment char_classes(9) by (simp add: render_item_def)
    finally show ?thesis using Comment by simp
  next
    case (Sect a n b)
    then have s: "list_all (\<lambda>c. c = CHR '' '') a" "n \<noteq> []" "list_all is_name_char n" "list_all blank_char b"
      using ok by (simp_all add: item_ok_def)
    show ?thesis
      using section_round [OF s, of pre "render is" sec m] IH [of n "m(n \<mapsto> Map.empty)"]
        newlines_item(2) [of a n b] ok Sect unfolding r
      by (simp add: parse_loop_unfold render_item_def)
  next
    case (KeyVal k a b v e)
    then have s: "k \<noteq> []" "list_all is_name_char k" "list_all blank_char a" "list_all blank_char b"
      "v \<noteq> []" "list_all value_char v" "isspace e"
      using ok by (simp_all add: item_ok_def)
    show ?thesis
    proof (cases "sec = []")
      case True
      then show ?thesis
        using item_round [OF s, of pre "render is" sec m] KeyVal unfolding r
        by (simp add: parse_loop_unfold render_item_def)
    next
      case False
      let ?m = "set_item sec k v m" and ?t = "k @ a @ CHR ''='' # b @ v"
      have "parse_loop (pre @ render (i # is)) \<lparr>ppos = length pre, cur_section = sec, kv = m\<rparr> =
          parse_loop ((pre @ ?t) @ [e] @ render is) \<lparr>ppos = length (pre @ ?t), cur_section = sec, kv = ?m\<rparr>"
        using item_round [OF s, of pre "render is" sec m] False KeyVal unfolding r
        by (simp add: parse_loop_unfold render_item_def)
      also have "\<dots> = Inr (meaning (1 + newlines pre + newlines [e]) sec ?m is)"
        using skip_blank_loop [of "[e]" "pre @ ?t" "render is" sec ?m] IH [of sec ?m]
          newlines_item(3) [of k a b v e] ok KeyVal s(7) by (simp add: render_item_def)
      finally show ?thesis using KeyVal False by simp
    qed
  qed
qed

lemma parse_loop_total: "ppos st \<le> length s \<Longrightarrow> \<exists>r. parse_loop s st = Inr r"
proof (induction s st rule: parse_loop.induct)
  case (1 s st)
  show ?case
    using 1 parse_step_round [of st s] by (auto simp: round_ok_def parse_loop_unfold)
qed

section \<open>Properties\<close>

text \<open>C28. \<open>ParseConfig\<close> returns for every text, whatever bytes are in it, and never reads a
  character beyond the terminating NUL.\<close>

theorem ParseConfig_returns: "\<exists>e m'. ParseConfig contents m = Inr (e, m')"
  using parse_loop_total [of "\<lparr>ppos = 0, cur_section = [], kv = m\<rparr>" contents]
  by (auto simp: ParseConfig_def)

text \<open>C10. A text made of white space, comments, sections and items, laid out in any way the
  grammar allows, parses to the map it describes; a section that occurs twice or an item before
  the first section is refused with the line where it stands, and the map keeps what came before.\<close>

theorem ParseConfig_render:
  assumes "list_all item_ok is"
  shows "ParseConfig (render is) m = Inr (meaning 1 [] m is)"
  using parse_render [OF assms, of "[]" "[]" m] by (simp add: ParseConfig_def newlines_def)

definition sample_config :: "item list" where
  "sample_config =
     [Comment '' server'', Sect '' '' ''Server'' [TAB], Blank [NL, CHR '' ''],
      KeyVal ''port'' '' '' [] ''8080'' NL, Blank [NL], Sect [] ''Log'' [], Blank [NL],
      KeyVal ''level'' [] [TAB] ''INFO'' (CHR '' '')]"

theorem ParseConfig_render_witness:
  "ParseConfig (render sample_config) Map.empty = Inr (meaning 1 [] Map.empty sample_config) \<and>
   GetItem_int (snd (meaning 1 [] Map.empty sample_config)) ''Server'' ''port'' 0 = (True, 8080)"
proof -
  have "list_all item_ok sample_config"
    by (simp add: sample_config_def item_ok_def is_name_char_def isalpha_def isdigit_def isspace_def
        blank_char_def value_char_def NUL_def NL_def TAB_def)
  moreover have "GetItem_int (snd (meaning 1 [] Map.empty sample_config)) ''Server'' ''port'' 0 = (True, 8080)"
    by code_simp
  ultimately show ?thesis using ParseConfig_render by blast
qed

end
