(* ===== verification/Text.thy ===== *)
theory Text
  imports Config_Parser
begin

text \<open>
  Decimal numbers as text: what \<open>std::to_string\<close> and the padded conversions of \<open>printf\<close> give for
  non-negative numbers, and that \<open>atoi\<close> reads them back.
\<close>

definition digit_char :: "nat \<Rightarrow> char" where
  "digit_char d = char_of (48 + d)"

fun to_string :: "nat \<Rightarrow> string" where
  "to_string n =
     (if n < 10 then [digit_char n] else to_string (n div 10) @ [digit_char (n mod 10)])"

declare to_string.simps [simp del]

definition pad_left :: "char \<Rightarrow> nat \<Rightarrow> string \<Rightarrow> string" where
  "pad_left c n s = replicate (n - length s) c @ s"

lemma of_char_digit: "d < 10 \<Longrightarrow> (of_char (digit_char d) :: nat) = 48 + d"
  by (simp add: digit_char_def of_char_of)

lemma digit_char_props:
  assumes "d < 10"
  shows "isdigit (digit_char d)" "is_name_char (digit_char d)" "\<not> isspace (digit_char d)"
    "digit_char d \<noteq> CHR ''-''" "digit_char d \<noteq> CHR ''+''" "value_char (digit_char d)"
proof -
  have o: "(of_char (digit_char d) :: nat) = 48 + d" by (rule of_char_digit [OF assms])
  show "isdigit (digit_char d)" using o assms by (simp add: isdigit_def)
  then show n: "is_name_char (digit_char d)" by (simp add: is_name_char_def)
  show s: "\<not> isspace (digit_char d)" using n by (rule char_classes(1))
  have "digit_char d \<noteq> c" if "(of_char c :: nat) < 48" for c using o that by auto
  then show "digit_char d \<noteq> CHR ''-''" "digit_char d \<noteq> CHR ''+''" "value_char (digit_char d)"
    using s by (auto simp: value_char_def NUL_def)
qed

lemma digits_value_append:
  "list_all isdigit xs \<Longrightarrow> digits_value acc (xs @ ys) = digits_value (digits_value acc xs) ys"
  by (induction xs arbitrary: acc) auto

lemma to_string_digits: "list_all isdigit (to_string n) \<and> to_string n \<noteq> []"
proof (induction n rule: to_string.induct)
  case (1 n)
  then show ?case
    using digit_char_props(1) [of n] digit_char_props(1) [of "n mod 10"]
    by (subst (1 2) to_string.simps) auto
qed

lemma digits_value_to_string: "digits_value 0 (to_string n) = int n"
proof (induction n rule: to_string.induct)
  case (1 n)
  show ?case
  proof (cases "n < 10")
    case True
    then show ?thesis
      using digit_char_props(1) [OF True] of_char_digit [OF True] by (subst to_string.simps) simp
  next
    case False
    have d: "isdigit (digit_char (n mod 10))" "(of_char (digit_char (n mod 10)) :: nat) = 48 + n mod 10"
      using digit_char_props(1) [of "n mod 10"] of_char_digit [of "n mod 10"] by simp_all
    have "digits_value 0 (to_string n) = 10 * int (n div 10) + int (n mod 10)"
      using 1 [OF False] False to_string_digits [of "n div 10"] d
      by (subst to_string.simps) (simp add: digits_value_append)
    moreover have "int n = 10 * int (n div 10) + int (n mod 10)" by presburger
    ultimately show ?thesis by (simp only:)
  qed
qed

lemma isdigit_value: "isdigit c \<Longrightarrow> is_name_char c \<and> value_char c"
  using char_classes(1) [of c] class_NUL(2) by (auto simp: is_name_char_def value_char_def)

lemma atoi_to_string: "atoi (to_string n) = int n"
proof -
  obtain c cs where c: "to_string n = c # cs" using to_string_digits [of n] by (cases "to_string n") auto
  then have d: "isdigit c" using to_string_digits [of n] by simp
  then have "\<not> isspace c" "c \<noteq> CHR ''-''" "c \<noteq> CHR ''+''"
    using isdigit_value [OF d] by (auto simp: value_char_def isdigit_def)
  then show ?thesis using digits_value_to_string [of n] c by (simp add: atoi_def)
qed

lemma to_string_item: "list_all value_char (to_string n)" "to_string n \<noteq> []"
  using to_string_digits [of n] isdigit_value by (auto simp: list_all_iff)

lemma to_string_inj:
  assumes "to_string m = to_string n"
  shows "m = n"
proof -
  have "int m = digits_value 0 (to_string m)" by (rule digits_value_to_string [symmetric])
  also have "\<dots> = digits_value 0 (to_string n)" by (rule arg_cong [OF assms])
  also have "\<dots> = int n" by (rule digits_value_to_string)
  finally show ?thesis by (rule of_nat_eq_iff [THEN iffD1])
qed

end
