(* ===== verification/Logger.thy ===== *)
theory Logger
  imports Text
begin

text \<open>
  The logger of \<open>logger.cpp\<close>: a global threshold and a global print function. The message is
  formatted by \<open>vasprintf\<close>, a parameter that may fail; what reaches the error stream is the list
  of lines printed so far.
\<close>

datatype LoggerLevel = LOG_LEVEL_DEBUG | LOG_LEVEL_INFO | LOG_LEVEL_WARN | LOG_LEVEL_ERROR

definition level_number :: "LoggerLevel \<Rightarrow> int" where
  "level_number l =
     (case l of LOG_LEVEL_DEBUG \<Rightarrow> 1 | LOG_LEVEL_INFO \<Rightarrow> 2 | LOG_LEVEL_WARN \<Rightarrow> 3 | LOG_LEVEL_ERROR \<Rightarrow> 4)"

text \<open>C++ compares enumerators by their numbers.\<close>

instantiation LoggerLevel :: linorder
begin

definition less_eq_LoggerLevel :: "LoggerLevel \<Rightarrow> LoggerLevel \<Rightarrow> bool" where
  "less_eq_LoggerLevel a b \<longleftrightarrow> level_number a \<le> level_number b"

definition less_LoggerLevel :: "LoggerLevel \<Rightarrow> LoggerLevel \<Rightarrow> bool" where
  "less_LoggerLevel a b \<longleftrightarrow> level_number a < level_number b"

instance
proof
  fix a b :: LoggerLevel
  show "a \<le> b \<Longrightarrow> b \<le> a \<Longrightarrow> a = b"
    by (cases a; cases b) (simp_all add: less_eq_LoggerLevel_def level_number_def)
qed (auto simp: less_eq_LoggerLevel_def less_LoggerLevel_def)

end

definition emoskit_log_level_string :: "LoggerLevel \<Rightarrow> string" where
  "emoskit_log_level_string l =
     (case l of LOG_LEVEL_DEBUG \<Rightarrow> ''DEBUG'' | LOG_LEVEL_INFO \<Rightarrow> ''INFO''
      | LOG_LEVEL_WARN \<Rightarrow> ''WARN'' | LOG_LEVEL_ERROR \<Rightarrow> ''ERROR'')"

record log_call =
  lc_level :: LoggerLevel
  lc_file :: "string option"
  lc_line :: nat
  lc_func :: string
  lc_message :: string

text \<open>The clock as the print function sees it: the formatted local time and the nanoseconds, or
  a failure, which leaves the nanoseconds undetermined.\<close>

record log_env =
  local_time :: "string option"
  nsec :: nat
  thread_id :: nat

record logger =
  emoskit_min_log_level_to_print :: LoggerLevel
  log_print_func :: "log_env \<Rightarrow> log_call \<Rightarrow> string list \<Rightarrow> string list"
  stderr :: "string list"

text \<open>The part of the path after the last slash.\<close>

definition file_name :: "string option \<Rightarrow> string" where
  "file_name file = (case file of None \<Rightarrow> [] | Some f \<Rightarrow> rev (takeWhile (\<lambda>c. c \<noteq> CHR ''/'') (rev f)))"

definition default_log_print_func :: "log_env \<Rightarrow> log_call \<Rightarrow> string list \<Rightarrow> string list" where
  "default_log_print_func env c out =
     out @ [''['' @ (case local_time env of None \<Rightarrow> ''clock_gettime error'' | Some t \<Rightarrow> t) @ ''.'' @
            pad_left (CHR ''0'') 9 (to_string (nsec env)) @ ''][Thread '' @
            pad_left (CHR '' '') 9 (to_string (thread_id env)) @ ''][''  @
            emoskit_log_level_string (lc_level c) @ ''] '' @ file_name (lc_file c) @ '':'' @
            to_string (lc_line c) @ '', in '' @ lc_func c @ '': '' @ lc_message c @ [NL]]"

definition logger_start :: logger where
  "logger_start =
     \<lparr>emoskit_min_log_level_to_print = LOG_LEVEL_ERROR, log_print_func = default_log_print_func,
      stderr = []\<rparr>"

definition emoskit_log ::
  "log_env \<Rightarrow> LoggerLevel \<Rightarrow> string option \<Rightarrow> nat \<Rightarrow> string \<Rightarrow> string option \<Rightarrow> logger \<Rightarrow> logger" where
  "emoskit_log env log_level file line func vasprintf l =
     (if log_level < emoskit_min_log_level_to_print l then l
      else case vasprintf of
             None \<Rightarrow> l
           | Some msg \<Rightarrow> l\<lparr>stderr := log_print_func l env
               \<lparr>lc_level = log_level, lc_file = file, lc_line = line, lc_func = func, lc_message = msg\<rparr>
               (stderr l)\<rparr>)"

definition emoskit_set_log_level :: "LoggerLevel \<Rightarrow> logger \<Rightarrow> logger" where
  "emoskit_set_log_level log_level l = l\<lparr>emoskit_min_log_level_to_print := log_level\<rparr>"

definition emoskit_set_log_func ::
  "(log_env \<Rightarrow> log_call \<Rightarrow> string list \<Rightarrow> string list) \<Rightarrow> logger \<Rightarrow> logger" where
  "emoskit_set_log_func func l = l\<lparr>log_print_func := func\<rparr>"

lemma file_name_suffix: "\<exists>dir. f = dir @ file_name (Some f) \<and> CHR ''/'' \<notin> set (file_name (Some f))"
proof -
  have "rev f = takeWhile (\<lambda>c. c \<noteq> CHR ''/'') (rev f) @ dropWhile (\<lambda>c. c \<noteq> CHR ''/'') (rev f)" by simp
  then have "f = rev (dropWhile (\<lambda>c. c \<noteq> CHR ''/'') (rev f)) @ rev (takeWhile (\<lambda>c. c \<noteq> CHR ''/'') (rev f))"
    by (metis rev_append rev_rev_ident)
  moreover have "CHR ''/'' \<notin> set (takeWhile (\<lambda>c. c \<noteq> CHR ''/'') (rev f))"
    by (auto dest: set_takeWhileD)
  ultimately show ?thesis by (auto simp: file_name_def)
qed

text \<open>After \<open>set_log_level\<close>, exactly the calls of that level or above reach the stream.\<close>

lemma log_filter:
  "stderr (emoskit_log env lv file line func (Some msg)
      (emoskit_set_log_level mn (logger_start\<lparr>stderr := out\<rparr>))) =
   (if lv < mn then out
    else default_log_print_func env
      \<lparr>lc_level = lv, lc_file = file, lc_line = line, lc_func = func, lc_message = msg\<rparr> out)"
  by (simp add: emoskit_log_def emoskit_set_log_level_def logger_start_def)

end
