(* ===== verification/Server_Config.thy ===== *)
theory Server_Config
  imports Logger
begin

text \<open>
  The server's configuration (\<open>server_config.h\<close>, \<open>server_config.cpp\<close>): the items it reads, in the
  order in which it reads and checks them. Members that were not reached keep what they held;
  they are not initialised by the constructor, so the record before the call is arbitrary.
\<close>

record server_config =
  server_ip :: string
  server_port :: int
  event_loop_count :: int
  thread_pool_core_pool_size :: int
  thread_pool_max_pool_size :: int
  thread_pool_keep_alive_time_seconds :: int
  circbuf_size :: int
  log_dir :: string
  log_level :: LoggerLevel

definition set_log_level :: "int \<Rightarrow> server_config \<Rightarrow> server_config" where
  "set_log_level level c =
     c\<lparr>log_level := (if level = 1 then LOG_LEVEL_DEBUG else if level = 2 then LOG_LEVEL_INFO
                     else if level = 3 then LOG_LEVEL_WARN else LOG_LEVEL_ERROR)\<rparr>"

text \<open>The body after \<open>Init\<close>. \<open>hw\<close> is \<open>hardware_concurrency()\<close>, 0 when unknown.\<close>

definition read_server_items :: "nat \<Rightarrow> config_kv \<Rightarrow> server_config \<Rightarrow> bool \<times> server_config" where
  "read_server_items hw m c =
     (let (found, v) = GetItem m ''Server'' ''IP'' (server_ip c); c = c\<lparr>server_ip := v\<rparr> in
      if \<not> found then (False, c) else
      let (found, v) = GetItem_int m ''Server'' ''Port'' (server_port c); c = c\<lparr>server_port := v\<rparr> in
      if \<not> found then (False, c) else
      if server_port c \<le> 0 then (False, c) else
      let (found, v) = GetItem_int m ''Server'' ''EventLoopCnt'' (event_loop_count c);
          c = c\<lparr>event_loop_count := v\<rparr> in
      if \<not> found then (False, c) else
      if event_loop_count c \<le> 0 then (False, c) else
      let (found, v) = GetItem_int m ''Server'' ''WorkerPoolCorePoolSize'' (thread_pool_core_pool_size c);
          c = c\<lparr>thread_pool_core_pool_size := v\<rparr> in
      if \<not> found then (False, c) else
      let c = (if thread_pool_core_pool_size c \<le> 0
               then c\<lparr>thread_pool_core_pool_size := int (hw div 2)\<rparr> else c);
          (found, v) = GetItem_int m ''Server'' ''WorkerPoolMaxPoolSize'' (thread_pool_max_pool_size c);
          c = c\<lparr>thread_pool_max_pool_size := v\<rparr> in
      if \<not> found then (False, c) else
      let c = (if thread_pool_max_pool_size c < thread_pool_core_pool_size c
               then c\<lparr>thread_pool_max_pool_size := thread_pool_core_pool_size c\<rparr> else c);
          (found, v) = GetItem_int m ''Server'' ''WorkerPoolKeepAliveTimeSeconds''
                         (thread_pool_keep_alive_time_seconds c);
          c = c\<lparr>thread_pool_keep_alive_time_seconds := v\<rparr> in
      if \<not> found then (False, c) else
      let (found, v) = GetItem_int m ''Server'' ''CircbufSize'' (circbuf_size c);
          c = c\<lparr>circbuf_size := v\<rparr> in
      if \<not> found then (False, c) else
      if circbuf_size c < 2 then (False, c) else
      let (found, v) = GetItem m ''Log'' ''LogDir'' (log_dir c); c = c\<lparr>log_dir := v\<rparr> in
      if \<not> found then (False, c) else
      let (found, level) = GetItem_int m ''Log'' ''LogLevel'' 0 in
      if \<not> found then (False, c) else
      if level < 1 \<or> level > 4 then (False, c) else
      (True, set_log_level level c))"

definition ReadConfigFile ::
  "nat \<Rightarrow> string option \<Rightarrow> server_config \<Rightarrow> (bool \<times> server_config) res" where
  "ReadConfigFile hw file c =
     bind_res (ConfigParser_Init file Map.empty) (\<lambda>(ret, m).
     Inr (if \<not> ret then (ret, c) else read_server_items hw m c))"

section \<open>What an accepted configuration satisfies\<close>

text \<open>An item that is there, as text and as number.\<close>

definition has :: "config_kv \<Rightarrow> string \<Rightarrow> string \<Rightarrow> bool" where
  "has m sec key \<longleftrightarrow> (\<exists>k. m sec = Some k \<and> k key \<noteq> None)"

definition num :: "config_kv \<Rightarrow> string \<Rightarrow> string \<Rightarrow> int" where
  "num m sec key = atoi (the (the (m sec) key))"

lemma GetItem_has:
  "GetItem m sec key v = (has m sec key, if has m sec key then the (the (m sec) key) else v)"
  by (auto simp: GetItem_def has_def split: option.splits)

lemma GetItem_int_has:
  "GetItem_int m sec key v = (has m sec key, if has m sec key then num m sec key else v)"
  by (simp add: GetItem_int_def GetItem_has num_def)

definition server_items_ok :: "config_kv \<Rightarrow> bool" where
  "server_items_ok m \<longleftrightarrow>
     has m ''Server'' ''IP'' \<and>
     has m ''Server'' ''Port'' \<and> 0 < num m ''Server'' ''Port'' \<and>
     has m ''Server'' ''EventLoopCnt'' \<and> 0 < num m ''Server'' ''EventLoopCnt'' \<and>
     has m ''Server'' ''WorkerPoolCorePoolSize'' \<and> has m ''Server'' ''WorkerPoolMaxPoolSize'' \<and>
     has m ''Server'' ''WorkerPoolKeepAliveTimeSeconds'' \<and>
     has m ''Server'' ''CircbufSize'' \<and> 2 \<le> num m ''Server'' ''CircbufSize'' \<and>
     has m ''Log'' ''LogDir'' \<and>
     has m ''Log'' ''LogLevel'' \<and> 1 \<le> num m ''Log'' ''LogLevel'' \<and> num m ''Log'' ''LogLevel'' \<le> 4"

definition core_size :: "nat \<Rightarrow> config_kv \<Rightarrow> int" where
  "core_size hw m =
     (if num m ''Server'' ''WorkerPoolCorePoolSize'' \<le> 0 then int (hw div 2)
      else num m ''Server'' ''WorkerPoolCorePoolSize'')"

lemma read_server_items_iff:
  "fst (read_server_items hw m c) \<longleftrightarrow> server_items_ok m"
  by (simp add: read_server_items_def GetItem_has GetItem_int_has server_items_ok_def Let_def
      set_log_level_def not_less not_le)

lemma read_server_items_fields:
  assumes "server_items_ok m"
  shows "snd (read_server_items hw m c) =
    \<lparr>server_ip = the (the (m ''Server'') ''IP''), server_port = num m ''Server'' ''Port'',
     event_loop_count = num m ''Server'' ''EventLoopCnt'',
     thread_pool_core_pool_size = core_size hw m,
     thread_pool_max_pool_size = max (num m ''Server'' ''WorkerPoolMaxPoolSize'') (core_size hw m),
     thread_pool_keep_alive_time_seconds = num m ''Server'' ''WorkerPoolKeepAliveTimeSeconds'',
     circbuf_size = num m ''Server'' ''CircbufSize'', log_dir = the (the (m ''Log'') ''LogDir''),
     log_level = (if num m ''Log'' ''LogLevel'' = 1 then LOG_LEVEL_DEBUG
                  else if num m ''Log'' ''LogLevel'' = 2 then LOG_LEVEL_INFO
                  else if num m ''Log'' ''LogLevel'' = 3 then LOG_LEVEL_WARN else LOG_LEVEL_ERROR)\<rparr>"
  using assms
  by (simp add: read_server_items_def GetItem_has GetItem_int_has server_items_ok_def Let_def
      set_log_level_def core_size_def not_less not_le max_def)

section \<open>Configuration texts\<close>

text \<open>The text that describes a configuration, with its layout: what follows the values and
  which comments are added is up to the writer.\<close>

definition server_doc :: "server_config \<Rightarrow> item list \<Rightarrow> item list" where
  "server_doc c tail =
     (let line = (\<lambda>key v. KeyVal key '' '' '' '' v NL); n = (\<lambda>i. to_string (nat i)) in
      [Blank [NL], Sect [] ''Server'' [], Blank [NL],
       line ''IP'' (server_ip c), line ''Port'' (n (server_port c)),
       line ''EventLoopCnt'' (n (event_loop_count c)),
       line ''WorkerPoolCorePoolSize'' (n (thread_pool_core_pool_size c)),
       line ''WorkerPoolMaxPoolSize'' (n (thread_pool_max_pool_size c)),
       line ''WorkerPoolKeepAliveTimeSeconds'' (n (thread_pool_keep_alive_time_seconds c)),
       line ''CircbufSize'' (n (circbuf_size c)), Blank ('' '' @ [NL]),
       Sect [] ''Log'' [], Blank [NL], line ''LogDir'' (log_dir c),
       KeyVal ''LogLevel'' '' '' '' '' (n (level_number (log_level c))) TAB] @ tail)"

definition server_config_ok :: "server_config \<Rightarrow> bool" where
  "server_config_ok c \<longleftrightarrow>
     0 < server_port c \<and> 0 < event_loop_count c \<and> 0 < thread_pool_core_pool_size c \<and>
     thread_pool_core_pool_size c \<le> thread_pool_max_pool_size c \<and>
     0 \<le> thread_pool_keep_alive_time_seconds c \<and> 2 \<le> circbuf_size c"

definition value_ok :: "string \<Rightarrow> bool" where
  "value_ok v \<longleftrightarrow> v \<noteq> [] \<and> list_all value_char v"

lemma value_ok_number: "value_ok (to_string n)"
  using to_string_item by (simp add: value_ok_def)

lemma name_chars:
  "list_all is_name_char ''Server''" "list_all is_name_char ''Log''" "list_all is_name_char ''IP''"
  "list_all is_name_char ''Port''" "list_all is_name_char ''EventLoopCnt''"
  "list_all is_name_char ''WorkerPoolCorePoolSize''" "list_all is_name_char ''WorkerPoolMaxPoolSize''"
  "list_all is_name_char ''WorkerPoolKeepAliveTimeSeconds''" "list_all is_name_char ''CircbufSize''"
  "list_all is_name_char ''LogDir''" "list_all is_name_char ''LogLevel''"
  by code_simp+

lemma line_ok:
  assumes "k \<noteq> []" "list_all is_name_char k" "value_ok v" "isspace e"
  shows "item_ok (KeyVal k '' '' '' '' v e)"
  using assms by (simp add: item_ok_def blank_char_def value_ok_def)

lemma server_doc_ok:
  assumes "value_ok (server_ip c)" "value_ok (log_dir c)" "list_all item_ok tail"
  shows "list_all item_ok (server_doc c tail)"
proof -
  have sp: "isspace NL" "isspace TAB" "isspace (CHR '' '')" by (simp_all add: isspace_def NL_def TAB_def)
  have se: "item_ok (Sect [] ''Server'' [])" "item_ok (Sect [] ''Log'' [])"
    using name_chars by (simp_all add: item_ok_def)
  have bl: "item_ok (Blank [NL])" "item_ok (Blank ('' '' @ [NL]))" using sp by (simp_all add: item_ok_def)
  show ?thesis
    unfolding server_doc_def Let_def append_Cons append_Nil list.pred_inject
    using se bl sp assms value_ok_number
    by (intro conjI line_ok name_chars) simp_all
qed

lemma level_number_cases:
  "(if level_number l = 1 then LOG_LEVEL_DEBUG else if level_number l = 2 then LOG_LEVEL_INFO
    else if level_number l = 3 then LOG_LEVEL_WARN else LOG_LEVEL_ERROR) = l"
  "1 \<le> level_number l" "level_number l \<le> 4"
  by (cases l; simp add: level_number_def)+

definition doc_map :: "server_config \<Rightarrow> config_kv" where
  "doc_map c =
     [''Server'' \<mapsto> [''IP'' \<mapsto> server_ip c, ''Port'' \<mapsto> to_string (nat (server_port c)),
        ''EventLoopCnt'' \<mapsto> to_string (nat (event_loop_count c)),
        ''WorkerPoolCorePoolSize'' \<mapsto> to_string (nat (thread_pool_core_pool_size c)),
        ''WorkerPoolMaxPoolSize'' \<mapsto> to_string (nat (thread_pool_max_pool_size c)),
        ''WorkerPoolKeepAliveTimeSeconds'' \<mapsto> to_string (nat (thread_pool_keep_alive_time_seconds c)),
        ''CircbufSize'' \<mapsto> to_string (nat (circbuf_size c))],
      ''Log'' \<mapsto> [''LogDir'' \<mapsto> log_dir c, ''LogLevel'' \<mapsto> to_string (nat (level_number (log_level c)))]]"

text \<open>Comments and white space may follow.\<close>

definition layout_only :: "item \<Rightarrow> bool" where
  "layout_only i \<longleftrightarrow> (case i of Blank w \<Rightarrow> True | Comment t \<Rightarrow> True | _ \<Rightarrow> False)"

lemma meaning_layout: "list_all layout_only is \<Longrightarrow> meaning line sec m is = (None, m)"
  by (induction "is" arbitrary: line) (auto simp: layout_only_def split: item.splits)

lemma meaning_server_doc:
  "list_all layout_only tail \<Longrightarrow> meaning line [] Map.empty (server_doc c tail) = (None, doc_map c)"
  by (simp add: server_doc_def Let_def meaning_layout set_item_def doc_map_def fun_upd_twist)

lemma doc_map_items:
  "has (doc_map c) ''Server'' ''IP''" "the (the (doc_map c ''Server'') ''IP'') = server_ip c"
  "has (doc_map c) ''Log'' ''LogDir''" "the (the (doc_map c ''Log'') ''LogDir'') = log_dir c"
  "has (doc_map c) ''Server'' ''Port''" "num (doc_map c) ''Server'' ''Port'' = int (nat (server_port c))"
  "has (doc_map c) ''Server'' ''EventLoopCnt''"
  "num (doc_map c) ''Server'' ''EventLoopCnt'' = int (nat (event_loop_count c))"
  "has (doc_map c) ''Server'' ''WorkerPoolCorePoolSize''"
  "num (doc_map c) ''Server'' ''WorkerPoolCorePoolSize'' = int (nat (thread_pool_core_pool_size c))"
  "has (doc_map c) ''Server'' ''WorkerPoolMaxPoolSize''"
  "num (doc_map c) ''Server'' ''WorkerPoolMaxPoolSize'' = int (nat (thread_pool_max_pool_size c))"
  "has (doc_map c) ''Server'' ''WorkerPoolKeepAliveTimeSeconds''"
  "num (doc_map c) ''Server'' ''WorkerPoolKeepAliveTimeSeconds'' = int (nat (thread_pool_keep_alive_time_seconds c))"
  "has (doc_map c) ''Server'' ''CircbufSize''"
  "num (doc_map c) ''Server'' ''CircbufSize'' = int (nat (circbuf_size c))"
  "has (doc_map c) ''Log'' ''LogLevel''"
  "num (doc_map c) ''Log'' ''LogLevel'' = int (nat (level_number (log_level c)))"
  by (simp_all add: doc_map_def has_def num_def atoi_to_string)

lemma doc_map_ok: "server_config_ok c \<Longrightarrow> server_items_ok (doc_map c)"
  using level_number_cases(2,3) [of "log_level c"]
  by (simp add: server_items_ok_def doc_map_items server_config_ok_def)

lemma doc_map_read:
  "server_config_ok c \<Longrightarrow> read_server_items hw (doc_map c) c0 = (True, c)"
  using read_server_items_iff [of hw "doc_map c" c0] read_server_items_fields [OF doc_map_ok, of c hw c0]
    doc_map_ok [of c] level_number_cases [of "log_level c"]
  by (auto simp: prod_eq_iff doc_map_items server_config_ok_def core_size_def max_def)

section \<open>Properties\<close>

text \<open>C29. Whatever the file says, a configuration that is accepted has a positive port and event
  loop count, a worker pool whose maximum is not below its core size, a ring of at least two
  slots, and every required item was there.\<close>

theorem ReadConfigFile_accepts:
  assumes "ReadConfigFile hw file c0 = Inr (True, c)"
  shows "0 < server_port c \<and> 0 < event_loop_count c \<and>
    thread_pool_core_pool_size c \<le> thread_pool_max_pool_size c \<and> 2 \<le> circbuf_size c \<and>
    (\<exists>s m. file = Some s \<and> ParseConfig s Map.empty = Inr (None, m) \<and> server_items_ok m \<and>
       server_ip c = the (the (m ''Server'') ''IP''))"
proof -
  obtain s m where t: "file = Some s" "ParseConfig s Map.empty = Inr (None, m)"
    "read_server_items hw m c0 = (True, c)"
    using assms by (auto simp: ReadConfigFile_def ConfigParser_Init_def bind_res_Inr_conv split: option.splits if_splits)
  then have ok: "server_items_ok m" using read_server_items_iff [of hw m c0] by simp
  have c: "c = snd (read_server_items hw m c0)" using t(3) by simp
  show ?thesis
    using t(1,2) ok unfolding c read_server_items_fields [OF ok]
    by (simp add: server_items_ok_def)
qed

definition sample_server_config :: server_config where
  "sample_server_config =
     \<lparr>server_ip = ''127.0.0.1'', server_port = 50060, event_loop_count = 3,
      thread_pool_core_pool_size = 6, thread_pool_max_pool_size = 9,
      thread_pool_keep_alive_time_seconds = 60, circbuf_size = 1024, log_dir = ''./log'',
      log_level = LOG_LEVEL_WARN\<rparr>"

lemma sample_server_config_read:
  assumes "list_all item_ok tail" "list_all layout_only tail"
  shows "ReadConfigFile hw (Some (render (server_doc sample_server_config tail))) c0 =
    Inr (True, sample_server_config)"
proof -
  have v: "value_ok (server_ip sample_server_config)" "value_ok (log_dir sample_server_config)"
    by code_simp+
  have "server_config_ok sample_server_config" by (simp add: server_config_ok_def sample_server_config_def)
  then show ?thesis
    using parse_render [OF server_doc_ok [OF v assms(1)], of "[]" "[]" Map.empty]
    by (simp add: ReadConfigFile_def ConfigParser_Init_def ParseConfig_def meaning_server_doc [OF assms(2)] doc_map_read)
qed

theorem ReadConfigFile_accepts_witness:
  "2 \<le> circbuf_size sample_server_config \<and>
   ReadConfigFile 8 (Some (render (server_doc sample_server_config []))) sample_server_config =
     Inr (True, sample_server_config)"
proof -
  have r: "ReadConfigFile 8 (Some (render (server_doc sample_server_config []))) sample_server_config =
      Inr (True, sample_server_config)"
    by (rule sample_server_config_read) simp_all
  with ReadConfigFile_accepts [OF r] show ?thesis by blast
qed

text \<open>C11. Writing a valid configuration in the documented form and reading it back gives the same
  configuration.\<close>

theorem server_config_roundtrip:
  assumes "server_config_ok c" "value_ok (server_ip c)" "value_ok (log_dir c)"
    "list_all item_ok tail" "list_all layout_only tail"
  shows "ReadConfigFile hw (Some (render (server_doc c tail))) c0 = Inr (True, c)"
  using parse_render [OF server_doc_ok [OF assms(2-4)], of "[]" "[]" Map.empty]
  by (simp add: ReadConfigFile_def ConfigParser_Init_def ParseConfig_def meaning_server_doc [OF assms(5)]
      doc_map_read [OF assms(1)])

theorem server_config_roundtrip_witness:
  "ReadConfigFile 8 (Some (render (server_doc sample_server_config
       [Comment '' DEBUG:1, INFO:2, WARN:3, ERROR:4'']))) sample_server_config = Inr (True, sample_server_config)"
proof -
  have v: "value_ok (server_ip sample_server_config)" "value_ok (log_dir sample_server_config)"
    by code_simp+
  have k: "server_config_ok sample_server_config" by (simp add: server_config_ok_def sample_server_config_def)
  have t: "list_all item_ok [Comment '' DEBUG:1, INFO:2, WARN:3, ERROR:4'']"
    "list_all layout_only [Comment '' DEBUG:1, INFO:2, WARN:3, ERROR:4'']"
    by code_simp+
  show ?thesis by (rule server_config_roundtrip [OF k v t])
qed

end
