(* ===== verification/Client_Config.thy ===== *)
theory Client_Config
  imports Server_Config
begin

text \<open>
  The client's list of servers (\<open>client_config.h\<close>, \<open>client_config.cpp\<close>). An \<open>Endpoint\<close> holds a
  \<open>const char*\<close>, which \<open>ReadConfigFile\<close> takes from a local string: string objects live in a
  store, a pointer is the object it points into, and the local string leaves the store when the
  function returns.
\<close>

type_synonym strings = "nat \<Rightarrow> string option"

record endpoint =
  ip :: "nat option"
  port :: int

record client_config =
  endpoints :: "endpoint list"
  server_count :: int

definition Endpoint :: endpoint where
  "Endpoint = \<lparr>ip = None, port = - 1\<rparr>"

definition read_ip :: "strings \<Rightarrow> endpoint \<Rightarrow> string res" where
  "read_ip st e =
     (case ip e of
        None \<Rightarrow> Inl NullDeref
      | Some l \<Rightarrow> (case st l of None \<Rightarrow> Inl Dangling | Some s \<Rightarrow> Inr s))"

definition section_name :: "nat \<Rightarrow> string" where
  "section_name i = ''Server'' @ ''_'' @ to_string i"

text \<open>The loop over the sections; \<open>loc\<close> is the local string \<open>ip\<close>.\<close>

fun read_endpoints ::
  "config_kv \<Rightarrow> nat \<Rightarrow> nat list \<Rightarrow> strings \<Rightarrow> endpoint list \<Rightarrow> strings \<times> endpoint list" where
  "read_endpoints m loc [] st es = (st, es)"
| "read_endpoints m loc (i # is) st es =
     (let (found, v) = GetItem m (section_name i) ''IP'' (the (st loc)); st = st(loc \<mapsto> v) in
      if \<not> found then read_endpoints m loc is st es else
      let (found, p) = GetItem_int m (section_name i) ''Port'' 0 in
      if \<not> found then read_endpoints m loc is st es else
      read_endpoints m loc is st (es @ [\<lparr>ip = Some loc, port = p\<rparr>]))"

definition read_client_items ::
  "config_kv \<Rightarrow> nat \<Rightarrow> strings \<Rightarrow> client_config \<Rightarrow> bool \<times> strings \<times> client_config" where
  "read_client_items m loc st c =
     (let (succeed, n) = GetItem_int m ''Server'' ''ServerCount'' (server_count c);
          c = c\<lparr>server_count := n\<rparr> in
      if \<not> succeed then (False, st, c) else
      if server_count c \<le> 0 then (False, st, c) else
      let (st, es) = read_endpoints m loc [0 ..< nat (server_count c)] st (endpoints c);
          c = c\<lparr>endpoints := es\<rparr> in
      if endpoints c = [] then (False, st, c) else (True, st, c))"

definition ReadClientConfig ::
  "string option \<Rightarrow> nat \<Rightarrow> strings \<Rightarrow> client_config \<Rightarrow> (bool \<times> strings \<times> client_config) res" where
  "ReadClientConfig file loc st c =
     bind_res (ConfigParser_Init file Map.empty) (\<lambda>(ret, m).
     let st = st(loc \<mapsto> []);
         (ret, st, c) = (if \<not> ret then (ret, st, c) else read_client_items m loc st c)
     in Inr (ret, st(loc := None), c))"

text \<open>The results are null or the endpoint at an index; \<open>GetEndpointRandom\<close> draws the index
  from the generator, a parameter.\<close>

definition GetEndpointAt :: "client_config \<Rightarrow> nat \<Rightarrow> endpoint option" where
  "GetEndpointAt c idx = (if idx < length (endpoints c) then Some (endpoints c ! idx) else None)"

definition GetEndpointRandom :: "(nat \<Rightarrow> nat) \<Rightarrow> client_config \<Rightarrow> endpoint option" where
  "GetEndpointRandom dis c =
     (if length (endpoints c) > 0 then Some (endpoints c ! dis (length (endpoints c) - 1)) else None)"

section \<open>What was read\<close>

definition listed :: "config_kv \<Rightarrow> nat \<Rightarrow> bool" where
  "listed m i \<longleftrightarrow> has m (section_name i) ''IP'' \<and> has m (section_name i) ''Port''"

lemma read_endpoints_result:
  "snd (read_endpoints m loc is st es) =
     es @ map (\<lambda>i. \<lparr>ip = Some loc, port = num m (section_name i) ''Port''\<rparr>) (filter (listed m) is)"
  by (induction "is" arbitrary: st es) (auto simp: GetItem_has GetItem_int_has listed_def Let_def)

lemma read_endpoints_store:
  "l \<noteq> loc \<Longrightarrow> fst (read_endpoints m loc is st es) l = st l"
  by (induction "is" arbitrary: st es) (auto simp: Let_def split: prod.splits)

lemma read_client_items_success:
  assumes "read_client_items m loc st c = (True, st', c')"
  shows "server_count c' = num m ''Server'' ''ServerCount''"
    "endpoints c' = endpoints c @ map (\<lambda>i. \<lparr>ip = Some loc, port = num m (section_name i) ''Port''\<rparr>)
       (filter (listed m) [0 ..< nat (server_count c')])"
    "endpoints c' \<noteq> []"
proof -
  obtain st1 es where e: "read_endpoints m loc [0 ..< nat (num m ''Server'' ''ServerCount'')] st (endpoints c) = (st1, es)"
    by fastforce
  have c: "c' = c\<lparr>server_count := num m ''Server'' ''ServerCount'', endpoints := es\<rparr>" "es \<noteq> []"
    using assms e by (auto simp: read_client_items_def GetItem_int_has Let_def split: if_splits)
  then show "server_count c' = num m ''Server'' ''ServerCount''" "endpoints c' \<noteq> []" by simp_all
  show "endpoints c' = endpoints c @ map (\<lambda>i. \<lparr>ip = Some loc, port = num m (section_name i) ''Port''\<rparr>)
       (filter (listed m) [0 ..< nat (server_count c')])"
    using read_endpoints_result [of m loc "[0 ..< nat (num m ''Server'' ''ServerCount'')]" st "endpoints c"] e c
    by simp
qed

lemma ReadClientConfig_success:
  assumes "ReadClientConfig file loc st c = Inr (True, st', c')"
  obtains s m st1 where "file = Some s" "ParseConfig s Map.empty = Inr (None, m)"
    "read_client_items m loc (st(loc \<mapsto> [])) c = (True, st1, c')" "st' = st1(loc := None)"
  using assms
  by (auto simp: ReadClientConfig_def ConfigParser_Init_def bind_res_Inr_conv Let_def
      split: option.splits if_splits prod.splits)

section \<open>Properties\<close>

text \<open>A client configuration that is accepted lists, in order, exactly the sections
  \<open>Server_0\<close> to \<open>Server_(n-1)\<close> that have both an address and a port, and at least one; the ports
  are those of the file. But the addresses are gone: every endpoint's pointer is into the local
  string of \<open>ReadConfigFile\<close>, so using it is a use after free.\<close>

theorem client_endpoints:
  assumes "ReadClientConfig file loc st \<lparr>endpoints = [], server_count = n\<rparr> = Inr (True, st', c)"
  shows "\<exists>s m. file = Some s \<and> ParseConfig s Map.empty = Inr (None, m) \<and>
    map port (endpoints c) =
      map (\<lambda>i. num m (section_name i) ''Port'') (filter (listed m) [0 ..< nat (server_count c)]) \<and>
    endpoints c \<noteq> [] \<and>
    (\<forall>idx < length (endpoints c). \<exists>e. GetEndpointAt c idx = Some e \<and> read_ip st' e = Inl Dangling)"
proof -
  obtain s m st1 where s: "file = Some s" "ParseConfig s Map.empty = Inr (None, m)"
    and r: "read_client_items m loc (st(loc \<mapsto> [])) \<lparr>endpoints = [], server_count = n\<rparr> = (True, st1, c)"
    and st': "st' = st1(loc := None)"
    by (rule ReadClientConfig_success [OF assms])
  have es: "endpoints c = map (\<lambda>i. \<lparr>ip = Some loc, port = num m (section_name i) ''Port''\<rparr>)
       (filter (listed m) [0 ..< nat (server_count c)])"
    using read_client_items_success(2) [OF r] by simp
  have "map port (endpoints c) =
      map (\<lambda>i. num m (section_name i) ''Port'') (filter (listed m) [0 ..< nat (server_count c)])"
    unfolding es by simp
  moreover have "read_ip st' (endpoints c ! idx) = Inl Dangling" if "idx < length (endpoints c)" for idx
    using that st' unfolding es by (simp add: read_ip_def)
  ultimately show ?thesis using s read_client_items_success(3) [OF r] by (auto simp: GetEndpointAt_def)
qed

definition sample_client_doc :: "item list" where
  "sample_client_doc =
     [Sect [] ''Server'' [], Blank [NL], KeyVal ''ServerCount'' '' '' '' '' ''2'' NL,
      Sect [] ''Server_0'' [], Blank [NL], KeyVal ''IP'' '' '' '' '' ''127.0.0.1'' NL,
      KeyVal ''Port'' '' '' '' '' ''50060'' NL,
      Sect [] ''Server_1'' [], Blank [NL], KeyVal ''IP'' '' '' '' '' ''127.0.0.1'' NL,
      KeyVal ''Port'' '' '' '' '' ''50061'' NL]"

lemma sample_client_read:
  "\<exists>st' c. ReadClientConfig (Some (render sample_client_doc)) 0 Map.empty
      \<lparr>endpoints = [], server_count = 0\<rparr> = Inr (True, st', c) \<and> map port (endpoints c) = [50060, 50061]"
proof -
  have ok: "list_all item_ok sample_client_doc" by code_simp
  have "(case meaning 1 [] Map.empty sample_client_doc of (e, m) \<Rightarrow>
      (e, case read_client_items m 0 (Map.empty(0 \<mapsto> [])) \<lparr>endpoints = [], server_count = 0\<rparr> of
            (r, st, c) \<Rightarrow> (r, map port (endpoints c)))) = (None, True, [50060, 50061])"
    by code_simp
  then show ?thesis
    using parse_render [OF ok, of "[]" "[]" Map.empty]
    by (auto simp: ReadClientConfig_def ConfigParser_Init_def ParseConfig_def split: prod.splits)
qed

theorem client_endpoints_witness:
  "\<exists>st' c. ReadClientConfig (Some (render sample_client_doc)) 0 Map.empty
      \<lparr>endpoints = [], server_count = 0\<rparr> = Inr (True, st', c) \<and>
    map port (endpoints c) = [50060, 50061] \<and>
    (\<exists>e. GetEndpointAt c 1 = Some e \<and> read_ip st' e = Inl Dangling)"
proof -
  obtain st' c where r: "ReadClientConfig (Some (render sample_client_doc)) 0 Map.empty
      \<lparr>endpoints = [], server_count = 0\<rparr> = Inr (True, st', c)" "map port (endpoints c) = [50060, 50061]"
    using sample_client_read by (elim exE conjE)
  then have "length (endpoints c) = 2" by (metis length_map length_Cons list.size(3) One_nat_def numeral_2_eq_2)
  then show ?thesis using r client_endpoints [OF r(1)] by auto
qed

end
