(* ===== verification/Murmur.thy ===== *)
theory Murmur
  imports Prelude
begin

text \<open>
  The hash of method names, \<open>murmur_hash3\<close> of \<open>murmur_hash.cpp\<close>, on 32-bit words. A key is its
  list of bytes; a block is read as the little-endian machine the code runs on reads it.
\<close>

section \<open>Definitions\<close>

definition ROTL32 :: "uint32 \<Rightarrow> nat \<Rightarrow> uint32" where
  "ROTL32 x r = push_bit r x OR drop_bit (32 - r) x"

definition load_uint32 :: "byte list \<Rightarrow> uint32" where
  "load_uint32 b =
     ucast (b ! 0) OR push_bit 8 (ucast (b ! 1)) OR push_bit 16 (ucast (b ! 2)) OR push_bit 24 (ucast (b ! 3))"

definition block_at :: "byte list \<Rightarrow> nat \<Rightarrow> uint32" where
  "block_at key i = load_uint32 (take 4 (drop (4 * i) key))"

definition scramble :: "uint32 \<Rightarrow> uint32" where
  "scramble k = ROTL32 (k * 0xcc9e2d51) 15 * 0x1b873593"

definition mix_block :: "uint32 \<Rightarrow> uint32 \<Rightarrow> uint32" where
  "mix_block hash k = ROTL32 (hash XOR scramble k) 13 * 5 + 0xe6546b64"

text \<open>The \<open>switch\<close> on \<open>len & 3\<close> falls through from the last byte to the first.\<close>

definition tail_word :: "byte list \<Rightarrow> uint32" where
  "tail_word r =
     (let k = 0;
          k = (if length r \<ge> 3 then k XOR push_bit 16 (ucast (r ! 2)) else k);
          k = (if length r \<ge> 2 then k XOR push_bit 8 (ucast (r ! 1)) else k)
      in k XOR ucast (r ! 0))"

definition mix_tail :: "byte list \<Rightarrow> uint32 \<Rightarrow> uint32" where
  "mix_tail r hash = (if length r = 0 then hash else hash XOR scramble (tail_word r))"

definition finalize :: "uint32 \<Rightarrow> uint32" where
  "finalize hash =
     (let hash = hash XOR drop_bit 16 hash;
          hash = hash * 0x85ebca6b;
          hash = hash XOR drop_bit 13 hash;
          hash = hash * 0xc2b2ae35
      in hash XOR drop_bit 16 hash)"

definition murmur_hash3 :: "byte list \<Rightarrow> uint32 \<Rightarrow> uint32" where
  "murmur_hash3 key seed =
     (let nblocks = length key div 4;
          hash = foldl (\<lambda>hash i. mix_block hash (block_at key i)) seed [0 ..< nblocks];
          hash = mix_tail (drop (4 * nblocks) key) hash
      in finalize (hash XOR of_nat (length key)))"

section \<open>Every step can be undone\<close>

lemma mult_unit_inj:
  fixes a b c d :: uint32
  assumes "c * d = 1" "a * c = b * c"
  shows "a = b"
proof -
  have "a = a * c * d" using assms(1) by (simp add: mult.assoc)
  also have "\<dots> = b" using assms by (simp add: mult.assoc)
  finally show ?thesis .
qed

lemma mult_consts_inj:
  fixes a b :: uint32
  shows "a * 0xcc9e2d51 = b * 0xcc9e2d51 \<Longrightarrow> a = b" "a * 0x1b873593 = b * 0x1b873593 \<Longrightarrow> a = b"
    "a * 5 = b * 5 \<Longrightarrow> a = b" "a * 0x85ebca6b = b * 0x85ebca6b \<Longrightarrow> a = b"
    "a * 0xc2b2ae35 = b * 0xc2b2ae35 \<Longrightarrow> a = b"
  by (rule mult_unit_inj [of "0xcc9e2d51" "3739302833"]; simp)
    (rule mult_unit_inj [of "0x1b873593" "1458385051"] mult_unit_inj [of "5" "3435973837"]
       mult_unit_inj [of "0x85ebca6b" "2781581891"] mult_unit_inj [of "0xc2b2ae35" "2127672349"]; simp; fail)+

lemma bit_ROTL32:
  "bit (ROTL32 x r) n \<longleftrightarrow> n < 32 \<and> (r \<le> n \<and> bit x (n - r) \<or> bit x (n + (32 - r)))"
  by (auto simp: ROTL32_def bit_simps add.commute dest: bit_imp_le_length)

lemma ROTL32_inj:
  assumes "ROTL32 x r = ROTL32 y r" "0 < r" "r < 32"
  shows "x = y"
proof (rule bit_word_eqI)
  fix n assume "n < LENGTH(32)"
  then have n: "n < 32" by simp
  have high: "\<not> bit z m" if "32 \<le> m" for z :: uint32 and m
    using that bit_imp_le_length [of z m] by auto
  have get: "bit z n = bit (ROTL32 z r) (if n + r < 32 then n + r else n + r - 32)" for z
    using n assms(2,3) high [of "n + 32" z] by (auto simp: bit_ROTL32)
  show "bit x n = bit y n"
    by (subst (1 2) get) (simp add: assms(1))
qed

lemma scramble_inj: "scramble a = scramble b \<Longrightarrow> a = b"
  unfolding scramble_def by (drule mult_consts_inj(2), drule ROTL32_inj) (auto dest: mult_consts_inj(1))

lemma xor_cancel:
  fixes a b c :: uint32
  shows "a XOR b = a XOR c \<longleftrightarrow> b = c" "b XOR a = c XOR a \<longleftrightarrow> b = c"
  by (auto simp: bit_eq_iff bit_xor_iff)

lemma mix_block_inj:
  "mix_block h k = mix_block h k' \<Longrightarrow> k = k'" "mix_block h k = mix_block h' k \<Longrightarrow> h = h'"
  unfolding mix_block_def
  by (drule add_right_imp_eq, drule mult_consts_inj(3), drule ROTL32_inj; auto simp: xor_cancel dest: scramble_inj)+

lemma drop_bit_all: "32 \<le> n \<Longrightarrow> drop_bit n (x :: uint32) = 0"
  by (auto simp: bit_eq_iff bit_simps dest: bit_imp_le_length)

lemma xorshift16_inj:
  fixes x y :: uint32
  assumes "x XOR drop_bit 16 x = y XOR drop_bit 16 y"
  shows "x = y"
proof -
  have undo: "z = (z XOR drop_bit 16 z) XOR drop_bit 16 (z XOR drop_bit 16 z)" for z :: uint32
    by (simp add: drop_bit_xor drop_bit_drop_bit drop_bit_all xor.assoc)
  show ?thesis by (subst (1 2) undo) (simp only: assms)
qed

lemma xorshift13_inj:
  fixes x y :: uint32
  assumes "x XOR drop_bit 13 x = y XOR drop_bit 13 y"
  shows "x = y"
proof -
  define f where "f z = z XOR drop_bit 13 z" for z :: uint32
  have undo: "z = f z XOR drop_bit 13 (f z) XOR drop_bit 26 (f z)" for z
  proof -
    have "drop_bit 13 (f z) = drop_bit 13 z XOR drop_bit 26 z" "drop_bit 26 (f z) = drop_bit 26 z"
      by (simp_all add: f_def drop_bit_xor drop_bit_drop_bit drop_bit_all)
    then have "f z XOR drop_bit 13 (f z) XOR drop_bit 26 (f z) =
        (z XOR drop_bit 13 z) XOR (drop_bit 13 z XOR drop_bit 26 z) XOR drop_bit 26 z"
      by (simp only: f_def)
    also have "\<dots> = z" by (auto simp: bit_eq_iff bit_xor_iff)
    finally show ?thesis by simp
  qed
  have "f x = f y" using assms by (simp add: f_def)
  then show ?thesis by (subst undo [of x], subst undo [of y]) simp
qed

lemma finalize_inj: "finalize a = finalize b \<Longrightarrow> a = b"
  unfolding finalize_def Let_def
  by (drule xorshift16_inj, drule mult_consts_inj(5), drule xorshift13_inj, drule mult_consts_inj(4),
      erule xorshift16_inj)

text \<open>Different bytes give different words.\<close>

lemma bit_byte_word:
  "bit (push_bit s (ucast (b :: byte) :: uint32)) n \<longleftrightarrow> s \<le> n \<and> n < 32 \<and> n < s + 8 \<and> bit b (n - s)"
  by (auto simp: bit_simps dest: bit_imp_le_length)

lemma byte_of_load:
  assumes "i < 4" "n < 8"
  shows "bit (load_uint32 b) (8 * i + n) \<longleftrightarrow> bit (b ! i) n"
proof -
  have "i = 0 \<or> i = 1 \<or> i = 2 \<or> i = 3" using assms(1) by auto
  then show ?thesis
    using assms(2) bit_byte_word [of 0 "b ! 0"]
    by (elim disjE) (auto simp: load_uint32_def bit_or_iff bit_byte_word)
qed

lemma load_uint32_inj:
  assumes "load_uint32 a = load_uint32 b" "length a = 4" "length b = 4"
  shows "a = b"
proof (rule nth_equalityI)
  fix i assume "i < length a"
  then have i: "i < 4" using assms(2) by simp
  show "a ! i = b ! i"
  proof (rule bit_word_eqI)
    fix n assume "n < LENGTH(8)"
    then have "n < 8" by simp
    then show "bit (a ! i) n = bit (b ! i) n"
      using byte_of_load [OF i, of n a] byte_of_load [OF i, of n b] assms(1) by simp
  qed
qed (simp add: assms)

lemma byte_of_tail:
  assumes "i < length r" "length r < 4" "n < 8"
  shows "bit (tail_word r) (8 * i + n) \<longleftrightarrow> bit (r ! i) n"
proof -
  have "length r = 1 \<and> i = 0 \<or> length r = 2 \<and> i \<le> 1 \<or> length r = 3 \<and> i \<le> 2" using assms(1,2) by auto
  then have "length r = 1 \<and> i = 0 \<or> length r = 2 \<and> (i = 0 \<or> i = 1) \<or> length r = 3 \<and> (i = 0 \<or> i = 1 \<or> i = 2)"
    by auto
  then show ?thesis
    using assms(3) bit_byte_word [of 0 "r ! 0"]
    by (elim disjE conjE) (auto simp: tail_word_def Let_def bit_xor_iff bit_byte_word)
qed

lemma tail_word_inj:
  assumes "tail_word a = tail_word b" "length a = length b" "length b < 4"
  shows "a = b"
proof (rule nth_equalityI)
  fix i assume i: "i < length a"
  show "a ! i = b ! i"
  proof (rule bit_word_eqI)
    fix n assume "n < LENGTH(8)"
    then have "n < 8" by simp
    then show "bit (a ! i) n = bit (b ! i) n"
      using byte_of_tail [of i a n] byte_of_tail [of i b n] assms i by simp
  qed
qed (simp add: assms)

lemma mix_tail_inj:
  "mix_tail r h = mix_tail r h' \<Longrightarrow> h = h'"
  "mix_tail r h = mix_tail r' h \<Longrightarrow> length r = length r' \<Longrightarrow> length r' < 4 \<Longrightarrow> r = r'"
  by (auto simp: mix_tail_def xor_cancel split: if_splits dest!: scramble_inj intro: tail_word_inj)

section \<open>Keys that differ in one place\<close>

definition chunk :: "byte list \<Rightarrow> nat \<Rightarrow> byte list" where
  "chunk key i = take 4 (drop (4 * i) key)"

definition body :: "byte list \<Rightarrow> nat list \<Rightarrow> uint32 \<Rightarrow> uint32" where
  "body key is h = foldl (\<lambda>hash i. mix_block hash (block_at key i)) h is"

lemma body_simps [simp]:
  "body key [] h = h" "body key (i # is) h = body key is (mix_block h (block_at key i))"
  "body key (is @ js) h = body key js (body key is h)"
  by (simp_all add: body_def)

lemma body_cong: "(\<And>i. i \<in> set is \<Longrightarrow> chunk a i = chunk b i) \<Longrightarrow> body a is h = body b is h"
  by (induction "is" arbitrary: h) (auto simp: block_at_def chunk_def)

lemma body_inj: "body key is h = body key is h' \<Longrightarrow> h = h'"
  by (induction "is" arbitrary: h h') (auto dest: mix_block_inj(2))

lemma murmur_body:
  "murmur_hash3 key seed =
     finalize (mix_tail (chunk key (length key div 4)) (body key [0 ..< length key div 4] seed)
       XOR of_nat (length key))"
proof -
  have "length key - 4 * (length key div 4) < 4" by presburger
  then have "drop (4 * (length key div 4)) key = chunk key (length key div 4)"
    by (simp add: chunk_def)
  then show ?thesis by (simp add: murmur_hash3_def body_def Let_def)
qed

lemma length_chunk: "length (chunk key i) = min 4 (length key - 4 * i)"
  by (simp add: chunk_def)

lemma body_differs:
  assumes "i < n" "4 * n \<le> length a" "length a = length b" "chunk a i \<noteq> chunk b i"
    "\<And>j. j \<noteq> i \<Longrightarrow> chunk a j = chunk b j"
  shows "body a [0 ..< n] h \<noteq> body b [0 ..< n] h"
proof
  have n: "[0 ..< n] = [0 ..< i] @ i # [Suc i ..< n]"
    using assms(1) by (metis less_imp_add_positive upt_add_eq_append upt_conv_Cons le0 less_imp_le_nat add_0)
  assume eq: "body a [0 ..< n] h = body b [0 ..< n] h"
  have pre: "body a [0 ..< i] h = body b [0 ..< i] h"
    by (rule body_cong) (use assms(5) in auto)
  let ?h = "body b [0 ..< i] h"
  have "body a [Suc i ..< n] (mix_block ?h (block_at a i)) = body a [Suc i ..< n] (mix_block ?h (block_at b i))"
    using eq pre body_cong [of "[Suc i ..< n]" a b "mix_block ?h (block_at b i)"] assms(5) by (simp add: n)
  then have "block_at a i = block_at b i" by (auto dest: body_inj mix_block_inj(1))
  moreover have "length (chunk a i) = 4" "length (chunk b i) = 4"
    using assms(1-3) by (simp_all add: length_chunk)
  ultimately have "chunk a i = chunk b i"
    using load_uint32_inj [of "chunk a i" "chunk b i"] by (simp add: block_at_def chunk_def)
  with assms(4) show False by simp
qed

section \<open>Properties\<close>

text \<open>C30. Two keys of the same length that differ only inside one aligned block of four bytes (or
  only in the bytes after the last block) never have the same hash, for any seed; and no key has
  the same hash under two seeds.\<close>

theorem murmur_no_near_collision:
  "(length a = length b \<and> chunk a i \<noteq> chunk b i \<and> (\<forall>j. j \<noteq> i \<longrightarrow> chunk a j = chunk b j) \<longrightarrow>
      murmur_hash3 a seed \<noteq> murmur_hash3 b seed) \<and>
   (seed \<noteq> seed' \<longrightarrow> murmur_hash3 a seed \<noteq> murmur_hash3 a seed')"
proof (intro conjI impI notI)
  assume k: "length a = length b \<and> chunk a i \<noteq> chunk b i \<and> (\<forall>j. j \<noteq> i \<longrightarrow> chunk a j = chunk b j)"
  let ?n = "length b div 4"
  assume "murmur_hash3 a seed = murmur_hash3 b seed"
  then have eq: "mix_tail (chunk a ?n) (body a [0 ..< ?n] seed) = mix_tail (chunk b ?n) (body b [0 ..< ?n] seed)"
    using k by (auto simp: murmur_body xor_cancel dest!: finalize_inj)
  consider "i < ?n" | "i = ?n" | "?n < i" by linarith
  then show False
  proof cases
    case 1
    then have "body a [0 ..< ?n] seed = body b [0 ..< ?n] seed"
      using eq k by (auto dest: mix_tail_inj(1))
    moreover have "body a [0 ..< ?n] seed \<noteq> body b [0 ..< ?n] seed"
      by (rule body_differs [OF 1]) (use k in auto)
    ultimately show False by simp
  next
    case 2
    have "body a [0 ..< ?n] seed = body b [0 ..< ?n] seed"
      by (rule body_cong) (use k 2 in auto)
    moreover have "length (chunk a ?n) = length (chunk b ?n)" using k by (simp add: length_chunk)
    moreover have "length b - 4 * ?n < 4" by presburger
    then have "length (chunk b ?n) < 4" by (simp add: length_chunk)
    ultimately show False using eq k 2 mix_tail_inj(2) [of "chunk a ?n" _ "chunk b ?n"] by auto
  next
    case 3
    then have "length b \<le> 4 * i" by presburger
    then show False using k by (simp add: chunk_def)
  qed
next
  assume "murmur_hash3 a seed = murmur_hash3 a seed'" "seed \<noteq> seed'"
  then show False
    by (auto simp: murmur_body xor_cancel dest!: finalize_inj mix_tail_inj(1) body_inj)
qed

text \<open>The method names \<open>Echo\<close> and \<open>Ecko\<close>.\<close>

theorem murmur_no_near_collision_witness:
  "murmur_hash3 [0x45, 0x63, 0x68, 0x6F] 20161001 \<noteq> murmur_hash3 [0x45, 0x63, 0x6B, 0x6F] 20161001 \<and>
   murmur_hash3 [0x68, 0x65, 0x6C, 0x6C, 0x6F] 0 = 0x248BFA47"
proof
  have "chunk [0x45, 0x63, 0x68, 0x6F] 0 \<noteq> chunk [0x45, 0x63, 0x6B, 0x6F] 0" by (simp add: chunk_def)
  moreover have "chunk [0x45, 0x63, 0x68, 0x6F] j = chunk [0x45, 0x63, 0x6B, 0x6F] j" if "j \<noteq> 0" for j
    using that by (cases j) (simp_all add: chunk_def)
  ultimately show "murmur_hash3 [0x45, 0x63, 0x68, 0x6F] 20161001 \<noteq> murmur_hash3 [0x45, 0x63, 0x6B, 0x6F] 20161001"
    using murmur_no_near_collision [of "[0x45, 0x63, 0x68, 0x6F]" "[0x45, 0x63, 0x6B, 0x6F]" 0] by simp
  show "murmur_hash3 [0x68, 0x65, 0x6C, 0x6C, 0x6F] 0 = 0x248BFA47" by code_simp
qed

end
