(* ===== verification/Service.thy ===== *)
theory Service
  imports Murmur
begin

text \<open>
  Methods, services and the execution of one request: \<open>status_code.h\<close>, \<open>status.h\<close>, \<open>method.h\<close>,
  \<open>service_method.h\<close>, \<open>method_handler.h\<close>, \<open>service.h\<close>, \<open>call.h\<close> and \<open>task.h\<close>. The protobuf library
  (parsing a request, serialising a reply) and the application's handler functions are parameters;
  a handler object is the function that its virtual \<open>RunHandler\<close> is.
\<close>

section \<open>Status\<close>

datatype StatusCode =
  OK | ERROR | UNIMPLEMENTED | INVALID_ARGUMENT | METHOD_NOT_EXIST | PROTOCOL_ERROR
| PERMISSION_DENIED | UNAUTHENTICATED | CONNECT_CLOSED

record status =
  code :: StatusCode
  message :: string

definition Status :: "StatusCode \<Rightarrow> string \<Rightarrow> status" where
  "Status c m = \<lparr>code = c, message = m\<rparr>"

definition Status_OK :: status where
  "Status_OK = \<lparr>code = OK, message = []\<rparr>"

definition is_ok :: "status \<Rightarrow> bool" where
  "is_ok s \<longleftrightarrow> code s = OK"

section \<open>Methods\<close>

datatype MethodType = NORMAL_METHOD

text \<open>A method is named by a C string: its hash covers the bytes before the first NUL.\<close>

definition c_string :: "string \<Rightarrow> string" where
  "c_string s = takeWhile (\<lambda>c. c \<noteq> CHR 0x00) s"

definition c_bytes :: "string \<Rightarrow> byte list" where
  "c_bytes s = map (\<lambda>c. of_nat (of_char c)) (c_string s)"

definition hash_code :: "string \<Rightarrow> uint32" where
  "hash_code method_name = murmur_hash3 (c_bytes method_name) 20161001"

text \<open>\<open>RunHandler\<close>: context and parameters in, status and the new contents of \<open>*result\<close> out, given
  the old ones.\<close>

type_synonym 'ctx run_handler = "'ctx \<Rightarrow> string \<Rightarrow> string \<Rightarrow> status \<times> string"

record 'ctx service_method =
  method_name :: string
  method_type :: MethodType
  method_hash :: uint32
  handler :: "'ctx run_handler option"

definition ServiceMethod :: "string \<Rightarrow> MethodType \<Rightarrow> 'ctx run_handler option \<Rightarrow> 'ctx service_method" where
  "ServiceMethod name ty h =
     \<lparr>method_name = name, method_type = ty, method_hash = hash_code name, handler = h\<rparr>"

definition SetHandler :: "'ctx run_handler option \<Rightarrow> 'ctx service_method \<Rightarrow> 'ctx service_method" where
  "SetHandler h sm = sm\<lparr>handler := h\<rparr>"

text \<open>\<open>MethodHandlerImpl::RunHandler\<close>.\<close>

definition RunHandler ::
  "(string \<Rightarrow> 'req option) \<Rightarrow> ('ctx \<Rightarrow> 'req \<Rightarrow> status \<times> 'rep) \<Rightarrow> ('rep \<Rightarrow> string) \<Rightarrow> 'ctx run_handler" where
  "RunHandler ParseFromString func SerializeToString server_context param result =
     (case ParseFromString param of
        None \<Rightarrow> (Status PROTOCOL_ERROR [], result)
      | Some request \<Rightarrow>
          (case func server_context request of (st, reply) \<Rightarrow> (st, SerializeToString reply)))"

section \<open>Services\<close>

type_synonym 'ctx methods = "uint32 \<Rightarrow> 'ctx service_method option"

definition AddMethod :: "'ctx service_method \<Rightarrow> 'ctx methods \<Rightarrow> 'ctx methods res" where
  "AddMethod sm methods =
     (case methods (method_hash sm) of
        None \<Rightarrow> Inr (methods(method_hash sm \<mapsto> sm))
      | Some _ \<Rightarrow> Inl (ProcessExit 0))"

definition GetMethod :: "'ctx methods \<Rightarrow> uint32 \<Rightarrow> 'ctx service_method option" where
  "GetMethod methods method_id =
     (case methods method_id of Some sm \<Rightarrow> Some sm | None \<Rightarrow> None)"

definition run_method :: "'ctx service_method \<Rightarrow> 'ctx \<Rightarrow> string \<Rightarrow> string \<Rightarrow> (status \<times> string) res" where
  "run_method sm ctx param result =
     (case handler sm of None \<Rightarrow> Inl NullDeref | Some h \<Rightarrow> Inr (h ctx param result))"

definition CallMethod ::
  "'ctx methods \<Rightarrow> 'ctx \<Rightarrow> uint32 \<Rightarrow> string \<Rightarrow> string \<Rightarrow> (status \<times> string) res" where
  "CallMethod methods ctx method_id param response =
     (case methods method_id of
        None \<Rightarrow> Inr (Status METHOD_NOT_EXIST ''method not exist.'', response)
      | Some sm \<Rightarrow> run_method sm ctx param response)"

section \<open>Calls and tasks\<close>

record 'ctx call =
  server_context :: "'ctx option"
  service_method :: "'ctx service_method option"
  params :: "string option"

definition Call :: "'ctx call" where
  "Call = \<lparr>server_context = None, service_method = None, params = None\<rparr>"

text \<open>\<open>Call::operator()\<close>. The context is passed on as a pointer; the parameters are dereferenced
  by the handler.\<close>

definition call_run :: "'ctx call \<Rightarrow> string \<Rightarrow> (status \<times> string) res" where
  "call_run c result =
     (case service_method c of
        None \<Rightarrow> Inr (Status METHOD_NOT_EXIST ''method not exist.'', result)
      | Some sm \<Rightarrow>
          (case (server_context c, params c) of
             (Some ctx, Some p) \<Rightarrow> run_method sm ctx p result
           | _ \<Rightarrow> Inl NullDeref))"

record request_msg =
  method_id :: uint32
  contents :: string

datatype ResponseType = RESPONSE_OK | RESPONSE_ERROR

record response_msg =
  response_code :: ResponseType
  info :: string
  response_contents :: string

definition response_clear :: response_msg where
  "response_clear = \<lparr>response_code = RESPONSE_OK, info = [], response_contents = []\<rparr>"

record response =
  rfd :: int
  response_content :: response_msg

record 'ctx task_rec =
  tfd :: int
  tcall :: "'ctx call"
  request_content :: request_msg
  store_response :: string

definition InitCall ::
  "'ctx option \<Rightarrow> 'ctx service_method option \<Rightarrow> string option \<Rightarrow> 'ctx task_rec \<Rightarrow> 'ctx task_rec" where
  "InitCall ctx sm p t = t\<lparr>tcall := \<lparr>server_context = ctx, service_method = sm, params = p\<rparr>\<rparr>"

text \<open>\<open>Task::operator()\<close>: the task afterwards and the response it publishes, if any. The response
  object comes from the ring and may hold an old response (\<open>slot\<close>).\<close>

definition task_run :: "'ctx task_rec \<Rightarrow> response \<Rightarrow> ('ctx task_rec \<times> response option) res" where
  "task_run t slot =
     (if tfd t = - 1 then Inr (t, None)
      else
        bind_res (call_run (tcall t) []) (\<lambda>(result, store).
        let t = t\<lparr>store_response := store\<rparr>;
            r = slot\<lparr>response_content := response_clear\<rparr>;
            r = r\<lparr>response_content := (response_content r)\<lparr>response_contents := store_response t\<rparr>\<rparr>;
            r = (if is_ok result
                 then r\<lparr>response_content := (response_content r)\<lparr>response_code := RESPONSE_OK\<rparr>\<rparr>
                 else r\<lparr>response_content := (response_content r)
                          \<lparr>response_code := RESPONSE_ERROR, info := c_string (message result)\<rparr>\<rparr>);
            r = r\<lparr>rfd := tfd t\<rparr>
        in Inr (t, Some r)))"

section \<open>Registration\<close>

fun add_all :: "'ctx service_method list \<Rightarrow> 'ctx methods \<Rightarrow> 'ctx methods res" where
  "add_all [] ms = Inr ms"
| "add_all (sm # sms) ms = bind_res (AddMethod sm ms) (add_all sms)"

lemma add_all_result:
  "add_all sms ms =
     (if distinct (map method_hash sms) \<and> (\<forall>sm \<in> set sms. ms (method_hash sm) = None)
      then Inr (ms ++ map_of (rev (map (\<lambda>sm. (method_hash sm, sm)) sms)))
      else Inl (ProcessExit 0))"
proof (induction sms arbitrary: ms)
  case (Cons sm sms)
  show ?case
  proof (cases "ms (method_hash sm)")
    case None
    have "(distinct (map method_hash sms) \<and> (\<forall>x \<in> set sms. (ms(method_hash sm \<mapsto> sm)) (method_hash x) = None)) =
        (distinct (map method_hash (sm # sms)) \<and> (\<forall>x \<in> set (sm # sms). ms (method_hash x) = None))"
      using None by (auto simp: image_iff)
    moreover have "(ms(method_hash sm \<mapsto> sm)) ++ map_of (rev (map (\<lambda>sm. (method_hash sm, sm)) sms)) =
        ms ++ map_of (rev (map (\<lambda>sm. (method_hash sm, sm)) (sm # sms)))"
      by (simp add: map_add_def fun_eq_iff map_of_append split: option.splits)
    ultimately show ?thesis
      using Cons.IH [of "ms(method_hash sm \<mapsto> sm)"] None by (simp only: add_all.simps AddMethod_def option.case bind_res_simps)
  next
    case (Some x)
    then show ?thesis by (auto simp: AddMethod_def)
  qed
qed simp

lemma map_of_rev_distinct:
  "distinct (map method_hash sms) \<Longrightarrow> sm \<in> set sms \<Longrightarrow>
   map_of (rev (map (\<lambda>sm. (method_hash sm, sm)) sms)) (method_hash sm) = Some sm"
  by (rule map_of_is_SomeI) (auto simp: rev_map o_def distinct_rev simp flip: rev_map)

lemma map_of_rev_none:
  "h \<notin> method_hash ` set sms \<Longrightarrow> map_of (rev (map (\<lambda>sm. (method_hash sm, sm)) sms)) h = None"
  by (auto simp: map_of_eq_None_iff image_image)

section \<open>Properties\<close>

text \<open>C23. Registering methods succeeds exactly when their hash codes are distinct, and otherwise the
  process exits; afterwards a request with a method's identifier reaches that method's handler and
  any other identifier is answered with \<open>METHOD_NOT_EXIST\<close>.\<close>

theorem service_dispatch:
  "(if distinct (map method_hash sms)
    then \<exists>ms. add_all sms Map.empty = Inr ms \<and>
      (\<forall>sm \<in> set sms. GetMethod ms (method_hash sm) = Some sm \<and>
         CallMethod ms ctx (method_hash sm) p r = run_method sm ctx p r) \<and>
      (\<forall>h. h \<notin> method_hash ` set sms \<longrightarrow> GetMethod ms h = None \<and>
         CallMethod ms ctx h p r = Inr (Status METHOD_NOT_EXIST ''method not exist.'', r))
    else add_all sms Map.empty = Inl (ProcessExit 0))"
proof (cases "distinct (map method_hash sms)")
  case True
  then show ?thesis
    using map_of_rev_distinct [of sms] map_of_rev_none [of _ sms]
    by (auto simp: add_all_result GetMethod_def CallMethod_def)
next
  case False
  then show ?thesis by (simp add: add_all_result)
qed

definition echo_method :: "unit service_method" where
  "echo_method = ServiceMethod ''Echo'' NORMAL_METHOD (Some (\<lambda>_ p _. (Status_OK, p)))"

definition add_method :: "unit service_method" where
  "add_method = ServiceMethod ''Add'' NORMAL_METHOD (Some (\<lambda>_ p _. (Status_OK, [])))"

theorem service_dispatch_witness:
  "\<exists>ms. add_all [echo_method, add_method] Map.empty = Inr ms \<and>
     CallMethod ms () (method_hash echo_method) ''hi'' [] = Inr (Status_OK, ''hi'')"
proof -
  have "distinct (map method_hash [echo_method, add_method])" by code_simp
  then show ?thesis
    using service_dispatch [of "[echo_method, add_method]" "()" "''hi''" "[]"]
    by (auto simp: run_method_def echo_method_def ServiceMethod_def)
qed

lemma task_answer:
  assumes "fd \<noteq> - 1"
  shows "map_sum id (\<lambda>(t', r). r)
      (task_run ((InitCall (Some ctx) (GetMethod ms (method_id rq)) (Some (contents rq)) t)\<lparr>tfd := fd\<rparr>) slot) =
    map_sum id (\<lambda>(st, out). Some \<lparr>rfd = fd, response_content =
        \<lparr>response_code = (if is_ok st then RESPONSE_OK else RESPONSE_ERROR),
         info = (if is_ok st then [] else c_string (message st)), response_contents = out\<rparr>\<rparr>)
      (CallMethod ms ctx (method_id rq) (contents rq) [])"
proof (cases "ms (method_id rq)")
  case None
  then show ?thesis
    using assms
    by (simp add: task_run_def InitCall_def GetMethod_def call_run_def CallMethod_def Status_def is_ok_def
        response_clear_def Let_def)
next
  case (Some sm)
  then show ?thesis
    using assms
    by (cases "run_method sm ctx (contents rq) []")
      (auto simp: task_run_def InitCall_def GetMethod_def call_run_def CallMethod_def
        response_clear_def Let_def split: prod.splits)
qed

text \<open>A task answers exactly as \<open>Service::CallMethod\<close> would for the request's method and
  contents: the response carries the request's descriptor, what the call stored, and the call's
  status with its message (up to its first NUL); nothing of an earlier response in the same slot of the ring remains.\<close>

theorem task_answers_as_call:
  assumes "fd \<noteq> - 1"
  shows "map_sum id (\<lambda>(t', r). r)
      (task_run ((InitCall (Some ctx) (GetMethod ms (method_id rq)) (Some (contents rq)) t)\<lparr>tfd := fd\<rparr>) slot) =
    map_sum id (\<lambda>(st, out). Some \<lparr>rfd = fd, response_content =
        \<lparr>response_code = (if is_ok st then RESPONSE_OK else RESPONSE_ERROR),
         info = (if is_ok st then [] else c_string (message st)), response_contents = out\<rparr>\<rparr>)
      (CallMethod ms ctx (method_id rq) (contents rq) [])"
  by (rule task_answer; fact assms)

definition idle_task :: "unit task_rec" where
  "idle_task = \<lparr>tfd = - 1, tcall = Call, request_content = \<lparr>method_id = 0, contents = []\<rparr>, store_response = []\<rparr>"

theorem task_answers_as_call_witness:
  "map_sum id (\<lambda>(t', r). r)
      (task_run ((InitCall (Some ()) (GetMethod Map.empty 7) (Some ''x'') idle_task)\<lparr>tfd := 5\<rparr>)
        \<lparr>rfd = 9, response_content =
           \<lparr>response_code = RESPONSE_OK, info = ''old'', response_contents = ''old''\<rparr>\<rparr>) =
    Inr (Some \<lparr>rfd = 5, response_content =
      \<lparr>response_code = RESPONSE_ERROR, info = ''method not exist.'', response_contents = []\<rparr>\<rparr>)"
  using task_answers_as_call [of 5 "()" Map.empty "\<lparr>method_id = 7, contents = ''x''\<rparr>" idle_task
    "\<lparr>rfd = 9, response_content = \<lparr>response_code = RESPONSE_OK, info = ''old'', response_contents = ''old''\<rparr>\<rparr>"]
  by (simp add: CallMethod_def is_ok_def Status_def c_string_def)

end
