(* ===== verification/Output_Buffer.thy ===== *)
theory Output_Buffer
  imports Circ_Buf
begin

text \<open>
  The output buffer of a connection, \<open>output_buffer.h\<close>: a block of bytes with two 32-bit offsets.
  The bytes between them are still to be sent. A byte that was never written is \<open>None\<close>; the empty
  block is the null pointer. The pointers the class hands out are offsets here; \<open>put_bytes\<close> is a
  caller that writes through one, \<open>contents_bytes\<close> one that reads.
\<close>

section \<open>State and operations\<close>

record output_buffer =
  obuf :: "byte option list"
  buffer_size_of :: uint32
  used_buffer_size :: uint32
  consume_offset :: uint32

definition MAX_CONSUME_OFFSET :: uint32 where "MAX_CONSUME_OFFSET = 1024"

definition realloc_bytes :: "(ull \<Rightarrow> bool) \<Rightarrow> byte option list \<Rightarrow> uint32 \<Rightarrow> byte option list" where
  "realloc_bytes alloc b n =
     (case mm_realloc alloc (\<lambda>_. None) b (ucast n) (unat n) of None \<Rightarrow> [] | Some b' \<Rightarrow> b')"

definition OutputBuffer :: "(ull \<Rightarrow> bool) \<Rightarrow> uint32 \<Rightarrow> output_buffer" where
  "OutputBuffer alloc n =
     \<lparr>obuf = realloc_bytes alloc [] n, buffer_size_of = n, used_buffer_size = 0, consume_offset = 0\<rparr>"

text \<open>The rounded size is computed in 64 bits and stored in 32.\<close>

definition Resize :: "(ull \<Rightarrow> bool) \<Rightarrow> uint32 \<Rightarrow> output_buffer \<Rightarrow> output_buffer" where
  "Resize alloc n ob =
     (let ob = ob\<lparr>buffer_size_of := ucast (roundup_pow_of_two (ucast n))\<rparr>
      in ob\<lparr>obuf := realloc_bytes alloc (obuf ob) (buffer_size_of ob)\<rparr>)"

definition surplus_size :: "output_buffer \<Rightarrow> uint32" where
  "surplus_size ob = buffer_size_of ob - used_buffer_size ob"

definition BufferContentsSize :: "output_buffer \<Rightarrow> uint32" where
  "BufferContentsSize ob = used_buffer_size ob - consume_offset ob"

text \<open>\<open>memmove\<close> and \<open>memcpy\<close> of \<open>n\<close> bytes from \<open>src\<close> to the start of the block.\<close>

definition memmove_to_start :: "nat \<Rightarrow> nat \<Rightarrow> byte option list \<Rightarrow> byte option list res" where
  "memmove_to_start src n b =
     (if src + n > length b then Inl OutOfBounds else Inr (take n (drop src b) @ drop n b))"

definition memcpy_to_start :: "nat \<Rightarrow> nat \<Rightarrow> byte option list \<Rightarrow> byte option list res" where
  "memcpy_to_start src n b =
     (if 0 < n \<and> src < n then Inl Overlap else memmove_to_start src n b)"

definition AdjustBuffer :: "output_buffer \<Rightarrow> output_buffer res" where
  "AdjustBuffer ob =
     (if used_buffer_size ob = consume_offset ob
      then Inr (ob\<lparr>used_buffer_size := 0, consume_offset := 0\<rparr>)
      else if consume_offset ob > MAX_CONSUME_OFFSET then
        (let n = used_buffer_size ob - consume_offset ob
         in bind_res (if n > consume_offset ob
                      then memmove_to_start (unat (consume_offset ob)) (unat n) (obuf ob)
                      else memcpy_to_start (unat (consume_offset ob)) (unat n) (obuf ob))
              (\<lambda>b. Inr (ob\<lparr>obuf := b, used_buffer_size := n, consume_offset := 0\<rparr>)))
      else Inr ob)"

definition Consume :: "uint32 \<Rightarrow> output_buffer \<Rightarrow> output_buffer" where
  "Consume n ob = ob\<lparr>consume_offset := consume_offset ob + n\<rparr>"

definition GetBufferContents :: "output_buffer \<Rightarrow> nat" where
  "GetBufferContents ob = unat (consume_offset ob)"

definition get_empty_buffer :: "(ull \<Rightarrow> bool) \<Rightarrow> uint32 \<Rightarrow> output_buffer \<Rightarrow> nat \<times> output_buffer" where
  "get_empty_buffer alloc n ob =
     (let ob = (if n > surplus_size ob
                then Resize alloc (buffer_size_of ob + (n - surplus_size ob)) ob else ob)
      in (unat (used_buffer_size ob), ob\<lparr>used_buffer_size := used_buffer_size ob + n\<rparr>))"

text \<open>What the server does with the pointers.\<close>

definition store_bytes :: "nat \<Rightarrow> byte list \<Rightarrow> output_buffer \<Rightarrow> output_buffer res" where
  "store_bytes p data ob =
     (if data = [] then Inr ob
      else if obuf ob = [] then Inl NullDeref
      else if p + length data > length (obuf ob) then Inl OutOfBounds
      else Inr (ob\<lparr>obuf := take p (obuf ob) @ map Some data @ drop (p + length data) (obuf ob)\<rparr>))"

definition put_bytes :: "(ull \<Rightarrow> bool) \<Rightarrow> byte list \<Rightarrow> output_buffer \<Rightarrow> output_buffer res" where
  "put_bytes alloc data ob =
     (case get_empty_buffer alloc (of_nat (length data)) ob of (p, ob) \<Rightarrow> store_bytes p data ob)"

definition contents_bytes :: "output_buffer \<Rightarrow> byte option list res" where
  "contents_bytes ob =
     (let p = GetBufferContents ob; n = unat (BufferContentsSize ob)
      in if p + n > length (obuf ob) then Inl OutOfBounds else Inr (take n (drop p (obuf ob))))"

section \<open>The bytes still to be sent\<close>

definition ob_ok :: "output_buffer \<Rightarrow> bool" where
  "ob_ok ob \<longleftrightarrow>
     length (obuf ob) = unat (buffer_size_of ob) \<and> consume_offset ob \<le> used_buffer_size ob \<and>
     used_buffer_size ob \<le> buffer_size_of ob \<and>
     (\<forall>i. unat (consume_offset ob) \<le> i \<and> i < unat (used_buffer_size ob) \<longrightarrow> obuf ob ! i \<noteq> None)"

definition unsent :: "output_buffer \<Rightarrow> byte list" where
  "unsent ob = map the (take (unat (used_buffer_size ob) - unat (consume_offset ob))
                          (drop (unat (consume_offset ob)) (obuf ob)))"

lemma ob_okD:
  assumes "ob_ok ob"
  shows "length (obuf ob) = unat (buffer_size_of ob)"
    "unat (consume_offset ob) \<le> unat (used_buffer_size ob)"
    "unat (used_buffer_size ob) \<le> unat (buffer_size_of ob)"
    "unat (BufferContentsSize ob) = unat (used_buffer_size ob) - unat (consume_offset ob)"
  using assms by (simp_all add: ob_ok_def word_le_nat_alt BufferContentsSize_def unat_sub)

lemma length_unsent: "ob_ok ob \<Longrightarrow> length (unsent ob) = unat (BufferContentsSize ob)"
  using ob_okD [of ob] by (simp add: unsent_def)

lemma map_Some_the: "(\<And>i. i < length xs \<Longrightarrow> xs ! i \<noteq> None) \<Longrightarrow> map Some (map the xs) = xs"
  by (intro nth_equalityI) auto

lemma contents_bytes_ok:
  assumes "ob_ok ob"
  shows "contents_bytes ob = Inr (map Some (unsent ob))"
proof -
  note d = ob_okD [OF assms]
  let ?xs = "take (unat (used_buffer_size ob) - unat (consume_offset ob))
    (drop (unat (consume_offset ob)) (obuf ob))"
  have "map Some (map the ?xs) = ?xs"
    using assms d by (intro map_Some_the) (auto simp: ob_ok_def)
  then show ?thesis
    using d by (simp add: contents_bytes_def GetBufferContents_def unsent_def Let_def)
qed

lemma Consume_ok:
  assumes "ob_ok ob" "unat n \<le> length (unsent ob)"
  shows "ob_ok (Consume n ob)" "unsent (Consume n ob) = drop (unat n) (unsent ob)"
proof -
  note d = ob_okD [OF assms(1)]
  have n: "unat n \<le> unat (used_buffer_size ob) - unat (consume_offset ob)"
    using assms(2) d by (simp add: length_unsent [OF assms(1)])
  have "unat (consume_offset ob) + unat n < 2 ^ 32"
    using n d(2) unat_lt_power [of "used_buffer_size ob"] by simp
  then have c: "unat (consume_offset ob + n) = unat (consume_offset ob) + unat n"
    by (subst unat_add_lem [THEN iffD1]) auto
  show "ob_ok (Consume n ob)"
    using assms(1) n d c by (auto simp: ob_ok_def Consume_def word_le_nat_alt)
  show "unsent (Consume n ob) = drop (unat n) (unsent ob)"
    by (simp add: unsent_def Consume_def drop_map drop_take c add.commute [of "unat n"])
qed

lemma AdjustBuffer_ok:
  assumes "ob_ok ob"
  shows "\<exists>ob'. AdjustBuffer ob = Inr ob' \<and> ob_ok ob' \<and> unsent ob' = unsent ob \<and>
    buffer_size_of ob' = buffer_size_of ob"
proof -
  note d = ob_okD [OF assms]
  let ?c = "consume_offset ob" and ?u = "used_buffer_size ob"
  have n: "unat (?u - ?c) = unat ?u - unat ?c" using d(4) by (simp add: BufferContentsSize_def)
  let ?b = "take (unat ?u - unat ?c) (drop (unat ?c) (obuf ob)) @ drop (unat ?u - unat ?c) (obuf ob)"
  let ?ob = "ob\<lparr>obuf := ?b, used_buffer_size := ?u - ?c, consume_offset := 0\<rparr>"
  have mm: "memmove_to_start (unat ?c) (unat (?u - ?c)) (obuf ob) = Inr ?b"
    using d n by (simp add: memmove_to_start_def)
  have mc: "memcpy_to_start (unat ?c) (unat (?u - ?c)) (obuf ob) = Inr ?b" if "\<not> ?u - ?c > ?c"
    using that mm n by (simp add: memcpy_to_start_def word_less_nat_alt not_less)
  have ok: "ob_ok ?ob"
  proof -
    have "?b ! i \<noteq> None" if "i < unat (?u - ?c)" for i
      using assms that n d by (auto simp: ob_ok_def nth_append)
    moreover have "length ?b = unat (buffer_size_of ob)" using d by simp
    moreover have "?u - ?c \<le> buffer_size_of ob" using n d by (simp add: word_le_nat_alt)
    ultimately show ?thesis by (simp add: ob_ok_def)
  qed
  have un: "unsent ?ob = unsent ob" using n d by (simp add: unsent_def)
  show ?thesis
  proof (cases "?u = ?c")
    case True
    then show ?thesis using d by (simp add: AdjustBuffer_def ob_ok_def unsent_def)
  next
    case False
    then show ?thesis
      using ok un mm mc assms by (auto simp: AdjustBuffer_def Let_def)
  qed
qed

lemma roundup_small:
  assumes "0 < unat n" "unat n \<le> 2 ^ 31"
  shows "unat n \<le> unat (ucast (roundup_pow_of_two (ucast (n :: uint32))) :: uint32)"
proof -
  have "unat n < 2 ^ 64" using assms(2) by simp
  then have u: "unat (ucast n :: ull) = unat n" by (simp add: unsigned_ucast_eq take_bit_nat_eq_self)
  have b: "bit_len (unat n - 1) \<le> 31" using assms by (intro bit_len_le) simp
  have "(ucast n :: ull) \<noteq> 0" using u assms(1) by (metis unat_0 less_irrefl)
  then have r: "unat (roundup_pow_of_two (ucast n)) = 2 ^ bit_len (unat n - 1)"
    using assms(2) by (simp add: unat_roundup_pow_of_two u)
  also have "\<dots> \<le> (2 :: nat) ^ 31" using b by (intro power_increasing) simp_all
  finally have "unat (roundup_pow_of_two (ucast n)) < 2 ^ 32" by simp
  then have "unat (ucast (roundup_pow_of_two (ucast n)) :: uint32) = unat (roundup_pow_of_two (ucast n))"
    by (simp add: unsigned_ucast_eq take_bit_nat_eq_self)
  moreover have "unat n - 1 < 2 ^ bit_len (unat n - 1)" by (rule bit_len_upper)
  ultimately show ?thesis using r assms(1) by simp
qed

lemma Resize_ok:
  assumes "ob_ok ob" "\<And>k. alloc k" "unat (buffer_size_of ob) \<le> unat n" "0 < unat n" "unat n \<le> 2 ^ 31"
  shows "ob_ok (Resize alloc n ob)" "unsent (Resize alloc n ob) = unsent ob"
    "used_buffer_size (Resize alloc n ob) = used_buffer_size ob"
    "consume_offset (Resize alloc n ob) = consume_offset ob"
    "unat n \<le> unat (buffer_size_of (Resize alloc n ob))"
proof -
  note d = ob_okD [OF assms(1)]
  let ?r = "Resize alloc n ob" and ?m = "ucast (roundup_pow_of_two (ucast n)) :: uint32"
  have m: "unat n \<le> unat ?m" by (rule roundup_small [OF assms(4,5)])
  have b: "obuf ?r = obuf ob @ replicate (unat ?m - length (obuf ob)) None"
    using assms(2,3) d m
    by (simp add: Resize_def realloc_bytes_def mm_realloc_def Let_def map_replicate_const)
  show o: "used_buffer_size ?r = used_buffer_size ob" "consume_offset ?r = consume_offset ob"
    by (simp_all add: Resize_def Let_def)
  have s: "buffer_size_of ?r = ?m" by (simp add: Resize_def Let_def)
  then show "unat n \<le> unat (buffer_size_of ?r)" using m by simp
  have le: "unat (used_buffer_size ob) \<le> unat ?m" using d m assms(3) by simp
  show "ob_ok ?r"
    using assms(1,3) d m le by (auto simp: ob_ok_def b o s nth_append word_le_nat_alt)
  show "unsent ?r = unsent ob"
    using d by (simp add: unsent_def b o)
qed

text \<open>Filling the bytes after the used ones.\<close>

lemma store_ok:
  assumes "ob_ok ob" "length data \<le> unat (buffer_size_of ob) - unat (used_buffer_size ob)"
    "ob' = ob\<lparr>used_buffer_size := used_buffer_size ob + of_nat (length data)\<rparr>"
  shows "\<exists>ob''. store_bytes (unat (used_buffer_size ob)) data ob' = Inr ob'' \<and> ob_ok ob'' \<and>
    unsent ob'' = unsent ob @ data \<and> unat (used_buffer_size ob'') = unat (used_buffer_size ob) + length data"
proof (cases "data = []")
  case True
  then show ?thesis using assms by (simp add: store_bytes_def)
next
  case False
  note d = ob_okD [OF assms(1)]
  let ?u = "unat (used_buffer_size ob)" and ?c = "unat (consume_offset ob)" and ?n = "length data"
  have fit: "?u + ?n \<le> unat (buffer_size_of ob)" using assms(2) d by simp
  then have "?u + ?n < 2 ^ 32" using unat_lt_power [of "buffer_size_of ob"] by simp
  moreover from this have "unat (of_nat ?n :: uint32) = ?n" by (simp add: unat_of_nat take_bit_nat_eq_self)
  ultimately have u: "unat (used_buffer_size ob + of_nat ?n) = ?u + ?n"
    by (subst unat_add_lem [THEN iffD1]) auto
  let ?b = "take ?u (obuf ob) @ map Some data @ drop (?u + ?n) (obuf ob)"
  let ?ob = "ob'\<lparr>obuf := ?b\<rparr>"
  have st: "store_bytes ?u data ob' = Inr ?ob"
    using False fit d by (auto simp: store_bytes_def assms(3))
  have len: "length ?b = length (obuf ob)" using fit d by simp
  have "?b ! i \<noteq> None" if "?c \<le> i" "i < ?u + ?n" for i
    using assms(1) that fit d by (cases "i < ?u") (auto simp: nth_append ob_ok_def)
  then have "ob_ok ?ob"
    using d fit u len by (simp add: ob_ok_def assms(3) word_le_nat_alt)
  moreover have "unsent ?ob = unsent ob @ data"
  proof -
    have "take (?u + ?n - ?c) (drop ?c ?b) = take (?u - ?c) (drop ?c (obuf ob)) @ map Some data"
    proof -
      have "drop ?c ?b = drop ?c (take ?u (obuf ob)) @ map Some data @ drop (?u + ?n) (obuf ob)"
        using d fit by simp
      moreover have "length (drop ?c (take ?u (obuf ob))) = ?u - ?c" using d by simp
      moreover have "?u + ?n - ?c = (?u - ?c) + ?n" using d by simp
      ultimately show ?thesis by (simp add: drop_take)
    qed
    then show ?thesis using u by (simp add: unsent_def assms(3) o_def)
  qed
  ultimately show ?thesis using st u assms(3) by auto
qed

lemma put_bytes_ok:
  assumes "ob_ok ob" "\<And>k. alloc k" "unat (used_buffer_size ob) + length data \<le> 2 ^ 31"
  shows "\<exists>ob'. put_bytes alloc data ob = Inr ob' \<and> ob_ok ob' \<and> unsent ob' = unsent ob @ data \<and>
    unat (used_buffer_size ob') = unat (used_buffer_size ob) + length data"
proof -
  note d = ob_okD [OF assms(1)]
  let ?n = "of_nat (length data) :: uint32"
  have n: "unat ?n = length data" using assms(3) by (simp add: unat_of_nat take_bit_nat_eq_self)
  have s: "unat (surplus_size ob) = unat (buffer_size_of ob) - unat (used_buffer_size ob)"
    using d by (simp add: surplus_size_def unat_sub word_le_nat_alt)
  show ?thesis
  proof (cases "?n > surplus_size ob")
    case False
    then have "length data \<le> unat (buffer_size_of ob) - unat (used_buffer_size ob)"
      using s n by (simp add: word_less_nat_alt)
    from store_ok [OF assms(1) this refl] show ?thesis
      using False by (simp add: put_bytes_def get_empty_buffer_def Let_def)
  next
    case True
    let ?m = "buffer_size_of ob + (?n - surplus_size ob)"
    have "?m = used_buffer_size ob + ?n" by (simp add: surplus_size_def)
    then have m: "unat ?m = unat (used_buffer_size ob) + length data"
      using assms(3) n by (simp only:) (subst unat_add_lem [THEN iffD1]; simp)
    have more: "unat (buffer_size_of ob) < unat ?m" using True s n m d by (simp add: word_less_nat_alt)
    have m0: "unat (buffer_size_of ob) \<le> unat ?m" using more by (rule less_imp_le)
    have m1: "0 < unat ?m" using more by linarith
    have m2: "unat ?m \<le> 2 ^ 31" unfolding m by (rule assms(3))
    note r = Resize_ok [where alloc = alloc, OF assms(1,2) m0 m1 m2]
    have "length data \<le> unat (buffer_size_of (Resize alloc ?m ob)) - unat (used_buffer_size (Resize alloc ?m ob))"
      using r(3,5) m by simp
    from store_ok [OF r(1) this refl] show ?thesis
      using True r(2,3) by (simp add: put_bytes_def get_empty_buffer_def Let_def)
  qed
qed

section \<open>Properties\<close>

text \<open>What the server does with a buffer, and what it should amount to.\<close>

datatype ob_op = Append "byte list" | Sent_bytes nat | Adjust

fun ob_run :: "(ull \<Rightarrow> bool) \<Rightarrow> ob_op list \<Rightarrow> output_buffer \<Rightarrow> output_buffer res" where
  "ob_run alloc [] ob = Inr ob"
| "ob_run alloc (Append data # ops) ob = bind_res (put_bytes alloc data ob) (ob_run alloc ops)"
| "ob_run alloc (Sent_bytes n # ops) ob = ob_run alloc ops (Consume (of_nat n) ob)"
| "ob_run alloc (Adjust # ops) ob = bind_res (AdjustBuffer ob) (ob_run alloc ops)"

fun fifo_run :: "ob_op list \<Rightarrow> byte list \<Rightarrow> byte list option" where
  "fifo_run [] q = Some q"
| "fifo_run (Append data # ops) q = fifo_run ops (q @ data)"
| "fifo_run (Sent_bytes n # ops) q = (if n \<le> length q then fifo_run ops (drop n q) else None)"
| "fifo_run (Adjust # ops) q = fifo_run ops q"

definition appended :: "ob_op list \<Rightarrow> nat" where
  "appended ops = sum_list (map (\<lambda>op. case op of Append data \<Rightarrow> length data | _ \<Rightarrow> 0) ops)"

lemma appended_simps [simp]:
  "appended [] = 0" "appended (Append data # ops) = length data + appended ops"
  "appended (Sent_bytes n # ops) = appended ops" "appended (Adjust # ops) = appended ops"
  by (simp_all add: appended_def)

lemma adjust_used: "AdjustBuffer ob = Inr ob' \<Longrightarrow> ob_ok ob \<Longrightarrow> unat (used_buffer_size ob') \<le> unat (used_buffer_size ob)"
  using ob_okD(4) [of ob]
  by (auto simp: AdjustBuffer_def BufferContentsSize_def Let_def bind_res_Inr_conv split: if_splits)

lemma ob_run_fifo:
  assumes "ob_ok ob" "\<And>k. alloc k" "unat (used_buffer_size ob) + appended ops \<le> 2 ^ 31"
    "fifo_run ops (unsent ob) = Some q"
  shows "\<exists>ob'. ob_run alloc ops ob = Inr ob' \<and> ob_ok ob' \<and> unsent ob' = q"
  using assms(1,3,4)
proof (induction ops arbitrary: ob)
  case Nil
  then show ?case by simp
next
  case (Cons p ops)
  show ?case
  proof (cases p)
    case (Append data)
    then obtain ob1 where "put_bytes alloc data ob = Inr ob1" "ob_ok ob1" "unsent ob1 = unsent ob @ data"
      "unat (used_buffer_size ob1) = unat (used_buffer_size ob) + length data"
      using put_bytes_ok [where alloc = alloc, OF Cons.prems(1) assms(2), of data] Cons.prems(2) by auto
    then show ?thesis using Cons.IH [of ob1] Cons.prems(2,3) Append by simp
  next
    case (Sent_bytes n)
    then have n: "n \<le> length (unsent ob)" using Cons.prems(3) by (simp split: if_splits)
    then have "n < 2 ^ 32"
      using length_unsent [OF Cons.prems(1)] unat_lt_power [of "BufferContentsSize ob"] by simp
    then have "unat (of_nat n :: uint32) = n" by (simp add: unat_of_nat take_bit_nat_eq_self)
    then show ?thesis
      using Consume_ok [OF Cons.prems(1), of "of_nat n"] n Sent_bytes Cons.IH [of "Consume (of_nat n) ob"] Cons.prems
      by (simp add: Consume_def)
  next
    case Adjust
    then obtain ob1 where a: "AdjustBuffer ob = Inr ob1" "ob_ok ob1" "unsent ob1 = unsent ob"
      using AdjustBuffer_ok [OF Cons.prems(1)] by blast
    then show ?thesis
      using Cons.IH [of ob1] adjust_used [OF a(1) Cons.prems(1)] Cons.prems(2,3) Adjust by simp
  qed
qed

lemma OutputBuffer_ok: "(\<And>k. alloc k) \<Longrightarrow> ob_ok (OutputBuffer alloc n) \<and> unsent (OutputBuffer alloc n) = []"
  by (simp add: OutputBuffer_def realloc_bytes_def mm_realloc_def ob_ok_def unsent_def)

text \<open>C31. An output buffer is a queue of bytes: whatever is appended comes out in order, however
  the sending is cut into pieces and whenever the buffer is adjusted; it grows as needed, no access
  leaves the block, and \<open>memcpy\<close> is only used when the regions are apart. This holds while memory is
  granted, no more is consumed than there is, and at most \<open>2 ^ 31\<close> bytes pass.\<close>

theorem output_buffer_fifo:
  assumes "\<forall>k. alloc k" "appended ops \<le> 2 ^ 31" "fifo_run ops [] = Some q"
  shows "\<exists>ob. ob_run alloc ops (OutputBuffer alloc n) = Inr ob \<and> contents_bytes ob = Inr (map Some q)"
proof -
  have a: "\<And>k. alloc k" using assms(1) by simp
  have ok: "ob_ok (OutputBuffer alloc n)" and u: "unsent (OutputBuffer alloc n) = []"
    using OutputBuffer_ok [where alloc = alloc, OF a] by simp_all
  have "used_buffer_size (OutputBuffer alloc n) = 0" by (simp add: OutputBuffer_def)
  then obtain ob where "ob_run alloc ops (OutputBuffer alloc n) = Inr ob" "ob_ok ob" "unsent ob = q"
    using ob_run_fifo [where alloc = alloc, OF ok a, of ops q] assms(2,3) u by auto
  then show ?thesis using contents_bytes_ok by auto
qed

theorem output_buffer_fifo_witness:
  "\<exists>ob. ob_run (\<lambda>_. True) [Append [1, 2, 3], Sent_bytes 2, Adjust, Append [4], Sent_bytes 1]
      (OutputBuffer (\<lambda>_. True) 2) = Inr ob \<and> contents_bytes ob = Inr [Some 4]"
  using output_buffer_fifo [of "\<lambda>_. True" "[Append [1, 2, 3], Sent_bytes 2, Adjust, Append [4], Sent_bytes 1]" "[4]" 2]
  by simp

end
