(* ===== verification/Streams.thy ===== *)
theory Streams
  imports Service Bit_Util
begin

text \<open>
  The client's blocking stream: \<open>stream_buf_base.h\<close> and \<open>stream_buf_base.cpp\<close> (the buffer),
  \<open>tcp_stream_buf.h\<close> (\<open>recv\<close> and \<open>send\<close> with their \<open>EINTR\<close> loops), \<open>tcp_stream.h\<close>, \<open>stream_base.h\<close>,
  and the members of \<open>std::streambuf\<close> and \<open>std::iostream\<close> the code calls, as the C++ standard
  describes them (\<open>sputn\<close> is repeated \<open>sputc\<close>, \<open>sgetn\<close> repeated \<open>sbumpc\<close>). The two blocks of memory
  of a buffer are taken to be granted.
\<close>

section \<open>The socket\<close>

text \<open>What the system will answer: each \<open>recv\<close> meets bytes that arrived (none: the peer has closed)
  or fails, each \<open>send\<close> accepts up to a number of bytes or fails. A call that finds no answer left
  blocks for ever. \<open>wire\<close> is what has been sent.\<close>

datatype rx_event = Arrived "byte list" | Recv_error int
datatype tx_event = Accepts nat | Send_error int

record sock =
  rx :: "rx_event list"
  tx :: "tx_event list"
  wire :: "byte list"
  errno :: int

definition EINTR :: int where "EINTR = 4"

text \<open>The conversion of a \<open>ssize_t\<close> to \<open>int\<close>.\<close>

definition to_int :: "int \<Rightarrow> int" where
  "to_int i = sint (word_of_int i :: 32 word)"

definition recv :: "nat \<Rightarrow> sock \<Rightarrow> (int \<times> byte list \<times> sock) res" where
  "recv len s =
     (case rx s of
        [] \<Rightarrow> Inl NoReturn
      | Arrived bs # es \<Rightarrow>
          Inr (int (length (take len bs)), take len bs,
               s\<lparr>rx := (if length bs \<le> len then es else Arrived (drop len bs) # es)\<rparr>)
      | Recv_error e # es \<Rightarrow> Inr (- 1, [], s\<lparr>rx := es, errno := e\<rparr>))"

definition send :: "byte list \<Rightarrow> sock \<Rightarrow> (int \<times> sock) res" where
  "send data s =
     (case tx s of
        [] \<Rightarrow> Inl NoReturn
      | Accepts n # es \<Rightarrow>
          Inr (int (length (take n data)), s\<lparr>tx := es, wire := wire s @ take n data\<rparr>)
      | Send_error e # es \<Rightarrow> Inr (- 1, s\<lparr>tx := es, errno := e\<rparr>))"

fun rx_weight :: "rx_event \<Rightarrow> nat" where
  "rx_weight (Arrived bs) = Suc (length bs)"
| "rx_weight (Recv_error e) = 1"

lemma to_int_0 [simp]: "to_int 0 = 0" by (simp add: to_int_def)

lemma to_int_id: "- (2 ^ 31) \<le> i \<Longrightarrow> i < 2 ^ 31 \<Longrightarrow> to_int i = i"
  by (simp add: to_int_def sint_sbintrunc' signed_take_bit_int_eq_self)

lemma to_int_minus_1 [simp]: "to_int (- 1) = - 1"
  by (rule to_int_id) simp_all

section \<open>TcpStreamBuf\<close>

function BufRead :: "nat \<Rightarrow> sock \<Rightarrow> (int \<times> byte list \<times> sock) res" where
  "BufRead len s =
     (case recv len s of
        Inl e \<Rightarrow> Inl e
      | Inr (n, bs, s') \<Rightarrow>
          let ret = to_int n in
          if ret > 0 then Inr (ret, bs, s')
          else if ret = - 1 \<and> errno s' = EINTR then BufRead len s'
          else Inr (ret, bs, s'))"
  by pat_completeness auto

termination
  by (relation "measure (\<lambda>(len, s). sum_list (map rx_weight (rx s)))")
    (auto simp: recv_def split: list.splits rx_event.splits if_splits intro!: diff_less gr0I)

function BufWrite :: "byte list \<Rightarrow> sock \<Rightarrow> (int \<times> sock) res" where
  "BufWrite data s =
     (case send data s of
        Inl e \<Rightarrow> Inl e
      | Inr (n, s') \<Rightarrow>
          let ret = to_int n in
          if ret > 0 then Inr (ret, s')
          else if ret = - 1 \<and> errno s' = EINTR then BufWrite data s'
          else Inr (ret, s'))"
  by pat_completeness auto

termination
  by (relation "measure (\<lambda>(data, s). length (tx s))")
    (auto simp: send_def split: list.splits tx_event.splits if_splits)

declare BufRead.simps [simp del] BufWrite.simps [simp del]

section \<open>StreamBufBase\<close>

text \<open>\<open>gdata\<close> are the bytes from \<open>gptr\<close> to \<open>egptr\<close>, \<open>pdata\<close> those from \<open>pbase\<close> to \<open>pptr\<close>.\<close>

record stream_buf =
  kBufSize :: ull
  gdata :: "byte list"
  pdata :: "byte list"

definition StreamBufBase :: "ull \<Rightarrow> stream_buf" where
  "StreamBufBase buf_size = \<lparr>kBufSize = roundup_pow_of_two buf_size, gdata = [], pdata = []\<rparr>"

function sync_loop :: "byte list \<Rightarrow> sock \<Rightarrow> (int \<times> sock) res" where
  "sync_loop data s =
     (if data = [] then Inr (0, s)
      else
        (case BufWrite data s of
           Inl e \<Rightarrow> Inl e
         | Inr (ret, s') \<Rightarrow> if ret > 0 then sync_loop (drop (nat ret) data) s' else Inr (- 1, s')))"
  by pat_completeness auto

termination
  by (relation "measure (\<lambda>(data, s). length data)") auto

declare sync_loop.simps [simp del]

text \<open>When a write fails, the put area stays as it is, sent bytes included.\<close>

definition sync :: "stream_buf \<Rightarrow> sock \<Rightarrow> (int \<times> stream_buf \<times> sock) res" where
  "sync b s =
     bind_res (sync_loop (pdata b) s) (\<lambda>(ret, s).
       if ret = - 1 then Inr (- 1, b, s) else Inr (0, b\<lparr>pdata := []\<rparr>, s))"

text \<open>An \<open>int_type\<close> is a byte or \<open>eof\<close>. The \<open>sputc\<close> in \<open>overflow\<close> finds room, unless the put area
  has no room at all; then the two call each other for ever.\<close>

definition overflow :: "byte option \<Rightarrow> stream_buf \<Rightarrow> sock \<Rightarrow> (byte option \<times> stream_buf \<times> sock) res" where
  "overflow ch b s =
     bind_res (sync b s) (\<lambda>(ret, b, s).
       if ret = - 1 then Inr (None, b, s)
       else
         (case ch of
            None \<Rightarrow> Inr (Some 0, b, s)
          | Some c \<Rightarrow>
              if length (pdata b) < unat (kBufSize b) then Inr (Some c, b\<lparr>pdata := pdata b @ [c]\<rparr>, s)
              else Inl NoReturn))"

definition underflow :: "stream_buf \<Rightarrow> sock \<Rightarrow> (byte option \<times> stream_buf \<times> sock) res" where
  "underflow b s =
     bind_res (BufRead (unat (kBufSize b)) s) (\<lambda>(ret, bs, s).
       if ret > 0 then Inr (Some (hd bs), b\<lparr>gdata := take (nat ret) bs\<rparr>, s) else Inr (None, b, s))"

section \<open>std::streambuf\<close>

definition sputc :: "byte \<Rightarrow> stream_buf \<Rightarrow> sock \<Rightarrow> (byte option \<times> stream_buf \<times> sock) res" where
  "sputc c b s =
     (if length (pdata b) < unat (kBufSize b) then Inr (Some c, b\<lparr>pdata := pdata b @ [c]\<rparr>, s)
      else overflow (Some c) b s)"

fun sputn :: "byte list \<Rightarrow> stream_buf \<Rightarrow> sock \<Rightarrow> (nat \<times> stream_buf \<times> sock) res" where
  "sputn [] b s = Inr (0, b, s)"
| "sputn (c # cs) b s =
     bind_res (sputc c b s) (\<lambda>(r, b, s).
       case r of
         None \<Rightarrow> Inr (0, b, s)
       | Some _ \<Rightarrow> map_sum id (\<lambda>(n, b, s). (Suc n, b, s)) (sputn cs b s))"

definition sbumpc :: "stream_buf \<Rightarrow> sock \<Rightarrow> (byte option \<times> stream_buf \<times> sock) res" where
  "sbumpc b s =
     (case gdata b of
        c # cs \<Rightarrow> Inr (Some c, b\<lparr>gdata := cs\<rparr>, s)
      | [] \<Rightarrow>
          bind_res (underflow b s) (\<lambda>(r, b, s).
            case r of
              None \<Rightarrow> Inr (None, b, s)
            | Some c \<Rightarrow> Inr (Some c, b\<lparr>gdata := tl (gdata b)\<rparr>, s)))"

fun sgetn :: "nat \<Rightarrow> stream_buf \<Rightarrow> sock \<Rightarrow> (byte list \<times> stream_buf \<times> sock) res" where
  "sgetn 0 b s = Inr ([], b, s)"
| "sgetn (Suc n) b s =
     bind_res (sbumpc b s) (\<lambda>(r, b, s).
       case r of
         None \<Rightarrow> Inr ([], b, s)
       | Some c \<Rightarrow> map_sum id (\<lambda>(cs, b, s). (c # cs, b, s)) (sgetn n b s))"

section \<open>TcpStream\<close>

text \<open>The stream with its buffer and its socket; \<open>good\<close> says that no error bit is set.\<close>

record stream =
  socket_fd :: int
  sbuf :: stream_buf
  ssock :: sock
  good :: bool

text \<open>\<open>Attach\<close>: a new buffer, and \<open>rdbuf\<close> clears the error bits.\<close>

definition Attach :: "ull \<Rightarrow> int \<Rightarrow> sock \<Rightarrow> stream" where
  "Attach buf_size fd so =
     \<lparr>socket_fd = fd, sbuf = StreamBufBase buf_size, ssock = so, good = True\<rparr>"

definition ostream_write :: "byte list \<Rightarrow> stream \<Rightarrow> stream res" where
  "ostream_write data st =
     (if good st
      then bind_res (sputn data (sbuf st) (ssock st)) (\<lambda>(n, b, s).
        Inr (st\<lparr>sbuf := b, ssock := s, good := (n = length data)\<rparr>))
      else Inr st)"

definition ostream_flush :: "stream \<Rightarrow> stream res" where
  "ostream_flush st =
     (if good st
      then bind_res (sync (sbuf st) (ssock st)) (\<lambda>(r, b, s).
        Inr (st\<lparr>sbuf := b, ssock := s, good := (r \<noteq> - 1)\<rparr>))
      else Inr st)"

definition istream_read :: "nat \<Rightarrow> stream \<Rightarrow> (byte list \<times> stream) res" where
  "istream_read n st =
     (if good st
      then bind_res (sgetn n (sbuf st) (ssock st)) (\<lambda>(bs, b, s).
        Inr (bs, st\<lparr>sbuf := b, ssock := s, good := (length bs = n)\<rparr>))
      else Inr ([], st))"

section \<open>Transfers that go through\<close>

text \<open>Answers of the system under which a blocking transfer completes: bytes in pieces of any size,
  and interruptions by signals.\<close>

fun rx_fine :: "rx_event \<Rightarrow> bool" where
  "rx_fine (Arrived bs) \<longleftrightarrow> bs \<noteq> []"
| "rx_fine (Recv_error e) \<longleftrightarrow> e = EINTR"

fun tx_fine :: "tx_event \<Rightarrow> bool" where
  "tx_fine (Accepts n) \<longleftrightarrow> n \<noteq> 0"
| "tx_fine (Send_error e) \<longleftrightarrow> e = EINTR"

fun rx_bytes :: "rx_event \<Rightarrow> byte list" where
  "rx_bytes (Arrived bs) = bs"
| "rx_bytes (Recv_error e) = []"

definition incoming :: "sock \<Rightarrow> byte list" where
  "incoming s = concat (map rx_bytes (rx s))"

definition accepts :: "sock \<Rightarrow> nat" where
  "accepts s = length (filter (\<lambda>e. case e of Accepts _ \<Rightarrow> True | _ \<Rightarrow> False) (tx s))"

definition sock_fine :: "sock \<Rightarrow> bool" where
  "sock_fine s \<longleftrightarrow> list_all rx_fine (rx s) \<and> list_all tx_fine (tx s)"

lemma BufRead_fine:
  assumes "sock_fine s" "incoming s \<noteq> []" "0 < len" "len < 2 ^ 31"
  shows "\<exists>k s'. BufRead len s = Inr (int k, take k (incoming s), s') \<and> 0 < k \<and> k \<le> len \<and>
    k \<le> length (incoming s) \<and> sock_fine s' \<and> incoming s' = drop k (incoming s) \<and>
    tx s' = tx s \<and> wire s' = wire s"
  using assms(1,2)
proof (induction "rx s" arbitrary: s)
  case Nil
  then show ?case by (simp add: incoming_def)
next
  case (Cons e es)
  note e [simp] = Cons.hyps(2) [symmetric]
  show ?case
  proof (cases e)
    case (Arrived bs)
    let ?k = "length (take len bs)"
    have ne: "bs \<noteq> []" using Cons.prems(1) Arrived by (simp add: sock_fine_def)
    have k: "0 < ?k" "?k \<le> len" using ne assms(3) by simp_all
    then have t: "to_int (int ?k) = int ?k" using assms(4) by (intro to_int_id) simp_all
    define s' where "s' = s\<lparr>rx := (if length bs \<le> len then es else Arrived (drop len bs) # es)\<rparr>"
    have "recv len s = Inr (int ?k, take len bs, s')"
      by (simp add: recv_def Arrived s'_def)
    then have "BufRead len s = Inr (int ?k, take len bs, s')"
      using k t by (subst BufRead.simps) (simp add: Let_def del: length_take)
    moreover have i: "incoming s = bs @ concat (map rx_bytes es)" by (simp add: incoming_def Arrived)
    moreover have "take ?k (incoming s) = take len bs" unfolding i by (simp add: min_def)
    moreover have "incoming s' = drop ?k (incoming s)"
      unfolding i by (simp add: incoming_def s'_def min_def)
    moreover have "sock_fine s'" using Cons.prems(1) Arrived by (simp add: sock_fine_def s'_def)
    moreover have "?k \<le> length (incoming s)" unfolding i by simp
    ultimately show ?thesis
      using k by (intro exI [of _ ?k] exI [of _ s']) (simp add: s'_def)
  next
    case (Recv_error c)
    let ?s = "s\<lparr>rx := es, errno := c\<rparr>"
    have c: "c = EINTR" using Cons.prems(1) Recv_error by (simp add: sock_fine_def)
    have "recv len s = Inr (- 1, [], ?s)" by (simp add: recv_def Recv_error)
    then have step: "BufRead len s = BufRead len ?s"
      by (subst BufRead.simps) (simp add: Let_def c)
    have inc: "incoming ?s = incoming s" by (simp add: incoming_def Recv_error)
    have "sock_fine ?s" using Cons.prems(1) by (simp add: sock_fine_def)
    from Cons.hyps(1) [of ?s] this Cons.prems(2) inc show ?thesis unfolding step by simp
  qed
qed

lemma BufWrite_fine:
  assumes "sock_fine s" "0 < accepts s" "data \<noteq> []" "length data < 2 ^ 31"
  shows "\<exists>k s'. BufWrite data s = Inr (int k, s') \<and> 0 < k \<and> k \<le> length data \<and>
    sock_fine s' \<and> accepts s \<le> Suc (accepts s') \<and> wire s' = wire s @ take k data \<and> rx s' = rx s"
  using assms(1,2)
proof (induction "tx s" arbitrary: s)
  case Nil
  then show ?case by (simp add: accepts_def)
next
  case (Cons e es)
  note e [simp] = Cons.hyps(2) [symmetric]
  show ?case
  proof (cases e)
    case (Accepts n)
    let ?k = "length (take n data)"
    have "n \<noteq> 0" using Cons.prems(1) Accepts by (simp add: sock_fine_def)
    then have k: "0 < ?k" "?k \<le> length data" using assms(3) by simp_all
    then have t: "to_int (int ?k) = int ?k" using assms(4) by (intro to_int_id) simp_all
    define s' where "s' = s\<lparr>tx := es, wire := wire s @ take n data\<rparr>"
    have "send data s = Inr (int ?k, s')" by (simp add: send_def Accepts s'_def)
    then have "BufWrite data s = Inr (int ?k, s')"
      using k t by (subst BufWrite.simps) (simp add: Let_def del: length_take)
    moreover have "sock_fine s'" using Cons.prems(1) by (simp add: sock_fine_def s'_def)
    moreover have "accepts s = Suc (accepts s')" by (simp add: accepts_def s'_def Accepts)
    moreover have "take n data = take ?k data" by (simp add: min_def)
    ultimately show ?thesis
      using k by (intro exI [of _ ?k] exI [of _ s']) (simp add: s'_def)
  next
    case (Send_error c)
    let ?s = "s\<lparr>tx := es, errno := c\<rparr>"
    have c: "c = EINTR" using Cons.prems(1) Send_error by (simp add: sock_fine_def)
    have "send data s = Inr (- 1, ?s)" by (simp add: send_def Send_error)
    then have step: "BufWrite data s = BufWrite data ?s"
      by (subst BufWrite.simps) (simp add: Let_def c)
    have acc: "accepts ?s = accepts s" by (simp add: accepts_def Send_error)
    have "sock_fine ?s" using Cons.prems(1) by (simp add: sock_fine_def)
    from Cons.hyps(1) [of ?s] this Cons.prems(2) acc show ?thesis unfolding step by simp
  qed
qed

lemma sync_loop_fine:
  assumes "sock_fine s" "length data \<le> accepts s" "length data < 2 ^ 31"
  shows "\<exists>s'. sync_loop data s = Inr (0, s') \<and> sock_fine s' \<and> accepts s \<le> accepts s' + length data \<and>
    wire s' = wire s @ data \<and> rx s' = rx s"
  using assms
proof (induction data arbitrary: s rule: length_induct)
  case (1 data)
  show ?case
  proof (cases "data = []")
    case True
    then show ?thesis using 1 by (simp add: sync_loop.simps)
  next
    case False
    obtain k s' where w: "BufWrite data s = Inr (int k, s')" "0 < k" "k \<le> length data" "sock_fine s'"
      "accepts s \<le> Suc (accepts s')" "wire s' = wire s @ take k data" "rx s' = rx s"
      using BufWrite_fine [of s data] 1 False by fastforce
    then have l: "length (drop k data) < length data" "length (drop k data) \<le> accepts s'"
      using 1 False by simp_all
    then obtain s'' where r: "sync_loop (drop k data) s' = Inr (0, s'')" "sock_fine s''"
      "accepts s' \<le> accepts s'' + length (drop k data)" "wire s'' = wire s' @ drop k data" "rx s'' = rx s'"
      using 1 w(4) by fastforce
    have "sync_loop data s = Inr (0, s'')"
      using False w r by (subst sync_loop.simps) simp
    then show ?thesis using r w by simp
  qed
qed

definition buf_fine :: "stream_buf \<Rightarrow> bool" where
  "buf_fine b \<longleftrightarrow> length (pdata b) \<le> unat (kBufSize b) \<and> 0 < unat (kBufSize b) \<and> unat (kBufSize b) < 2 ^ 31"

text \<open>What the peer has or will get, and what is still to be read.\<close>

definition sent :: "stream_buf \<Rightarrow> sock \<Rightarrow> byte list" where
  "sent b s = wire s @ pdata b"

definition unread :: "stream_buf \<Rightarrow> sock \<Rightarrow> byte list" where
  "unread b s = gdata b @ incoming s"

lemma sync_fine:
  assumes "sock_fine s" "buf_fine b" "length (pdata b) \<le> accepts s"
  shows "\<exists>s'. sync b s = Inr (0, b\<lparr>pdata := []\<rparr>, s') \<and> sock_fine s' \<and>
    accepts s \<le> accepts s' + length (pdata b) \<and> wire s' = sent b s \<and> rx s' = rx s"
  using sync_loop_fine [of s "pdata b"] assms by (fastforce simp: sync_def buf_fine_def sent_def)

lemma sputc_fine:
  assumes "sock_fine s" "buf_fine b" "length (pdata b) < accepts s"
  shows "\<exists>b' s'. sputc c b s = Inr (Some c, b', s') \<and> sock_fine s' \<and> buf_fine b' \<and>
    accepts s + length (pdata b') \<le> Suc (accepts s' + length (pdata b)) \<and>
    sent b' s' = sent b s @ [c] \<and> unread b' s' = unread b s"
proof (cases "length (pdata b) < unat (kBufSize b)")
  case True
  then show ?thesis
    using assms by (simp add: sputc_def buf_fine_def sent_def unread_def)
next
  case False
  obtain s' where s: "sync b s = Inr (0, b\<lparr>pdata := []\<rparr>, s')" "sock_fine s'"
    "accepts s \<le> accepts s' + length (pdata b)" "wire s' = sent b s" "rx s' = rx s"
    using sync_fine [OF assms(1,2)] assms(3) by auto
  then have "sputc c b s = Inr (Some c, b\<lparr>pdata := [c]\<rparr>, s')"
    using False assms(2) by (simp add: sputc_def overflow_def buf_fine_def)
  then show ?thesis
    using s assms(2) by (simp add: buf_fine_def sent_def unread_def incoming_def)
qed

lemma sputn_fine:
  assumes "sock_fine s" "buf_fine b" "length (pdata b) + length data \<le> accepts s"
  shows "\<exists>b' s'. sputn data b s = Inr (length data, b', s') \<and> sock_fine s' \<and> buf_fine b' \<and>
    accepts s + length (pdata b') \<le> accepts s' + length (pdata b) + length data \<and>
    sent b' s' = sent b s @ data \<and> unread b' s' = unread b s"
  using assms
proof (induction data arbitrary: b s)
  case Nil
  then show ?case by simp
next
  case (Cons c cs)
  obtain b1 s1 where a: "sputc c b s = Inr (Some c, b1, s1)" "sock_fine s1" "buf_fine b1"
    "accepts s + length (pdata b1) \<le> Suc (accepts s1 + length (pdata b))"
    "sent b1 s1 = sent b s @ [c]" "unread b1 s1 = unread b s"
    using sputc_fine [of s b c] Cons.prems by auto
  then have "length (pdata b1) + length cs \<le> accepts s1" using Cons.prems(3) by simp
  then obtain b2 s2 where "sputn cs b1 s1 = Inr (length cs, b2, s2)" "sock_fine s2" "buf_fine b2"
    "accepts s1 + length (pdata b2) \<le> accepts s2 + length (pdata b1) + length cs"
    "sent b2 s2 = sent b1 s1 @ cs" "unread b2 s2 = unread b1 s1"
    using Cons.IH [OF a(2,3)] by auto
  then show ?case using a by simp
qed

lemma sbumpc_fine:
  assumes "sock_fine s" "buf_fine b" "unread b s = c # cs"
  shows "\<exists>b' s'. sbumpc b s = Inr (Some c, b', s') \<and> sock_fine s' \<and> buf_fine b' \<and>
    accepts s' = accepts s \<and> sent b' s' = sent b s \<and> pdata b' = pdata b \<and> unread b' s' = cs"
proof (cases "gdata b")
  case (Cons d ds)
  then show ?thesis using assms by (auto simp: sbumpc_def buf_fine_def sent_def unread_def)
next
  case Nil
  then have i: "incoming s = c # cs" using assms(3) by (simp add: unread_def)
  obtain k s' where r: "BufRead (unat (kBufSize b)) s = Inr (int k, take k (incoming s), s')" "0 < k"
    "sock_fine s'" "incoming s' = drop k (incoming s)" "tx s' = tx s" "wire s' = wire s"
    using BufRead_fine [OF assms(1), of "unat (kBufSize b)"] i assms(2) by (auto simp: buf_fine_def)
  obtain j where k: "k = Suc j" using r(2) by (cases k) auto
  have "underflow b s = Inr (Some c, b\<lparr>gdata := c # take j cs\<rparr>, s')"
    using r(1) by (simp add: underflow_def i k nat_add_distrib)
  then show ?thesis
    using r Nil assms(2) i k by (simp add: sbumpc_def buf_fine_def sent_def unread_def accepts_def)
qed

lemma sgetn_fine:
  assumes "sock_fine s" "buf_fine b" "n \<le> length (unread b s)"
  shows "\<exists>b' s'. sgetn n b s = Inr (take n (unread b s), b', s') \<and> sock_fine s' \<and> buf_fine b' \<and>
    accepts s' = accepts s \<and> sent b' s' = sent b s \<and> pdata b' = pdata b \<and>
    unread b' s' = drop n (unread b s)"
  using assms
proof (induction n arbitrary: b s)
  case 0
  then show ?case by simp
next
  case (Suc n)
  then obtain c cs where u: "unread b s = c # cs" by (cases "unread b s") auto
  obtain b1 s1 where a: "sbumpc b s = Inr (Some c, b1, s1)" "sock_fine s1" "buf_fine b1"
    "accepts s1 = accepts s" "sent b1 s1 = sent b s" "pdata b1 = pdata b" "unread b1 s1 = cs"
    using sbumpc_fine [OF Suc.prems(1,2) u] by auto
  moreover obtain b2 s2 where "sgetn n b1 s1 = Inr (take n cs, b2, s2)" "sock_fine s2" "buf_fine b2"
    "accepts s2 = accepts s1" "sent b2 s2 = sent b1 s1" "pdata b2 = pdata b1" "unread b2 s2 = drop n cs"
    using Suc.IH [OF a(2,3)] Suc.prems(3) a(7) u by auto
  ultimately show ?case using u by simp
qed

text \<open>The same for the stream's operations.\<close>

definition stream_fine :: "stream \<Rightarrow> bool" where
  "stream_fine st \<longleftrightarrow> good st \<and> sock_fine (ssock st) \<and> buf_fine (sbuf st)"

definition pending :: "stream \<Rightarrow> nat" where
  "pending st = length (pdata (sbuf st))"

definition out_bytes :: "stream \<Rightarrow> byte list" where
  "out_bytes st = sent (sbuf st) (ssock st)"

definition in_bytes :: "stream \<Rightarrow> byte list" where
  "in_bytes st = unread (sbuf st) (ssock st)"

definition room :: "stream \<Rightarrow> nat" where
  "room st = accepts (ssock st)"

lemmas stream_defs = stream_fine_def pending_def out_bytes_def in_bytes_def room_def

lemma ostream_write_fine:
  assumes "stream_fine st" "pending st + length data \<le> room st"
  shows "\<exists>st'. ostream_write data st = Inr st' \<and> stream_fine st' \<and> out_bytes st' = out_bytes st @ data \<and>
    in_bytes st' = in_bytes st \<and> room st + pending st' \<le> room st' + pending st + length data"
  using sputn_fine [of "ssock st" "sbuf st" data] assms
  by (fastforce simp: stream_defs ostream_write_def)

lemma ostream_flush_fine:
  assumes "stream_fine st" "pending st \<le> room st"
  shows "\<exists>st'. ostream_flush st = Inr st' \<and> stream_fine st' \<and> wire (ssock st') = out_bytes st \<and>
    pending st' = 0 \<and> in_bytes st' = in_bytes st \<and> room st \<le> room st' + pending st"
  using sync_fine [of "ssock st" "sbuf st"] assms
  by (fastforce simp: stream_defs ostream_flush_def buf_fine_def unread_def incoming_def)

lemma istream_read_fine:
  assumes "stream_fine st" "n \<le> length (in_bytes st)"
  shows "\<exists>st'. istream_read n st = Inr (take n (in_bytes st), st') \<and> stream_fine st' \<and>
    out_bytes st' = out_bytes st \<and> pending st' = pending st \<and> room st' = room st \<and>
    in_bytes st' = drop n (in_bytes st)"
  using sgetn_fine [of "ssock st" "sbuf st" n] assms
  by (fastforce simp: stream_defs istream_read_def min_def)

end
