(* ===== verification/Net_Order.thy ===== *)
theory Net_Order
  imports Prelude
begin

text \<open>
  The framing of messages on a connection, which client and server share: four bytes with the length
  in network byte order, then the message (\<open>client_blocking_call.h\<close>, \<open>network_event_handler.cpp\<close>).
\<close>

section \<open>Network byte order\<close>

text \<open>The bytes in memory of \<open>htonl(n)\<close>, and \<open>ntohl\<close> of the number they make.\<close>

definition be_bytes :: "uint32 \<Rightarrow> byte list" where
  "be_bytes n = [ucast (drop_bit 24 n), ucast (drop_bit 16 n), ucast (drop_bit 8 n), ucast n]"

definition be_word :: "byte list \<Rightarrow> uint32" where
  "be_word bs = push_bit 24 (ucast (bs ! 0)) OR push_bit 16 (ucast (bs ! 1)) OR
     push_bit 8 (ucast (bs ! 2)) OR ucast (bs ! 3)"

lemma be_word_bytes [simp]: "be_word (be_bytes n) = n"
proof (rule bit_word_eqI)
  fix i assume i: "i < LENGTH(32)"
  then have "i < 8 \<or> 8 \<le> i \<and> i < 16 \<or> 16 \<le> i \<and> i < 24 \<or> 24 \<le> i \<and> i < 32" by auto
  then show "bit (be_word (be_bytes n)) i = bit n i"
    by (auto simp: be_word_def be_bytes_def bit_or_iff bit_push_bit_iff bit_ucast_iff bit_drop_bit_eq)
qed

lemma length_be_bytes [simp]: "length (be_bytes n) = 4" by (simp add: be_bytes_def)

definition frame :: "byte list \<Rightarrow> byte list" where
  "frame bs = be_bytes (of_nat (length bs)) @ bs"

end
