(* ===== verification/Client_Call.thy ===== *)
theory Client_Call
  imports Streams Net_Order
begin

text \<open>
  The blocking client call, \<open>client_blocking_call.h\<close>: a request is serialised, framed by its length
  in network byte order and sent; the framed response is read back and decoded. The protobuf
  functions are parameters: \<open>ser_arg\<close> and \<open>parse_result\<close> for the application's messages (either can
  fail), \<open>ser_req\<close> and \<open>parse_rsp\<close> for \<open>Request\<close> and \<open>Response\<close>.
\<close>

section \<open>The call\<close>

definition receive_answer ::
  "(byte list \<Rightarrow> response_msg option) \<Rightarrow> (string \<Rightarrow> 'r option) \<Rightarrow> byte list \<Rightarrow> status \<times> 'r option" where
  "receive_answer parse_rsp parse_result bs =
     (case parse_rsp bs of
        None \<Rightarrow> (Status ERROR ''receive result error'', None)
      | Some rsp \<Rightarrow>
          if response_code rsp = RESPONSE_OK
          then (case parse_result (response_contents rsp) of
                  Some r \<Rightarrow> (Status_OK, Some r)
                | None \<Rightarrow> (Status ERROR ''receive result error'', None))
          else (Status ERROR (info rsp), None))"

definition ClientBlockingCall ::
  "('q \<Rightarrow> string option) \<Rightarrow> (request_msg \<Rightarrow> byte list) \<Rightarrow> (byte list \<Rightarrow> response_msg option) \<Rightarrow>
   (string \<Rightarrow> 'r option) \<Rightarrow> string \<Rightarrow> 'q \<Rightarrow> stream \<Rightarrow> (status \<times> 'r option \<times> stream) res" where
  "ClientBlockingCall ser_arg ser_req parse_rsp parse_result meth request st =
     (case ser_arg request of
        None \<Rightarrow> Inr (Status INVALID_ARGUMENT ''protobuf parse request params error'', None, st)
      | Some arg \<Rightarrow>
          let req = \<lparr>method_id = hash_code meth, contents = arg\<rparr>;
              data = ser_req req;
              len = be_bytes (of_nat (length data))
          in bind_res (ostream_write len st) (\<lambda>st.
             bind_res (ostream_write data st) (\<lambda>st.
             bind_res (ostream_flush st) (\<lambda>st.
               if good st
               then
                 bind_res (istream_read 4 st) (\<lambda>(resp_len, st).
                   if good st
                   then
                     bind_res (istream_read (unat (be_word resp_len)) st) (\<lambda>(data, st).
                       if good st
                       then (case receive_answer parse_rsp parse_result data of
                               (result, r) \<Rightarrow> Inr (result, r, st))
                       else Inr (Status ERROR ''receive result error'', None, st))
                   else Inr (Status ERROR ''receive result error'', None, st))
               else if errno (ssock st) = 0
               then Inr (Status CONNECT_CLOSED ''connect has been closed'', None, st)
               else Inr (Status ERROR ''send request error'', None, st)))))"

section \<open>Properties\<close>

lemma client_call_fine:
  assumes "stream_fine st" "pending st = 0" "ser_arg request = Some arg"
    and "data = ser_req \<lparr>method_id = hash_code meth, contents = arg\<rparr>"
    and "length (frame data) \<le> room st"
    and "in_bytes st = frame answer @ rest" "length answer < 2 ^ 32"
  shows "\<exists>st'. ClientBlockingCall ser_arg ser_req parse_rsp parse_result meth request st =
      Inr (fst (receive_answer parse_rsp parse_result answer),
           snd (receive_answer parse_rsp parse_result answer), st') \<and>
    stream_fine st' \<and> pending st' = 0 \<and> wire (ssock st') = wire (ssock st) @ frame data \<and>
    in_bytes st' = rest \<and> room st \<le> room st' + length (frame data)"
proof -
  have r: "4 + length data \<le> room st" using assms(5) by (simp add: frame_def)
  have o: "out_bytes st = wire (ssock st)" using assms(2) by (simp add: stream_defs sent_def)
  obtain s1 where s1: "ostream_write (be_bytes (of_nat (length data))) st = Inr s1" "stream_fine s1"
    "out_bytes s1 = out_bytes st @ be_bytes (of_nat (length data))" "in_bytes s1 = in_bytes st"
    "room st + pending s1 \<le> room s1 + 4"
    using ostream_write_fine [OF assms(1), of "be_bytes (of_nat (length data))"] assms(2) r by auto
  obtain s2 where s2: "ostream_write data s1 = Inr s2" "stream_fine s2"
    "out_bytes s2 = out_bytes s1 @ data" "in_bytes s2 = in_bytes s1"
    "room s1 + pending s2 \<le> room s2 + pending s1 + length data"
    using ostream_write_fine [OF s1(2), of data] r s1(5) by auto
  obtain s3 where s3: "ostream_flush s2 = Inr s3" "stream_fine s3" "wire (ssock s3) = out_bytes s2"
    "pending s3 = 0" "in_bytes s3 = in_bytes s2" "room s2 \<le> room s3 + pending s2"
    using ostream_flush_fine [OF s2(2)] r s1(5) s2(5) by auto
  obtain s4 where s4: "istream_read 4 s3 = Inr (be_bytes (of_nat (length answer)), s4)" "stream_fine s4"
    "out_bytes s4 = out_bytes s3" "pending s4 = 0" "room s4 = room s3" "in_bytes s4 = answer @ rest"
    using istream_read_fine [OF s3(2), of 4] s3 s2 s1 assms(6) by (auto simp: frame_def)
  have len: "unat (of_nat (length answer) :: uint32) = length answer"
    using assms(7) by (simp add: unat_of_nat take_bit_nat_eq_self)
  obtain s5 where s5: "istream_read (length answer) s4 = Inr (answer, s5)" "stream_fine s5"
    "out_bytes s5 = out_bytes s4" "pending s5 = 0" "room s5 = room s4" "in_bytes s5 = rest"
    using istream_read_fine [OF s4(2), of "length answer"] s4 by auto
  have g: "good s3" "good s4" "good s5" using s3(2) s4(2) s5(2) by (simp_all add: stream_fine_def)
  have "ClientBlockingCall ser_arg ser_req parse_rsp parse_result meth request st =
      Inr (fst (receive_answer parse_rsp parse_result answer),
           snd (receive_answer parse_rsp parse_result answer), s5)"
    using s1(1) s2(1) s3(1) s4(1) s5(1) g len
    by (simp add: ClientBlockingCall_def assms(3) assms(4) [symmetric] Let_def split: prod.split)
  moreover have "wire (ssock s5) = wire (ssock st) @ frame data"
  proof -
    have w: "out_bytes s5 = wire (ssock s5)" "out_bytes s3 = wire (ssock s3)"
      using s5(4) s3(4) by (simp_all add: stream_defs sent_def)
    then show ?thesis using s1 s2 s3 s4 s5 o by (simp add: frame_def)
  qed
  ultimately show ?thesis
    using s5 s4(5) s3(6) s2(5) s1(5) by (auto simp: frame_def)
qed

text \<open>C8. However the system cuts the transfer into pieces and signals interrupt it, a blocking call
  sends exactly the framed request, leaves nothing behind in its buffer, consumes exactly the framed
  answer and returns what the answer says; the stream is ready for the next call.\<close>

theorem client_call_transfers:
  assumes "stream_fine st" "pending st = 0" "ser_arg request = Some arg"
    and "data = ser_req \<lparr>method_id = hash_code meth, contents = arg\<rparr>"
    and "length (frame data) \<le> room st"
    and "in_bytes st = frame answer @ rest" "length answer < 2 ^ 32"
  shows "\<exists>st'. ClientBlockingCall ser_arg ser_req parse_rsp parse_result meth request st =
      Inr (fst (receive_answer parse_rsp parse_result answer),
           snd (receive_answer parse_rsp parse_result answer), st') \<and>
    stream_fine st' \<and> pending st' = 0 \<and> wire (ssock st') = wire (ssock st) @ frame data \<and>
    in_bytes st' = rest \<and> room st \<le> room st' + length (frame data)"
  by (rule client_call_fine; fact assms)

text \<open>A stream that has failed once stays failed: a later call sends nothing, reads nothing,
  changes nothing, and reports a send error, or a closed connection when \<open>errno\<close> happens to be 0.\<close>

theorem failed_stream_is_final:
  assumes "\<not> good st" "ser_arg request = Some arg"
  shows "ClientBlockingCall ser_arg ser_req parse_rsp parse_result meth request st =
    Inr (if errno (ssock st) = 0 then Status CONNECT_CLOSED ''connect has been closed''
         else Status ERROR ''send request error'', None, st)"
  using assms by (simp add: ClientBlockingCall_def Let_def ostream_write_def ostream_flush_def)

section \<open>A call\<close>

definition example_stream :: stream where
  "example_stream =
     \<lparr>socket_fd = 3, sbuf = \<lparr>kBufSize = 4, gdata = [0], pdata = []\<rparr>,
      ssock = \<lparr>rx = [Arrived [0], Recv_error EINTR, Arrived [0, 2, 104], Arrived [105, 9]],
        tx = Send_error EINTR # replicate 7 (Accepts 3), wire = [], errno = 0\<rparr>, good = True\<rparr>"

definition example_ser :: "request_msg \<Rightarrow> byte list" where
  "example_ser r = 1 # c_bytes (contents r)"

definition example_parse :: "byte list \<Rightarrow> response_msg option" where
  "example_parse bs = Some \<lparr>response_code = RESPONSE_OK, info = [],
     response_contents = map (\<lambda>b. char_of (unat b)) bs\<rparr>"

lemma example_frames:
  "frame [1, 65, 66] = [0, 0, 0, 3, 1, 65, 66]" "frame [104, 105] = [0, 0, 0, 2, 104, 105]"
  by code_simp+

theorem client_call_transfers_witness:
  "\<exists>st'. ClientBlockingCall Some example_ser example_parse Some ''Echo'' ''AB'' example_stream =
      Inr (Status_OK, Some ''hi'', st') \<and> wire (ssock st') = [0, 0, 0, 3, 1, 65, 66] \<and> in_bytes st' = [9]"
proof -
  have a: "receive_answer example_parse Some [104, 105] = (Status_OK, Some ''hi'')" by code_simp
  have d: "[1, 65, 66] = example_ser \<lparr>method_id = hash_code ''Echo'', contents = ''AB''\<rparr>"
    by (simp add: example_ser_def c_bytes_def c_string_def)
  have h: "stream_fine example_stream" "pending example_stream = 0" "room example_stream = 7"
    "in_bytes example_stream = [0, 0, 0, 2, 104, 105, 9]"
    by (simp_all add: example_stream_def stream_defs sock_fine_def buf_fine_def accepts_def unread_def incoming_def
        list_all_iff)
  have w: "wire (ssock example_stream) = []" by (simp add: example_stream_def)
  obtain st' where "ClientBlockingCall Some example_ser example_parse Some ''Echo'' ''AB'' example_stream =
      Inr (Status_OK, Some ''hi'', st')" "wire (ssock st') = [0, 0, 0, 3, 1, 65, 66]" "in_bytes st' = [9]"
    using client_call_transfers [where st = example_stream and ser_arg = Some and request = "''AB''"
        and arg = "''AB''" and data = "[1, 65, 66]" and ser_req = example_ser and meth = "''Echo''"
        and answer = "[104, 105]" and rest = "[9]" and parse_rsp = example_parse and parse_result = Some,
        OF h(1,2) refl d]
    unfolding a h w example_frames by auto
  then show ?thesis by blast
qed

theorem failed_stream_is_final_witness:
  "ClientBlockingCall Some example_ser example_parse Some ''Echo'' ''AB'' (example_stream\<lparr>good := False\<rparr>) =
    Inr (Status CONNECT_CLOSED ''connect has been closed'', None, example_stream\<lparr>good := False\<rparr>)"
  using failed_stream_is_final [of "example_stream\<lparr>good := False\<rparr>" Some "''AB''" "''AB''"
      example_ser example_parse Some "''Echo''"]
  by (simp add: example_stream_def)

end
