(* ===== verification/Ev_State.thy ===== *)
theory Ev_State
  imports Min_Heap
begin

text \<open>
  The state of the event loop, \<open>ev_loop.h\<close>, and its operations on watchers: the lists of the
  watchers of a descriptor, the pending events by priority, and starting and stopping watchers
  (\<open>ev_loop.cpp\<close>). Watcher objects live in two stores, one for descriptors and one for timers; a
  pointer to a watcher is a \<open>wref\<close>. The growing arrays are functions from the index, which is what
  \<open>Mem_Array\<close> shows them to be; the epoll instance of the kernel is part of the state.
\<close>

section \<open>State\<close>

type_synonym short = "16 word"

datatype wref = Io nat | Tm nat | Dummy

record ev_pending =
  pw :: "wref option"
  pevents :: short

record ev_fd =
  head :: "nat option"
  fevents :: byte
  ischanged :: byte
  previous_evs :: byte
  tag :: uint32

text \<open>What the kernel keeps: the descriptors that are open, and for every registered one the event
  mask and the user data.\<close>

record epoll =
  open_fd :: "nat \<Rightarrow> bool"
  ep_set :: "nat \<Rightarrow> (uint32 \<times> ull) option"

record ev_loop =
  mn_time_now :: ev_tstamp
  pendings :: "nat \<Rightarrow> nat \<Rightarrow> ev_pending"
  pendingcnt :: "nat \<Rightarrow> nat"
  timeout_blocktime :: ev_tstamp
  fdchanges :: "nat \<Rightarrow> nat"
  fdchangescnt :: nat
  activecnt :: int
  loop_done :: bool
  fds :: "nat \<Rightarrow> ev_fd"
  wstack :: "wref list"
  dummy_watcher :: ev_watcher
  ios :: "nat \<Rightarrow> ev_io"
  tms :: timers
  timer_heap :: quad_minheap
  kern :: epoll

text \<open>After construction and \<open>init\<close>: nothing is watched. Watcher objects are default-constructed; the
  deadlines in a timer are whatever was there.\<close>

definition init_loop :: "ev_tstamp \<Rightarrow> (nat \<Rightarrow> bool) \<Rightarrow> ev_loop" where
  "init_loop now opened =
     \<lparr>mn_time_now = now, pendings = (\<lambda>_ _. \<lparr>pw = None, pevents = 0\<rparr>), pendingcnt = (\<lambda>_. 0), timeout_blocktime = 0,
      fdchanges = (\<lambda>_. 0), fdchangescnt = 0, activecnt = 0, loop_done = False,
      fds = (\<lambda>_. \<lparr>head = None, fevents = 0, ischanged = 0, previous_evs = 0, tag = 0\<rparr>), wstack = [],
      dummy_watcher = \<lparr>active = 0, pending = 0, priority = 0, data = 0, cb = Some 0\<rparr>,
      ios = (\<lambda>_. ev_io_new), tms = (\<lambda>_. ev_timer_new 0 0), timer_heap = quad_minheap_new,
      kern = \<lparr>open_fd = opened, ep_set = (\<lambda>_. None)\<rparr>\<rparr>"

definition NUMPRI :: nat where "NUMPRI = 5"
definition EV_IS_CHANGED :: byte where "EV_IS_CHANGED = 1"

text \<open>The fields of \<open>ev_watcher\<close> behind a pointer.\<close>

primrec pending_of :: "wref \<Rightarrow> ev_loop \<Rightarrow> int" where
  "pending_of (Io i) s = pending (ios s i)"
| "pending_of (Tm i) s = pending (tms s i)"
| "pending_of Dummy s = pending (dummy_watcher s)"

primrec priority_of :: "wref \<Rightarrow> ev_loop \<Rightarrow> nat" where
  "priority_of (Io i) s = nat (priority (ios s i))"
| "priority_of (Tm i) s = nat (priority (tms s i))"
| "priority_of Dummy s = nat (priority (dummy_watcher s))"

primrec set_pending :: "wref \<Rightarrow> int \<Rightarrow> ev_loop \<Rightarrow> ev_loop" where
  "set_pending (Io i) v s = s\<lparr>ios := (ios s)(i := (ios s i)\<lparr>pending := v\<rparr>)\<rparr>"
| "set_pending (Tm i) v s = s\<lparr>tms := (tms s)(i := (tms s i)\<lparr>pending := v\<rparr>)\<rparr>"
| "set_pending Dummy v s = s\<lparr>dummy_watcher := (dummy_watcher s)\<lparr>pending := v\<rparr>\<rparr>"

definition upd_fd :: "nat \<Rightarrow> (ev_fd \<Rightarrow> ev_fd) \<Rightarrow> ev_loop \<Rightarrow> ev_loop" where
  "upd_fd fd f s = s\<lparr>fds := (fds s)(fd := f (fds s fd))\<rparr>"

section \<open>Pending events\<close>

definition set_slot :: "nat \<Rightarrow> nat \<Rightarrow> ev_pending \<Rightarrow> ev_loop \<Rightarrow> ev_loop" where
  "set_slot pri i p s = s\<lparr>pendings := (pendings s)(pri := (pendings s pri)(i := p))\<rparr>"

text \<open>\<open>ev_pending::events\<close> is a \<open>short\<close>: the mask is cut to 16 bits.\<close>

definition feed_event :: "wref \<Rightarrow> uint32 \<Rightarrow> ev_loop \<Rightarrow> ev_loop" where
  "feed_event w ev s =
     (let pri = priority_of w s in
      if pending_of w s \<noteq> 0
      then (let i = nat (pending_of w s - 1); p = pendings s pri i
            in set_slot pri i (p\<lparr>pevents := pevents p OR ucast ev\<rparr>) s)
      else (let s = s\<lparr>pendingcnt := (pendingcnt s)(pri := pendingcnt s pri + 1)\<rparr>;
                s = set_pending w (int (pendingcnt s pri)) s
            in set_slot pri (nat (pending_of w s - 1)) \<lparr>pw = Some w, pevents = ucast ev\<rparr> s))"

definition clear_pending :: "wref \<Rightarrow> ev_loop \<Rightarrow> ev_loop" where
  "clear_pending w s =
     (if pending_of w s \<noteq> 0
      then (let i = nat (pending_of w s - 1); pri = priority_of w s
            in set_pending w 0 (set_slot pri i ((pendings s pri i)\<lparr>pw := Some Dummy\<rparr>) s))
      else s)"

definition invert_feed :: "wref \<Rightarrow> ev_loop \<Rightarrow> ev_loop" where
  "invert_feed w s = s\<lparr>wstack := w # wstack s\<rparr>"

fun feed_all :: "wref list \<Rightarrow> uint32 \<Rightarrow> ev_loop \<Rightarrow> ev_loop" where
  "feed_all [] ev s = s"
| "feed_all (w # ws) ev s = feed_all ws ev (feed_event w ev s)"

definition invert_feed_done :: "uint32 \<Rightarrow> ev_loop \<Rightarrow> ev_loop" where
  "invert_feed_done ev s = (feed_all (wstack s) ev s)\<lparr>wstack := []\<rparr>"

section \<open>The watchers of a descriptor\<close>

definition fd_change :: "nat \<Rightarrow> byte \<Rightarrow> ev_loop \<Rightarrow> ev_loop" where
  "fd_change fd flag s =
     (let changed = ischanged (fds s fd);
          s = upd_fd fd (\<lambda>e. e\<lparr>ischanged := ischanged e OR flag\<rparr>) s
      in if changed = 0
         then s\<lparr>fdchangescnt := fdchangescnt s + 1, fdchanges := (fdchanges s)(fdchangescnt s := fd)\<rparr>
         else s)"

definition watcher_list_add :: "nat \<Rightarrow> nat \<Rightarrow> ev_loop \<Rightarrow> ev_loop" where
  "watcher_list_add fd w s =
     (let s = s\<lparr>ios := (ios s)(w := (ios s w)\<lparr>next_w := head (fds s fd)\<rparr>)\<rparr>
      in upd_fd fd (\<lambda>e. e\<lparr>head := Some w\<rparr>) s)"

text \<open>The loop of \<open>watcher_list_del\<close> looks at the link in \<open>*head\<close>; from the second round on that is
  the \<open>next\<close> of the watcher \<open>prev\<close>. \<open>None\<close> is a list that never ends.\<close>

partial_function (option) unlink :: "nat \<Rightarrow> nat \<Rightarrow> (nat \<Rightarrow> ev_io) \<Rightarrow> (nat \<Rightarrow> ev_io) option" where
  "unlink prev elem f =
     (case next_w (f prev) of
        None \<Rightarrow> Some f
      | Some x \<Rightarrow>
          if x = elem then Some (f(prev := (f prev)\<lparr>next_w := next_w (f elem)\<rparr>))
          else unlink x elem f)"

definition watcher_list_del :: "nat \<Rightarrow> nat \<Rightarrow> ev_loop \<Rightarrow> ev_loop res" where
  "watcher_list_del fd elem s =
     (case head (fds s fd) of
        None \<Rightarrow> Inr s
      | Some x \<Rightarrow>
          if x = elem then Inr (upd_fd fd (\<lambda>e. e\<lparr>head := next_w (ios s elem)\<rparr>) s)
          else (case unlink x elem (ios s) of
                  None \<Rightarrow> Inl NoReturn
                | Some f \<Rightarrow> Inr (s\<lparr>ios := f\<rparr>)))"

text \<open>The loops \<open>for (w = head; w; w = w->next)\<close> do not touch the links: they run over this list.\<close>

partial_function (option) follow :: "(nat \<Rightarrow> ev_io) \<Rightarrow> nat option \<Rightarrow> nat list option" where
  "follow f h =
     (case h of
        None \<Rightarrow> Some []
      | Some x \<Rightarrow>
          Option.bind (follow f (next_w (f x))) (\<lambda>xs. Some (x # xs)))"

definition fd_watchers :: "nat \<Rightarrow> ev_loop \<Rightarrow> nat list res" where
  "fd_watchers fd s = (case follow (ios s) (head (fds s fd)) of None \<Rightarrow> Inl NoReturn | Some xs \<Rightarrow> Inr xs)"

section \<open>Starting and stopping\<close>

definition NUMPRI_half :: int where "NUMPRI_half = 2"

definition clamp_pri :: "int \<Rightarrow> int" where
  "clamp_pri pri =
     (let pri = (if pri < 0 then 0 else pri) in if pri > int NUMPRI - 1 then int NUMPRI - 1 else pri)"

definition io_watcher_init ::
  "nat \<Rightarrow> int \<Rightarrow> uint32 \<Rightarrow> nat \<Rightarrow> nat \<Rightarrow> int \<Rightarrow> ev_loop \<Rightarrow> ev_loop res" where
  "io_watcher_init w fd ev cbk dat pri s =
     (if active (ios s w) \<noteq> 0 then Inr s
      else if fd < 0 then Inl AssertFail
      else if ev AND NOT (EV_READ OR EV_WRITE) \<noteq> 0 then Inl AssertFail
      else Inr (s\<lparr>ios := (ios s)(w := (ios s w)\<lparr>active := 0, pending := 0, priority := clamp_pri (clamp_pri pri),
                data := dat, cb := Some cbk, events := ev, io_fd := fd, next_w := None\<rparr>)\<rparr>))"

text \<open>A negative descriptor becomes a huge index, on which the array gives up.\<close>

definition io_watcher_start :: "nat \<Rightarrow> ev_loop \<Rightarrow> ev_loop res" where
  "io_watcher_start w s =
     (if active (ios s w) \<noteq> 0 then Inr s
      else let s = s\<lparr>ios := (ios s)(w := (ios s w)\<lparr>active := 1\<rparr>), activecnt := activecnt s + 1\<rparr>;
               fd = nat (io_fd (ios s w))
           in if io_fd (ios s w) < 0 then Inl OutOfBounds
              else Inr (fd_change fd EV_IS_CHANGED (watcher_list_add fd w s)))"

definition io_watcher_stop :: "nat \<Rightarrow> ev_loop \<Rightarrow> ev_loop res" where
  "io_watcher_stop w s =
     (let s = clear_pending (Io w) s in
      if active (ios s w) = 0 then Inr s
      else let fd = nat (io_fd (ios s w)) in
           bind_res (watcher_list_del fd w s) (\<lambda>s.
           let s = s\<lparr>ios := (ios s)(w := (ios s w)\<lparr>active := 0\<rparr>), activecnt := activecnt s - 1\<rparr>
           in Inr (fd_change fd EV_IS_CHANGED s)))"

definition timer_watcher_init :: "nat \<Rightarrow> ev_tstamp \<Rightarrow> ev_tstamp \<Rightarrow> nat \<Rightarrow> nat \<Rightarrow> ev_loop \<Rightarrow> ev_loop" where
  "timer_watcher_init w after rep cbk dat s =
     (if active (tms s w) \<noteq> 0 then s
      else s\<lparr>tms := (tms s)(w := (tms s w)\<lparr>active := 0, pending := 0, priority := clamp_pri NUMPRI_half,
             data := dat, cb := Some cbk, at_t := after, repeat := rep\<rparr>)\<rparr>)"

text \<open>\<open>push\<close> places the timer before its cached deadline is set: the heap compares with the cached
  value that was in the slot.\<close>

definition timer_watcher_start :: "nat \<Rightarrow> ev_loop \<Rightarrow> ev_loop res" where
  "timer_watcher_start w s =
     (if active (tms s w) \<noteq> 0 then Inr s
      else
        let s = s\<lparr>tms := (tms s)(w := (tms s w)\<lparr>at_t := at_t (tms s w) + mn_time_now s\<rparr>)\<rparr>;
            s = s\<lparr>tms := (tms s)(w := (tms s w)\<lparr>active := 0\<rparr>), activecnt := activecnt s + 1\<rparr>
        in bind_res (push w (timer_heap s) (tms s)) (\<lambda>(q, ts).
           let i = nat (active (ts w) - 1) in
           bind_res (HEAP_CACHE_AT (get q i) ts) (\<lambda>slot.
           Inr (s\<lparr>tms := ts, timer_heap := q\<lparr>heap := (heap q)[i := slot]\<rparr>\<rparr>))))"

definition timer_watcher_stop :: "nat \<Rightarrow> ev_loop \<Rightarrow> ev_loop res" where
  "timer_watcher_stop w s =
     (let s = clear_pending (Tm w) s in
      if active (tms s w) = 0 then Inr s
      else
        bind_res (remove (nat (active (tms s w) - 1)) (timer_heap s) (tms s)) (\<lambda>(r, q, ts).
        let ts = ts(w := (ts w)\<lparr>at_t := at_t (ts w) - mn_time_now s\<rparr>);
            ts = ts(w := (ts w)\<lparr>active := 0\<rparr>)
        in Inr (s\<lparr>tms := ts, timer_heap := q, activecnt := activecnt s - 1\<rparr>)))"

end
