(* ===== verification/Ev_Inv.thy ===== *)
theory Ev_Inv
  imports Ev_State
begin

text \<open>
  Invariants of the event loop's state and their preservation by the operations on watchers: a
  pending watcher and its slot point at each other (\<open>pend_ok\<close>), the list of a descriptor holds
  exactly its active watchers (\<open>lists_ok\<close>), and the changed descriptors are listed once
  (\<open>changes_ok\<close>).
\<close>

section \<open>Pending events\<close>

definition pend_ok :: "ev_loop \<Rightarrow> bool" where
  "pend_ok s \<longleftrightarrow>
     pending_of Dummy s = 0 \<and>
     (\<forall>pri i. i < pendingcnt s pri \<longrightarrow>
        (\<exists>w. pw (pendings s pri i) = Some w \<and>
          (w \<noteq> Dummy \<longrightarrow> pending_of w s = int i + 1 \<and> priority_of w s = pri))) \<and>
     (\<forall>w. pending_of w s \<noteq> 0 \<longrightarrow>
        (\<exists>i. pending_of w s = int i + 1 \<and> i < pendingcnt s (priority_of w s) \<and>
          pw (pendings s (priority_of w s) i) = Some w))"

lemma pend_okD:
  assumes "pend_ok s"
  shows "pending_of Dummy s = 0"
    "i < pendingcnt s pri \<Longrightarrow> \<exists>w. pw (pendings s pri i) = Some w \<and>
       (w \<noteq> Dummy \<longrightarrow> pending_of w s = int i + 1 \<and> priority_of w s = pri)"
    "pending_of w s \<noteq> 0 \<Longrightarrow> \<exists>i. pending_of w s = int i + 1 \<and> i < pendingcnt s (priority_of w s) \<and>
       pw (pendings s (priority_of w s) i) = Some w"
  using assms by (simp_all add: pend_ok_def)

lemma pending_set_pending [simp]:
  "pending_of w (set_pending v n s) = (if w = v then n else pending_of w s)"
  by (cases w; cases v) auto

lemma priority_set_pending [simp]: "priority_of w (set_pending v n s) = priority_of w s"
  by (cases w; cases v) auto

lemma set_pending_simps [simp]:
  "pendings (set_pending v n s) = pendings s" "pendingcnt (set_pending v n s) = pendingcnt s"
  "fds (set_pending v n s) = fds s" "fdchanges (set_pending v n s) = fdchanges s"
  "fdchangescnt (set_pending v n s) = fdchangescnt s" "activecnt (set_pending v n s) = activecnt s"
  "wstack (set_pending v n s) = wstack s" "timer_heap (set_pending v n s) = timer_heap s"
  "kern (set_pending v n s) = kern s" "mn_time_now (set_pending v n s) = mn_time_now s"
  "loop_done (set_pending v n s) = loop_done s"
  by (cases v; simp)+

lemma pend_ok_cong:
  assumes "\<And>q i. pw (pendings s' q i) = pw (pendings s q i)" "pendingcnt s' = pendingcnt s"
    "\<And>w. pending_of w s' = pending_of w s \<and> priority_of w s' = priority_of w s" "pend_ok s"
  shows "pend_ok s'"
  using assms by (simp add: pend_ok_def)

text \<open>A change that concerns neither the pending arrays nor what watchers know of them.\<close>

definition same_pend :: "ev_loop \<Rightarrow> ev_loop \<Rightarrow> bool" where
  "same_pend s s' \<longleftrightarrow> pendings s' = pendings s \<and> pendingcnt s' = pendingcnt s \<and>
     (\<forall>w. pending_of w s' = pending_of w s \<and> priority_of w s' = priority_of w s)"

lemma same_pend_refl [simp]: "same_pend s s" by (simp add: same_pend_def)

lemma same_pend_trans: "same_pend s s1 \<Longrightarrow> same_pend s1 s2 \<Longrightarrow> same_pend s s2"
  by (simp add: same_pend_def)

lemma same_pend_ok: "same_pend s s' \<Longrightarrow> pend_ok s \<Longrightarrow> pend_ok s'"
  by (simp add: same_pend_def pend_ok_def)

lemma same_pendI:
  assumes "pendings s' = pendings s" "pendingcnt s' = pendingcnt s" "dummy_watcher s' = dummy_watcher s"
    "\<And>i. pending (ios s' i) = pending (ios s i) \<and> priority (ios s' i) = priority (ios s i)"
    "\<And>i. pending (tms s' i) = pending (tms s i) \<and> priority (tms s' i) = priority (tms s i)"
  shows "same_pend s s'"
proof -
  have "pending_of w s' = pending_of w s \<and> priority_of w s' = priority_of w s" for w
    using assms(3-5) by (cases w) auto
  then show ?thesis using assms(1,2) by (simp add: same_pend_def)
qed

lemma pendings_set_slot [simp]:
  "pendings (set_slot pri i p s) q j = (if q = pri \<and> j = i then p else pendings s q j)"
  "pendingcnt (set_slot pri i p s) = pendingcnt s"
  "pending_of w (set_slot pri i p s) = pending_of w s"
  "priority_of w (set_slot pri i p s) = priority_of w s"
  by (auto simp: set_slot_def) (cases w; simp)+

lemma of_pendingcnt [simp]:
  "pending_of w (s\<lparr>pendingcnt := c\<rparr>) = pending_of w s"
  "priority_of w (s\<lparr>pendingcnt := c\<rparr>) = priority_of w s"
  by (cases w; simp)+

lemma feed_event_ok:
  assumes "pend_ok s" "w \<noteq> Dummy"
  shows "pend_ok (feed_event w ev s)"
proof (cases "pending_of w s = 0")
  case True
  let ?p = "priority_of w s" and ?n = "pendingcnt s (priority_of w s)"
  let ?s = "feed_event w ev s"
  have c: "pendingcnt ?s = (pendingcnt s)(?p := Suc ?n)"
    and pd: "\<And>v. pending_of v ?s = (if v = w then int ?n + 1 else pending_of v s)"
    and pr: "\<And>v. priority_of v ?s = priority_of v s"
    and sl: "\<And>q i. pendings ?s q i =
      (if q = ?p \<and> i = ?n then \<lparr>pw = Some w, pevents = ucast ev\<rparr> else pendings s q i)"
    using True by (auto simp: feed_event_def Let_def)
  have "\<exists>v. pw (pendings ?s q i) = Some v \<and> (v \<noteq> Dummy \<longrightarrow> pending_of v ?s = int i + 1 \<and> priority_of v ?s = q)"
    if "i < pendingcnt ?s q" for q i
  proof (cases "q = ?p \<and> i = ?n")
    case True
    then show ?thesis by (simp add: sl pd pr)
  next
    case False
    then have "i < pendingcnt s q" using that by (auto simp: c split: if_splits)
    then obtain v where v: "pw (pendings s q i) = Some v" "v \<noteq> Dummy \<longrightarrow> pending_of v s = int i + 1 \<and> priority_of v s = q"
      using pend_okD(2) [OF assms(1)] by blast
    moreover have "v \<noteq> w" using v True assms(2) by auto
    ultimately show ?thesis using False by (auto simp: sl pd pr)
  qed
  moreover have "\<exists>i. pending_of v ?s = int i + 1 \<and> i < pendingcnt ?s (priority_of v ?s) \<and>
      pw (pendings ?s (priority_of v ?s) i) = Some v" if "pending_of v ?s \<noteq> 0" for v
  proof (cases "v = w")
    case True
    then show ?thesis by (simp add: pd pr c sl)
  next
    case False
    then obtain i where "pending_of v s = int i + 1" "i < pendingcnt s (priority_of v s)"
      "pw (pendings s (priority_of v s) i) = Some v"
      using pend_okD(3) [OF assms(1), of v] \<open>pending_of v ?s \<noteq> 0\<close> by (auto simp: pd)
    then show ?thesis using False by (intro exI [of _ i]) (auto simp: pd pr c sl)
  qed
  moreover have "pending_of Dummy ?s = 0" using pend_okD(1) [OF assms(1)] assms(2) by (simp add: pd)
  ultimately show ?thesis by (simp add: pend_ok_def)
next
  case False
  then show ?thesis
    by (intro pend_ok_cong [OF _ _ _ assms(1)]) (simp_all add: feed_event_def Let_def)
qed

lemma clear_pending_ok:
  assumes "pend_ok s"
  shows "pend_ok (clear_pending w s)"
proof (cases "pending_of w s = 0")
  case True
  then show ?thesis using assms by (simp add: clear_pending_def)
next
  case False
  note d = pend_okD [OF assms]
  let ?p = "priority_of w s"
  obtain i where i: "pending_of w s = int i + 1" "i < pendingcnt s ?p" "pw (pendings s ?p i) = Some w"
    using d(3) [OF False] by blast
  let ?s = "clear_pending w s"
  have c: "pendingcnt ?s = pendingcnt s"
    and pd: "\<And>v. pending_of v ?s = (if v = w then 0 else pending_of v s)"
    and pr: "\<And>v. priority_of v ?s = priority_of v s"
    and sl: "\<And>q j. pendings ?s q j =
      (if q = ?p \<and> j = i then (pendings s q j)\<lparr>pw := Some Dummy\<rparr> else pendings s q j)"
    using False i(1) by (auto simp: clear_pending_def Let_def)
  have "\<exists>v. pw (pendings ?s q j) = Some v \<and> (v \<noteq> Dummy \<longrightarrow> pending_of v ?s = int j + 1 \<and> priority_of v ?s = q)"
    if "j < pendingcnt s q" for q j
    using d(2) [OF that] i by (auto simp: sl pd pr)
  moreover have "\<exists>j. pending_of v ?s = int j + 1 \<and> j < pendingcnt s (priority_of v s) \<and>
      pw (pendings ?s (priority_of v s) j) = Some v" if "pending_of v ?s \<noteq> 0" for v
  proof -
    have v: "v \<noteq> w" "pending_of v s \<noteq> 0" using that by (auto simp: pd split: if_splits)
    then obtain j where "pending_of v s = int j + 1" "j < pendingcnt s (priority_of v s)"
      "pw (pendings s (priority_of v s) j) = Some v"
      using d(3) by blast
    then show ?thesis using v i by (intro exI [of _ j]) (auto simp: pd sl)
  qed
  moreover have "pending_of Dummy ?s = 0" using d(1) by (simp add: pd)
  ultimately show ?thesis by (simp add: pend_ok_def c pr)
qed

lemma feed_all_ok: "pend_ok s \<Longrightarrow> Dummy \<notin> set ws \<Longrightarrow> pend_ok (feed_all ws ev s)"
  by (induction ws ev s rule: feed_all.induct) (auto simp: feed_event_ok)

text \<open>Seen from outside, the pending events are a map from watchers to event masks: feeding ors into
  it, clearing removes.\<close>

definition queued :: "ev_loop \<Rightarrow> wref \<Rightarrow> short option" where
  "queued s w =
     (if pending_of w s = 0 then None
      else Some (pevents (pendings s (priority_of w s) (nat (pending_of w s - 1)))))"

lemma queued_feed:
  assumes "pend_ok s" "w \<noteq> Dummy"
  shows "queued (feed_event w ev s) =
    (queued s)(w \<mapsto> (case queued s w of None \<Rightarrow> ucast ev | Some e \<Rightarrow> e OR ucast ev))"
proof
  fix v
  note d = pend_okD [OF assms(1)]
  show "queued (feed_event w ev s) v =
      ((queued s)(w \<mapsto> (case queued s w of None \<Rightarrow> ucast ev | Some e \<Rightarrow> e OR ucast ev))) v"
  proof (cases "v = w \<or> pending_of v s = 0")
    case True
    then show ?thesis
      by (cases "pending_of w s = 0") (auto simp: queued_def feed_event_def Let_def)
  next
    case False
    then obtain i where i: "pending_of v s = int i + 1" "i < pendingcnt s (priority_of v s)"
      "pw (pendings s (priority_of v s) i) = Some v"
      using d(3) by blast
    show ?thesis
    proof (cases "pending_of w s = 0")
      case True
      then show ?thesis using False i by (auto simp: queued_def feed_event_def Let_def)
    next
      case w: False
      then obtain j where "pending_of w s = int j + 1" "pw (pendings s (priority_of w s) j) = Some w"
        using d(3) by blast
      then show ?thesis using False i w by (auto simp: queued_def feed_event_def Let_def)
    qed
  qed
qed

lemma queued_clear:
  assumes "pend_ok s"
  shows "queued (clear_pending w s) = (queued s)(w := None)"
proof
  fix v
  note d = pend_okD [OF assms]
  show "queued (clear_pending w s) v = ((queued s)(w := None)) v"
  proof (cases "pending_of w s = 0 \<or> v = w \<or> pending_of v s = 0")
    case True
    then show ?thesis by (auto simp: queued_def clear_pending_def Let_def)
  next
    case False
    then obtain i j where "pending_of v s = int i + 1" "pw (pendings s (priority_of v s) i) = Some v"
      "pending_of w s = int j + 1" "pw (pendings s (priority_of w s) j) = Some w"
      using d(3) [of v] d(3) [of w] by blast
    then show ?thesis using False by (auto simp: queued_def clear_pending_def Let_def)
  qed
qed

lemma queued_same: "same_pend s s' \<Longrightarrow> queued s' = queued s"
  by (auto simp: same_pend_def queued_def)

section \<open>The lists\<close>

primrec wlist :: "(nat \<Rightarrow> ev_io) \<Rightarrow> nat option \<Rightarrow> nat list \<Rightarrow> bool" where
  "wlist f h [] \<longleftrightarrow> h = None"
| "wlist f h (x # xs) \<longleftrightarrow> h = Some x \<and> wlist f (next_w (f x)) xs"

lemma wlist_cong:
  "(\<And>x. x \<in> set xs \<Longrightarrow> next_w (g x) = next_w (f x)) \<Longrightarrow> wlist g h xs \<longleftrightarrow> wlist f h xs"
  by (induction xs arbitrary: h) auto

lemma wlist_unique: "wlist f h xs \<Longrightarrow> wlist f h ys \<Longrightarrow> xs = ys"
proof (induction xs arbitrary: h ys)
  case Nil
  then show ?case by (cases ys) auto
next
  case (Cons x xs)
  then show ?case by (cases ys) auto
qed

lemma follow_wlist: "wlist f h xs \<Longrightarrow> follow f h = Some xs"
  by (induction xs arbitrary: h) (simp_all add: follow.simps)

lemma unlink_wlist:
  assumes "wlist f (next_w (f prev)) xs" "distinct (prev # xs)" "elem \<in> set xs"
  shows "\<exists>v g. unlink prev elem f = Some g \<and> g = f(v := (f v)\<lparr>next_w := next_w (f elem)\<rparr>) \<and>
    v \<in> set (prev # xs) \<and> wlist g (next_w (g prev)) (remove1 elem xs)"
  using assms
proof (induction xs arbitrary: prev)
  case Nil
  then show ?case by simp
next
  case (Cons x xs)
  show ?case
  proof (cases "x = elem")
    case True
    let ?g = "f(prev := (f prev)\<lparr>next_w := next_w (f elem)\<rparr>)"
    have "unlink prev elem f = Some ?g" using Cons.prems True by (simp add: unlink.simps)
    moreover have "wlist ?g (next_w (f elem)) xs"
      using Cons.prems True by (subst wlist_cong [where f = f]) auto
    ultimately show ?thesis using True by (intro exI [of _ prev] exI [of _ ?g]) (simp add: fun_upd_def)
  next
    case False
    have "wlist f (next_w (f x)) xs" "distinct (x # xs)" "elem \<in> set xs"
      using Cons.prems False by auto
    then obtain v g where r: "unlink x elem f = Some g" "g = f(v := (f v)\<lparr>next_w := next_w (f elem)\<rparr>)"
      "v \<in> set (x # xs)" "wlist g (next_w (g x)) (remove1 elem xs)"
      using Cons.IH [of x] by blast
    have "unlink prev elem f = Some g" using Cons.prems(1) False r(1) by (subst unlink.simps) simp
    moreover have "next_w (g prev) = Some x" using r(2,3) Cons.prems(1,2) by auto
    ultimately have "unlink prev elem f = Some g \<and> wlist g (next_w (g prev)) (remove1 elem (x # xs))"
      using r(4) False by simp
    moreover have "v \<in> set (prev # x # xs)" using r(3) by auto
    ultimately show ?thesis using r(2) by blast
  qed
qed

definition fd_list :: "nat \<Rightarrow> ev_loop \<Rightarrow> nat list \<Rightarrow> bool" where
  "fd_list fd s xs \<longleftrightarrow> wlist (ios s) (head (fds s fd)) xs \<and> distinct xs \<and>
     set xs = {w. active (ios s w) \<noteq> 0 \<and> io_fd (ios s w) = int fd}"

definition lists_ok :: "ev_loop \<Rightarrow> bool" where
  "lists_ok s \<longleftrightarrow> (\<forall>fd. \<exists>xs. fd_list fd s xs) \<and> (\<forall>w. active (ios s w) \<noteq> 0 \<longrightarrow> 0 \<le> io_fd (ios s w))"

lemma fd_list_unique: "fd_list fd s xs \<Longrightarrow> fd_list fd s ys \<Longrightarrow> xs = ys"
  by (auto simp: fd_list_def intro: wlist_unique)

lemma fd_watchers_list: "fd_list fd s xs \<Longrightarrow> fd_watchers fd s = Inr xs"
  by (auto simp: fd_list_def fd_watchers_def dest!: follow_wlist)

text \<open>What lists depend on.\<close>

lemma fd_list_cong:
  assumes "head (fds s' fd) = head (fds s fd)"
    "\<And>w. next_w (ios s' w) = next_w (ios s w) \<and> active (ios s' w) = active (ios s w) \<and> io_fd (ios s' w) = io_fd (ios s w)"
  shows "fd_list fd s' xs \<longleftrightarrow> fd_list fd s xs"
  using assms wlist_cong [of xs "ios s'" "ios s"] by (simp add: fd_list_def)

lemma lists_ok_cong:
  assumes "\<And>fd. head (fds s' fd) = head (fds s fd)"
    "\<And>w. next_w (ios s' w) = next_w (ios s w) \<and> active (ios s' w) = active (ios s w) \<and> io_fd (ios s' w) = io_fd (ios s w)"
  shows "lists_ok s' \<longleftrightarrow> lists_ok s"
  using assms fd_list_cong [of s' _ s] by (simp add: lists_ok_def)

lemma fd_list_add:
  assumes "fd_list fd s xs" "active (ios s w) = 0" "io_fd (ios s w) = int d"
    "ios s' = (ios s)(w := (ios s w)\<lparr>active := 1, next_w := head (fds s d)\<rparr>)"
    "head (fds s' fd) = (if fd = d then Some w else head (fds s fd))"
  shows "fd_list fd s' (if fd = d then w # xs else xs)"
proof -
  have w: "w \<notin> set xs" using assms(1,2) by (auto simp: fd_list_def)
  then have "wlist (ios s') h xs \<longleftrightarrow> wlist (ios s) h xs" for h
    by (intro wlist_cong) (auto simp: assms(4))
  then show ?thesis using assms w by (auto simp: fd_list_def)
qed

lemma fd_list_del:
  assumes l: "\<And>fd. fd_list fd s (L fd)" and w: "w \<in> set (L d)"
  obtains s1 f where "watcher_list_del d w s = Inr s1" "s1 = s\<lparr>ios := ios s1, fds := fds s1\<rparr>"
    "ios s1 = f" "\<And>v. f v = (ios s v)\<lparr>next_w := next_w (f v)\<rparr>"
    "\<And>fd. fds s1 fd = (fds s fd)\<lparr>head := head (fds s1 fd)\<rparr>"
    "\<And>fd. wlist f (head (fds s1 fd)) (if fd = d then remove1 w (L d) else L fd)"
proof -
  have dist: "\<And>fd. distinct (L fd)" and wl: "\<And>fd. wlist (ios s) (head (fds s fd)) (L fd)"
    and st: "\<And>fd. set (L fd) = {w. active (ios s w) \<noteq> 0 \<and> io_fd (ios s w) = int fd}"
    using l by (auto simp: fd_list_def)
  have disj: "set (L fd) \<inter> set (L d) = {}" if "fd \<noteq> d" for fd using that by (auto simp: st)
  obtain x xs where L: "L d = x # xs" using w by (cases "L d") auto
  then have h: "head (fds s d) = Some x" "wlist (ios s) (next_w (ios s x)) xs" using wl [of d] by auto
  show ?thesis
  proof (cases "x = w")
    case True
    let ?s = "upd_fd d (\<lambda>e. e\<lparr>head := next_w (ios s w)\<rparr>) s"
    have "watcher_list_del d w s = Inr ?s" using h True by (simp add: watcher_list_del_def)
    then show ?thesis
      by (rule that) (use h True L wl in \<open>auto simp: upd_fd_def\<close>)
  next
    case False
    have "w \<in> set xs" using w L False by simp
    then obtain v g where g: "unlink x w (ios s) = Some g" "g = (ios s)(v := (ios s v)\<lparr>next_w := next_w (ios s w)\<rparr>)"
      "v \<in> set (x # xs)" "wlist g (next_w (g x)) (remove1 w xs)"
      using unlink_wlist [of "ios s" x xs w] h dist [of d] L by auto
    have "watcher_list_del d w s = Inr (s\<lparr>ios := g\<rparr>)" using h False g(1) by (simp add: watcher_list_del_def)
    then show ?thesis
    proof (rule that)
      show "wlist g (head (fds (s\<lparr>ios := g\<rparr>) fd)) (if fd = d then remove1 w (L d) else L fd)" for fd
      proof (cases "fd = d")
        case True
        then show ?thesis using g h L False by simp
      next
        case fd: False
        have "v \<notin> set (L fd)" using disj [OF fd] g(3) L by auto
        then have "wlist g (head (fds s fd)) (L fd)"
          using wl [of fd] by (subst wlist_cong [where f = "ios s"]) (auto simp: g(2))
        then show ?thesis using fd by simp
      qed
    qed (simp_all add: g(2))
  qed
qed

section \<open>Changed descriptors and counters\<close>

text \<open>The entries from \<open>k\<close> on are to be handled; \<open>update_fd\<close> moves \<open>k\<close> from 0 to the end.\<close>

definition changes_ok :: "nat \<Rightarrow> ev_loop \<Rightarrow> bool" where
  "changes_ok k s \<longleftrightarrow> k \<le> fdchangescnt s \<and> distinct (map (fdchanges s) [k..<fdchangescnt s]) \<and>
     (\<forall>fd. ischanged (fds s fd) = (if fd \<in> fdchanges s ` {k..<fdchangescnt s} then EV_IS_CHANGED else 0))"

text \<open>The union of what the watchers of a list are interested in.\<close>

primrec interest :: "(nat \<Rightarrow> ev_io) \<Rightarrow> nat list \<Rightarrow> byte" where
  "interest f [] = 0"
| "interest f (x # xs) = ucast (events (f x)) OR interest f xs"

lemma interest_cong: "(\<And>x. x \<in> set xs \<Longrightarrow> events (g x) = events (f x)) \<Longrightarrow> interest g xs = interest f xs"
  by (induction xs) auto

definition synced :: "ev_loop \<Rightarrow> bool" where
  "synced s \<longleftrightarrow> (\<forall>fd xs. fd_list fd s xs \<longrightarrow> ischanged (fds s fd) = 0 \<longrightarrow> fevents (fds s fd) = interest (ios s) xs)"

definition active_ios :: "ev_loop \<Rightarrow> nat set" where
  "active_ios s = {w. active (ios s w) \<noteq> 0}"

definition counted :: "ev_loop \<Rightarrow> bool" where
  "counted s \<longleftrightarrow> finite (active_ios s) \<and> activecnt s = int (card (active_ios s)) + int (hsize (timer_heap s))"

definition core_ok :: "nat \<Rightarrow> ev_loop \<Rightarrow> bool" where
  "core_ok k s \<longleftrightarrow> lists_ok s \<and> changes_ok k s \<and> synced s \<and> heap_inv (timer_heap s) (tms s) \<and> counted s"

definition loop_inv :: "nat \<Rightarrow> ev_loop \<Rightarrow> bool" where
  "loop_inv k s \<longleftrightarrow> pend_ok s \<and> core_ok k s \<and> Dummy \<notin> set (wstack s)"

definition same_core :: "ev_loop \<Rightarrow> ev_loop \<Rightarrow> bool" where
  "same_core s s' \<longleftrightarrow> fds s' = fds s \<and> fdchanges s' = fdchanges s \<and> fdchangescnt s' = fdchangescnt s \<and>
     activecnt s' = activecnt s \<and> timer_heap s' = timer_heap s \<and> kern s' = kern s \<and>
     mn_time_now s' = mn_time_now s \<and>
     (\<forall>w. (ios s' w)\<lparr>pending := 0\<rparr> = (ios s w)\<lparr>pending := 0\<rparr>) \<and>
     (\<forall>w. (tms s' w)\<lparr>pending := 0\<rparr> = (tms s w)\<lparr>pending := 0\<rparr>)"

lemma same_but_pending:
  "(x :: ev_io)\<lparr>pending := 0\<rparr> = y\<lparr>pending := 0\<rparr> \<Longrightarrow>
     next_w x = next_w y \<and> active x = active y \<and> io_fd x = io_fd y \<and> events x = events y \<and>
     priority x = priority y \<and> cb x = cb y \<and> data x = data y"
  by (cases x; cases y) simp

lemma same_but_pending_tm:
  "(x :: ev_timer)\<lparr>pending := 0\<rparr> = y\<lparr>pending := 0\<rparr> \<Longrightarrow>
     active x = active y \<and> at_t x = at_t y \<and> repeat x = repeat y \<and>
     priority x = priority y \<and> cb x = cb y \<and> data x = data y"
  by (cases x; cases y) simp

lemma same_coreD:
  assumes "same_core s s'"
  shows "fds s' = fds s" "fdchanges s' = fdchanges s" "fdchangescnt s' = fdchangescnt s"
    "activecnt s' = activecnt s" "timer_heap s' = timer_heap s" "kern s' = kern s" "mn_time_now s' = mn_time_now s"
    "next_w (ios s' w) = next_w (ios s w)" "active (ios s' w) = active (ios s w)"
    "io_fd (ios s' w) = io_fd (ios s w)" "events (ios s' w) = events (ios s w)"
    "active (tms s' w) = active (tms s w)" "at_t (tms s' w) = at_t (tms s w)"
    "repeat (tms s' w) = repeat (tms s w)"
  using assms same_but_pending [of "ios s' w" "ios s w"] same_but_pending_tm [of "tms s' w" "tms s w"]
  by (simp_all add: same_core_def)

lemma same_core_refl [simp]: "same_core s s" by (simp add: same_core_def)

lemma same_core_trans: "same_core s s1 \<Longrightarrow> same_core s1 s2 \<Longrightarrow> same_core s s2"
  by (simp add: same_core_def)

lemma heap_inv_cong: "(\<And>w. active (ts' w) = active (ts w)) \<Longrightarrow> heap_inv q ts' \<longleftrightarrow> heap_inv q ts"
  by (simp add: heap_inv_def indexed_def)

lemma same_core_list: "same_core s s' \<Longrightarrow> fd_list fd s' xs \<longleftrightarrow> fd_list fd s xs"
  by (rule fd_list_cong) (simp_all add: same_coreD)

lemma same_core_ok:
  assumes "same_core s s'"
  shows "core_ok k s' \<longleftrightarrow> core_ok k s"
proof -
  note d = same_coreD [OF assms]
  have i: "interest (ios s') xs = interest (ios s) xs" for xs by (rule interest_cong) (simp add: d)
  have l: "fd_list fd s' = fd_list fd s" for fd by (rule ext) (rule same_core_list [OF assms])
  show ?thesis
    unfolding core_ok_def lists_ok_def changes_ok_def synced_def counted_def active_ios_def
    by (simp add: d l i heap_inv_cong [of "tms s'" "tms s"])
qed

lemma set_pending_core [simp]: "same_core s (set_pending w n s)"
  by (cases w) (simp_all add: same_core_def)

lemma feed_event_core [simp]: "same_core s (feed_event w ev s)"
  by (cases w) (simp_all add: feed_event_def Let_def set_slot_def same_core_def)

lemma clear_pending_core [simp]: "same_core s (clear_pending w s)"
  by (cases w) (simp_all add: clear_pending_def Let_def set_slot_def same_core_def)

lemma wstack_feed [simp]: "wstack (feed_event w ev s) = wstack s" "wstack (clear_pending w s) = wstack s"
  by (cases w; simp add: feed_event_def clear_pending_def Let_def set_slot_def)+

lemma feed_event_inv: "loop_inv k s \<Longrightarrow> w \<noteq> Dummy \<Longrightarrow> loop_inv k (feed_event w ev s)"
  using same_core_ok [OF feed_event_core] by (simp add: loop_inv_def feed_event_ok)

lemma clear_pending_inv: "loop_inv k s \<Longrightarrow> loop_inv k (clear_pending w s)"
  using same_core_ok [OF clear_pending_core] by (simp add: loop_inv_def clear_pending_ok)

section \<open>Starting and stopping watchers\<close>

lemma fd_change_simps [simp]:
  "ios (fd_change fd fl s) = ios s" "tms (fd_change fd fl s) = tms s" "head (fds (fd_change fd fl s) d) = head (fds s d)"
  "fevents (fds (fd_change fd fl s) d) = fevents (fds s d)" "tag (fds (fd_change fd fl s) d) = tag (fds s d)"
  "previous_evs (fds (fd_change fd fl s) d) = previous_evs (fds s d)"
  "activecnt (fd_change fd fl s) = activecnt s" "timer_heap (fd_change fd fl s) = timer_heap s"
  "kern (fd_change fd fl s) = kern s" "pendings (fd_change fd fl s) = pendings s"
  "pendingcnt (fd_change fd fl s) = pendingcnt s" "dummy_watcher (fd_change fd fl s) = dummy_watcher s"
  "wstack (fd_change fd fl s) = wstack s" "mn_time_now (fd_change fd fl s) = mn_time_now s"
  by (auto simp: fd_change_def Let_def upd_fd_def)

lemma fd_change_changed [simp]:
  "ischanged (fds (fd_change fd EV_IS_CHANGED s) d) =
     (if d = fd then ischanged (fds s d) OR EV_IS_CHANGED else ischanged (fds s d))"
  by (auto simp: fd_change_def Let_def upd_fd_def)

lemma or_changed [simp]: "x OR EV_IS_CHANGED \<noteq> 0"
proof -
  have "bit (x OR EV_IS_CHANGED) 0" by (simp add: EV_IS_CHANGED_def bit_or_iff)
  then show ?thesis by auto
qed

lemma changes_ok_cong:
  "fdchanges s' = fdchanges s \<Longrightarrow> fdchangescnt s' = fdchangescnt s \<Longrightarrow>
   (\<And>fd. ischanged (fds s' fd) = ischanged (fds s fd)) \<Longrightarrow> changes_ok k s' \<longleftrightarrow> changes_ok k s"
  by (simp add: changes_ok_def)

lemma EV_IS_CHANGED_simps [simp]:
  "EV_IS_CHANGED \<noteq> 0" "EV_IS_CHANGED OR EV_IS_CHANGED = EV_IS_CHANGED" "0 OR EV_IS_CHANGED = EV_IS_CHANGED"
  by (simp_all add: EV_IS_CHANGED_def)

lemma fd_change_ok:
  assumes "changes_ok k s"
  shows "changes_ok k (fd_change fd EV_IS_CHANGED s)"
proof (cases "ischanged (fds s fd) = 0")
  case True
  let ?n = "fdchangescnt s" and ?s = "fd_change fd EV_IS_CHANGED s"
  have c: "fdchangescnt ?s = Suc ?n" "fdchanges ?s = (fdchanges s)(?n := fd)"
    using True by (simp_all add: fd_change_def Let_def upd_fd_def)
  have k: "k \<le> ?n" using assms by (simp add: changes_ok_def)
  have new: "fd \<notin> fdchanges s ` {k..<?n}" using assms True by (auto simp: changes_ok_def split: if_splits)
  have m: "map (fdchanges ?s) [k..<?n] = map (fdchanges s) [k..<?n]" by (simp add: c)
  have "distinct (map (fdchanges ?s) [k..<Suc ?n])"
    using assms new k m by (auto simp: changes_ok_def c)
  moreover have "fdchanges ?s ` {k..<Suc ?n} = insert fd (fdchanges s ` {k..<?n})"
    using k by (auto simp: c atLeastLessThanSuc image_iff)
  ultimately show ?thesis using assms k True by (auto simp: changes_ok_def c)
next
  case False
  then have "fdchanges (fd_change fd EV_IS_CHANGED s) = fdchanges s"
    "fdchangescnt (fd_change fd EV_IS_CHANGED s) = fdchangescnt s"
    by (simp_all add: fd_change_def Let_def upd_fd_def)
  then show ?thesis using assms False by (auto simp: changes_ok_def split: if_splits)
qed

lemma listsI:
  assumes "\<And>fd. fd_list fd s (L fd)" "\<And>w. active (ios s w) \<noteq> 0 \<Longrightarrow> 0 \<le> io_fd (ios s w)"
    "\<And>fd. ischanged (fds s fd) = 0 \<Longrightarrow> fevents (fds s fd) = interest (ios s) (L fd)"
  shows "lists_ok s" "synced s"
  using assms fd_list_unique [OF assms(1)] unfolding lists_ok_def synced_def by blast+

lemma listsE:
  assumes "core_ok k s"
  obtains L where "\<And>fd. fd_list fd s (L fd)"
    "\<And>fd. ischanged (fds s fd) = 0 \<Longrightarrow> fevents (fds s fd) = interest (ios s) (L fd)"
proof -
  have "\<forall>fd. \<exists>xs. fd_list fd s xs" using assms by (simp add: core_ok_def lists_ok_def)
  then obtain L where "\<forall>fd. fd_list fd s (L fd)" by metis
  then show thesis using that [of L] assms by (simp add: core_ok_def synced_def)
qed

lemma io_watcher_start_inv:
  assumes inv: "loop_inv k s" and fd: "0 \<le> io_fd (ios s w)"
  shows "\<exists>s'. io_watcher_start w s = Inr s' \<and> loop_inv k s' \<and> same_pend s s' \<and> active (ios s' w) \<noteq> 0 \<and>
    kern s' = kern s"
proof (cases "active (ios s w) = 0")
  case False
  then show ?thesis using inv by (simp add: io_watcher_start_def)
next
  case True
  let ?d = "nat (io_fd (ios s w))"
  define f where "f = (ios s)(w := (ios s w)\<lparr>active := 1, next_w := head (fds s ?d)\<rparr>)"
  define s1 where "s1 = watcher_list_add ?d w (s\<lparr>ios := (ios s)(w := (ios s w)\<lparr>active := 1\<rparr>), activecnt := activecnt s + 1\<rparr>)"
  define s' where "s' = fd_change ?d EV_IS_CHANGED s1"
  have st: "io_watcher_start w s = Inr s'"
    using True fd by (simp add: io_watcher_start_def s'_def s1_def Let_def)
  have s1: "ios s1 = f" "tms s1 = tms s" "timer_heap s1 = timer_heap s" "activecnt s1 = activecnt s + 1"
    "\<And>fd. head (fds s1 fd) = (if fd = ?d then Some w else head (fds s fd))"
    "\<And>fd. ischanged (fds s1 fd) = ischanged (fds s fd)" "\<And>fd. fevents (fds s1 fd) = fevents (fds s fd)"
    "fdchanges s1 = fdchanges s" "fdchangescnt s1 = fdchangescnt s" "kern s1 = kern s" "wstack s1 = wstack s"
    "same_pend s s1"
    by (auto simp: s1_def watcher_list_add_def Let_def upd_fd_def f_def intro!: same_pendI)
  have core: "core_ok k s" using inv by (simp add: loop_inv_def)
  obtain L where L: "\<And>fd. fd_list fd s (L fd)"
    "\<And>fd. ischanged (fds s fd) = 0 \<Longrightarrow> fevents (fds s fd) = interest (ios s) (L fd)"
    by (rule listsE [OF core]) blast
  have L': "fd_list d s' (if d = ?d then w # L d else L d)" for d
    using fd by (intro fd_list_add [OF L(1) True]) (simp_all add: s'_def s1 f_def)
  have "w \<notin> set (L d)" for d using L(1) [of d] True by (auto simp: fd_list_def)
  then have il: "interest (ios s') (L d) = interest (ios s) (L d)" for d
    by (intro interest_cong) (auto simp: s'_def s1 f_def)
  have q: "ios s' = f" "\<And>d. ischanged (fds s' d) = (if d = ?d then ischanged (fds s d) OR EV_IS_CHANGED else ischanged (fds s d))"
    "\<And>d. fevents (fds s' d) = fevents (fds s d)"
    by (simp_all add: s'_def s1)
  have "fevents (fds s' d) = interest (ios s') (if d = ?d then w # L d else L d)" if "ischanged (fds s' d) = 0" for d
    using that L(2) [of d] il [of d] by (auto simp: q(2,3) split: if_splits)
  moreover have "0 \<le> io_fd (ios s' v)" if "active (ios s' v) \<noteq> 0" for v
    using that fd core by (auto simp: q f_def core_ok_def lists_ok_def split: if_splits)
  ultimately have "lists_ok s' \<and> synced s'" using listsI [OF L'] by blast
  moreover have "changes_ok k s'"
    using core changes_ok_cong [OF s1(8,9,6)] by (simp add: s'_def fd_change_ok core_ok_def)
  moreover have "counted s'"
  proof -
    have "active_ios s' = insert w (active_ios s)" by (auto simp: active_ios_def s'_def s1 f_def)
    moreover have "w \<notin> active_ios s" using True by (simp add: active_ios_def)
    ultimately show ?thesis using core by (simp add: counted_def core_ok_def s'_def s1)
  qed
  moreover have "heap_inv (timer_heap s') (tms s')" using core by (simp add: s'_def s1 core_ok_def)
  moreover have "same_pend s1 s'" by (rule same_pendI) (simp_all add: s'_def)
  then have sp: "same_pend s s'" using s1(12) same_pend_trans by blast
  moreover have "pend_ok s'" using same_pend_ok [OF sp] inv by (simp add: loop_inv_def)
  moreover have "wstack s' = wstack s" "kern s' = kern s" "active (ios s' w) \<noteq> 0"
    by (simp_all add: s'_def s1 f_def)
  ultimately show ?thesis using st inv by (simp add: loop_inv_def core_ok_def)
qed

lemma io_watcher_stop_inv:
  assumes inv: "loop_inv k s"
  shows "\<exists>s'. io_watcher_stop w s = Inr s' \<and> loop_inv k s' \<and> same_pend (clear_pending (Io w) s) s' \<and>
    active (ios s' w) = 0 \<and> kern s' = kern s \<and>
    (\<forall>v. v \<noteq> w \<longrightarrow> active (ios s' v) = active (ios s v)) \<and>
    (\<forall>v. io_fd (ios s' v) = io_fd (ios s v) \<and> events (ios s' v) = events (ios s v)) \<and>
    tms s' = tms (clear_pending (Io w) s) \<and> mn_time_now s' = mn_time_now s \<and>
    (\<forall>fd. fevents (fds s' fd) = fevents (fds s fd) \<and> tag (fds s' fd) = tag (fds s fd) \<and>
       previous_evs (fds s' fd) = previous_evs (fds s fd)) \<and>
    (\<forall>fd. int fd \<noteq> io_fd (ios s w) \<longrightarrow> head (fds s' fd) = head (fds s fd) \<and> ischanged (fds s' fd) = ischanged (fds s fd))"
proof -
  let ?c = "clear_pending (Io w) s"
  note k = same_coreD [OF clear_pending_core [of s "Io w"]]
  have invc: "loop_inv k ?c" by (rule clear_pending_inv [OF inv])
  then have core: "core_ok k ?c" by (simp add: loop_inv_def)
  show ?thesis
  proof (cases "active (ios ?c w) = 0")
    case True
    then show ?thesis using invc by (simp add: io_watcher_stop_def Let_def k)
  next
    case False
    let ?d = "nat (io_fd (ios s w))"
    obtain L where L: "\<And>fd. fd_list fd ?c (L fd)"
      "\<And>fd. ischanged (fds ?c fd) = 0 \<Longrightarrow> fevents (fds ?c fd) = interest (ios ?c) (L fd)"
      by (rule listsE [OF core]) blast
    have pos: "0 \<le> io_fd (ios s w)" using core False by (simp add: core_ok_def lists_ok_def k)
    have w: "w \<in> set (L ?d)" using L(1) [of ?d] False pos by (simp add: fd_list_def k)
    obtain s1 f where del: "watcher_list_del ?d w ?c = Inr s1" "s1 = ?c\<lparr>ios := ios s1, fds := fds s1\<rparr>"
      "ios s1 = f" "\<And>v. f v = (ios ?c v)\<lparr>next_w := next_w (f v)\<rparr>"
      "\<And>fd. fds s1 fd = (fds ?c fd)\<lparr>head := head (fds s1 fd)\<rparr>"
      "\<And>fd. wlist f (head (fds s1 fd)) (if fd = ?d then remove1 w (L ?d) else L fd)"
      using fd_list_del [OF L(1) w] by metis
    define s2 where "s2 = s1\<lparr>ios := f(w := (f w)\<lparr>active := 0\<rparr>), activecnt := activecnt s1 - 1\<rparr>"
    define s' where "s' = fd_change ?d EV_IS_CHANGED s2"
    have st: "io_watcher_stop w s = Inr s'"
      using False del(1,3) by (simp add: io_watcher_stop_def Let_def k s'_def s2_def)
    have f: "active (f v) = active (ios s v)" "io_fd (f v) = io_fd (ios s v)" "events (f v) = events (ios s v)"
      "pending (f v) = pending (ios ?c v)" "priority (f v) = priority (ios ?c v)" for v
      using del(4) [of v] by (metis ev_io.select_convs ev_watcher.select_convs ev_io.surjective ev_io.update_convs k(9-11))+
    have e: "ischanged (fds s1 fd) = ischanged (fds s fd)" "fevents (fds s1 fd) = fevents (fds s fd)"
      "tag (fds s1 fd) = tag (fds s fd)" "previous_evs (fds s1 fd) = previous_evs (fds s fd)" for fd
      using arg_cong [OF del(5) [of fd], of ischanged] arg_cong [OF del(5) [of fd], of fevents]
        arg_cong [OF del(5) [of fd], of tag] arg_cong [OF del(5) [of fd], of previous_evs] by (simp_all add: k)
    have s1: "tms s1 = tms ?c" "timer_heap s1 = timer_heap s" "activecnt s1 = activecnt s" "kern s1 = kern s"
      "fdchanges s1 = fdchanges s" "fdchangescnt s1 = fdchangescnt s" "mn_time_now s1 = mn_time_now s"
      "wstack s1 = wstack s" "pendings s1 = pendings ?c" "pendingcnt s1 = pendingcnt ?c"
      "dummy_watcher s1 = dummy_watcher ?c"
      by (subst del(2); simp add: k)+
    have q: "ios s' v = (if v = w then (f v)\<lparr>active := 0\<rparr> else f v)"
      "ischanged (fds s' fd) = (if fd = ?d then ischanged (fds s fd) OR EV_IS_CHANGED else ischanged (fds s fd))"
      "fevents (fds s' fd) = fevents (fds s fd)" "tag (fds s' fd) = tag (fds s fd)"
      "previous_evs (fds s' fd) = previous_evs (fds s fd)" "head (fds s' fd) = head (fds s1 fd)" for v fd
      by (simp_all add: s'_def s2_def e)
    have nx: "next_w (ios s' v) = next_w (f v)" "active (ios s' v) = (if v = w then 0 else active (ios s v))"
      "io_fd (ios s' v) = io_fd (ios s v)" "events (ios s' v) = events (ios s v)" for v
      by (simp_all add: q f)
    have L': "fd_list d s' (if d = ?d then remove1 w (L ?d) else L d)" for d
    proof -
      have "wlist (ios s') (head (fds s' d)) (if d = ?d then remove1 w (L ?d) else L d)"
        unfolding q(6) by (rule iffD2 [OF wlist_cong del(6)]) (rule nx(1))
      moreover have st: "set (L d) = {v. active (ios s v) \<noteq> 0 \<and> io_fd (ios s v) = int d}" "distinct (L d)"
        using L(1) [of d] by (simp_all add: fd_list_def k)
      have "set (if d = ?d then remove1 w (L ?d) else L d) = {v. active (ios s' v) \<noteq> 0 \<and> io_fd (ios s' v) = int d}"
        unfolding nx using st pos False by (cases "d = ?d") (auto simp: k)
      ultimately show ?thesis using st(2) by (cases "d = ?d") (simp_all add: fd_list_def)
    qed
    have il: "interest (ios s') (L d) = interest (ios ?c) (L d)" for d
      by (rule interest_cong) (simp add: nx k)
    have "fevents (fds s' d) = interest (ios s') (if d = ?d then remove1 w (L ?d) else L d)"
      if "ischanged (fds s' d) = 0" for d
      using that L(2) [of d] il [of d] by (auto simp: q k split: if_splits)
    moreover have "0 \<le> io_fd (ios s' v)" if "active (ios s' v) \<noteq> 0" for v
      using that core by (auto simp: nx k core_ok_def lists_ok_def split: if_splits)
    ultimately have "lists_ok s' \<and> synced s'" using listsI [OF L'] by blast
    moreover have "changes_ok k s'"
    proof -
      have "changes_ok k ?c" using core by (simp add: core_ok_def)
      then have "changes_ok k s2"
        using changes_ok_cong [of s2 ?c] by (simp add: s2_def s1 e k)
      then show ?thesis by (simp add: s'_def fd_change_ok)
    qed
    moreover have "counted s'"
    proof -
      have A: "active_ios s' = active_ios ?c - {w}" by (auto simp: active_ios_def nx k)
      have w': "w \<in> active_ios ?c" using False by (simp add: active_ios_def)
      have c: "finite (active_ios ?c)" "activecnt s = int (card (active_ios ?c)) + int (hsize (timer_heap s))"
        using core by (simp_all add: counted_def core_ok_def k)
      have "activecnt s' = activecnt s - 1" "timer_heap s' = timer_heap s"
        by (simp_all add: s'_def s2_def s1)
      then show ?thesis
        using c w' card_Suc_Diff1 [OF c(1) w'] by (simp add: counted_def A)
    qed
    moreover have "heap_inv (timer_heap s') (tms s')"
      using core by (simp add: s'_def s2_def s1 core_ok_def k)
    moreover have sp: "same_pend ?c s'"
      by (rule same_pendI) (simp_all add: q f, simp_all add: s'_def s2_def s1)
    moreover have "pend_ok s'" using same_pend_ok [OF sp] invc by (simp add: loop_inv_def)
    moreover have "wstack s' = wstack s" "kern s' = kern s" "tms s' = tms ?c" "mn_time_now s' = mn_time_now s"
      by (simp_all add: s'_def s2_def s1)
    moreover have "head (fds s' fd) = head (fds s fd)" if "fd \<noteq> ?d" for fd
    proof -
      have "wlist f (head (fds s1 fd)) (L fd)" using del(6) [of fd] that by simp
      moreover have "wlist (ios ?c) (head (fds s fd)) (L fd)" using L(1) [of fd] by (simp add: fd_list_def k)
      ultimately show ?thesis by (cases "L fd") (simp_all add: q)
    qed
    ultimately show ?thesis
      using st inv pos by (auto simp: loop_inv_def core_ok_def nx q(2-6))
  qed
qed

section \<open>Timers\<close>

lemma timer_upd_lists [simp]:
  "lists_ok (s\<lparr>tms := ts, timer_heap := q, activecnt := n\<rparr>) = lists_ok s"
  "synced (s\<lparr>tms := ts, timer_heap := q, activecnt := n\<rparr>) = synced s"
  "changes_ok k (s\<lparr>tms := ts, timer_heap := q, activecnt := n\<rparr>) = changes_ok k s"
  "active_ios (s\<lparr>tms := ts, timer_heap := q, activecnt := n\<rparr>) = active_ios s"
  by (simp_all add: lists_ok_def synced_def changes_ok_def fd_list_def active_ios_def)

lemma same_but_activeD:
  "same_but_active ts ts' \<Longrightarrow> pending (ts' w) = pending (ts w) \<and> priority (ts' w) = priority (ts w) \<and>
     at_t (ts' w) = at_t (ts w) \<and> repeat (ts' w) = repeat (ts w) \<and> cb (ts' w) = cb (ts w)"
  unfolding same_but_active_def by (drule spec [of _ w], cases "ts w", cases "ts' w") simp

lemma active_0_upd: "active (x :: ev_timer) = 0 \<Longrightarrow> x\<lparr>at_t := a, active := 0\<rparr> = x\<lparr>at_t := a\<rparr>"
  by (cases x) simp

lemma timer_upd_inv:
  assumes "loop_inv k s" "heap_inv q ts" "int (hsize q) = int (hsize (timer_heap s)) + d"
    "\<And>w. pending (ts w) = pending (tms s w) \<and> priority (ts w) = priority (tms s w)"
  shows "loop_inv k (s\<lparr>tms := ts, timer_heap := q, activecnt := activecnt s + d\<rparr>)"
    "same_pend s (s\<lparr>tms := ts, timer_heap := q, activecnt := activecnt s + d\<rparr>)"
proof -
  show sp: "same_pend s (s\<lparr>tms := ts, timer_heap := q, activecnt := activecnt s + d\<rparr>)"
    by (rule same_pendI) (simp_all add: assms(4))
  then show "loop_inv k (s\<lparr>tms := ts, timer_heap := q, activecnt := activecnt s + d\<rparr>)"
    using assms(1-3) same_pend_ok [OF sp] by (simp add: loop_inv_def core_ok_def counted_def)
qed

lemma heap_cache_inv:
  assumes "heap_inv q ts" "wt slot = wt (heap q ! i)"
  shows "heap_inv (q\<lparr>heap := (heap q)[i := slot]\<rparr>) ts" "members (q\<lparr>heap := (heap q)[i := slot]\<rparr>) = members q"
proof -
  have w: "wt ((heap q)[i := slot] ! j) = wt (heap q ! j)" for j
    using assms(2) by (cases "j = i"; cases "i < length (heap q)") (simp_all add: list_update_beyond)
  then show m: "members (q\<lparr>heap := (heap q)[i := slot]\<rparr>) = members q"
    by (simp add: members_def watchers_def)
  show "heap_inv (q\<lparr>heap := (heap q)[i := slot]\<rparr>) ts"
    using assms(1) m by (simp add: heap_inv_def indexed_def w)
qed

lemma timer_watcher_start_inv:
  assumes inv: "loop_inv k s" and sz: "hsize (timer_heap s) < 2 ^ 20"
  shows "\<exists>s'. timer_watcher_start w s = Inr s' \<and> loop_inv k s' \<and> same_pend s s' \<and> active (tms s' w) \<noteq> 0 \<and>
    kern s' = kern s \<and>
    (active (tms s w) = 0 \<longrightarrow>
       hsize (timer_heap s') = hsize (timer_heap s) + 1 \<and> mn_time_now s' = mn_time_now s \<and>
       (\<forall>v. repeat (tms s' v) = repeat (tms s v)) \<and>
       (\<exists>i q ts. push w (timer_heap s) ((tms s)(w := (tms s w)\<lparr>at_t := at_t (tms s w) + mn_time_now s\<rparr>)) = Inr (q, ts) \<and>
          i < hsize q \<and> wt (heap q ! i) = Some w \<and> heap_inv q ts \<and>
          timer_heap s' = q\<lparr>heap := (heap q)[i := (heap q ! i)\<lparr>cache_at := at_t (tms s w) + mn_time_now s\<rparr>]\<rparr>))"
proof (cases "active (tms s w) = 0")
  case False
  then show ?thesis using inv by (simp add: timer_watcher_start_def)
next
  case True
  define ts where "ts = (tms s)(w := (tms s w)\<lparr>at_t := at_t (tms s w) + mn_time_now s\<rparr>)"
  have a1: "(tms s)(w := (tms s w)\<lparr>at_t := at_t (tms s w) + mn_time_now s, active := 0\<rparr>) = ts" using True by (simp add: ts_def active_0_upd)
  have h: "heap_inv (timer_heap s) (tms s)" using inv by (simp add: loop_inv_def core_ok_def)
  then have "heap_inv (timer_heap s) ts" using heap_inv_cong [of ts "tms s"] by (simp add: ts_def)
  moreover have "active (ts w) = 0" using True by (simp add: ts_def)
  ultimately obtain hp ts' where p:
    "push w (timer_heap s) ts = Inr (\<lparr>heap = upheap by_cache hp (hsize (timer_heap s)), hsize = hsize (timer_heap s) + 1\<rparr>, ts')"
    "heap_inv \<lparr>heap = upheap by_cache hp (hsize (timer_heap s)), hsize = hsize (timer_heap s) + 1\<rparr> ts'"
    "watchers (upheap by_cache hp (hsize (timer_heap s))) (hsize (timer_heap s) + 1) = insert w (members (timer_heap s))"
    "same_but_active ts ts'"
    using sz by (rule push_inv) blast
  define q where "q = \<lparr>heap = upheap by_cache hp (hsize (timer_heap s)), hsize = hsize (timer_heap s) + 1\<rparr>"
  have p1: "push w (timer_heap s) ts = Inr (q, ts')" unfolding q_def by (rule p(1))
  have "w \<in> members q" using p(3) by (simp add: q_def members_def)
  then obtain i where i: "active (ts' w) = int i + 1" "wt (heap q ! i) = Some w" "i < hsize q"
    using heap_inv_slot [of q ts' w] p(2) by (auto simp: q_def)
  define slot where "slot = (heap q ! i)\<lparr>cache_at := at_t (ts' w)\<rparr>"
  have c: "HEAP_CACHE_AT (get q i) ts' = Inr slot" by (simp add: HEAP_CACHE_AT_def get_def i slot_def)
  define q' where "q' = q\<lparr>heap := (heap q)[i := slot]\<rparr>"
  have hq: "heap_inv q' ts'"
    unfolding q'_def by (rule heap_cache_inv) (use p(2) in \<open>simp_all add: q_def slot_def\<close>)
  define s' where "s' = s\<lparr>tms := ts', timer_heap := q', activecnt := activecnt s + 1\<rparr>"
  have "timer_watcher_start w s = Inr s'"
    using True p1 c a1 i by (simp add: timer_watcher_start_def Let_def s'_def q'_def)
  moreover have "loop_inv k s' \<and> same_pend s s'"
  proof -
    have "int (hsize q') = int (hsize (timer_heap s)) + 1" by (simp add: q'_def q_def)
    moreover have "pending (ts' v) = pending (tms s v) \<and> priority (ts' v) = priority (tms s v)" for v
      using same_but_activeD [OF p(4), of v] by (simp add: ts_def)
    ultimately show ?thesis using timer_upd_inv [OF inv hq] by (simp add: s'_def)
  qed
  moreover have "active (tms s' w) \<noteq> 0" "kern s' = kern s" using i by (simp_all add: s'_def)
  moreover have "hsize (timer_heap s') = hsize (timer_heap s) + 1" "mn_time_now s' = mn_time_now s"
    by (simp_all add: s'_def q'_def q_def)
  moreover have "repeat (tms s' v) = repeat (tms s v)" for v
    using same_but_activeD [OF p(4), of v] by (simp add: s'_def ts_def)
  moreover have "timer_heap s' = q\<lparr>heap := (heap q)[i := (heap q ! i)\<lparr>cache_at := at_t (tms s w) + mn_time_now s\<rparr>]\<rparr>"
    using same_but_activeD [OF p(4), of w] by (simp add: s'_def q'_def slot_def ts_def)
  moreover have "heap_inv q ts'" unfolding q_def by (rule p(2))
  ultimately show ?thesis using p1 i(2,3) unfolding ts_def by blast
qed

text \<open>Stopping works unless the timer is in the last slot of the heap.\<close>

lemma timer_watcher_stop_inv:
  assumes inv: "loop_inv k s"
  shows "if active (tms s w) \<noteq> 0 \<and> active (tms s w) = int (hsize (timer_heap s))
    then timer_watcher_stop w s = Inl NullDeref
    else \<exists>s'. timer_watcher_stop w s = Inr s' \<and> loop_inv k s' \<and> same_pend (clear_pending (Tm w) s) s' \<and>
      active (tms s' w) = 0 \<and> kern s' = kern s \<and> mn_time_now s' = mn_time_now s \<and> wstack s' = wstack s \<and>
      (\<forall>v. repeat (tms s' v) = repeat (tms s v)) \<and>
      (active (tms s w) \<noteq> 0 \<longrightarrow> hsize (timer_heap s') = hsize (timer_heap s) - 1 \<and>
         heap (timer_heap s') = adjustheap by_cache (drop_slot (heap (timer_heap s)) (hsize (timer_heap s) - 1)
           (nat (active (tms s w) - 1))) (hsize (timer_heap s) - 1) (nat (active (tms s w) - 1)))"
proof -
  let ?c = "clear_pending (Tm w) s"
  note k = same_coreD [OF clear_pending_core [of s "Tm w"]]
  have invc: "loop_inv k ?c" by (rule clear_pending_inv [OF inv])
  then have h: "heap_inv (timer_heap s) (tms ?c)" by (simp add: loop_inv_def core_ok_def k)
  show ?thesis
  proof (cases "active (tms s w) = 0")
    case True
    then show ?thesis using invc by (simp add: timer_watcher_stop_def Let_def k)
  next
    case False
    then have "w \<in> members (timer_heap s)" using heap_inv_active [OF h, of w] by (simp add: k)
    then obtain i where i: "i < hsize (timer_heap s)" "active (tms s w) = int i + 1" "wt (heap (timer_heap s) ! i) = Some w"
      using heap_inv_slot [OF h] by (auto simp: k)
    show ?thesis
    proof (cases "hsize (timer_heap s) = i + 1")
      case True
      then have "remove i (timer_heap s) (tms ?c) = Inl NullDeref" by (rule remove_last_faults [OF h])
      then show ?thesis using True i by (simp add: timer_watcher_stop_def Let_def k)
    next
      case last: False
      then have "i + 1 < hsize (timer_heap s)" using i(1) by simp
      then obtain q' ts' where r: "remove i (timer_heap s) (tms ?c) = Inr (0, q', ts')"
        "hsize q' = hsize (timer_heap s) - 1" "heap_inv q' ts'" "active (ts' w) = 0" "same_but_active (tms ?c) ts'"
        "heap q' = adjustheap by_cache (drop_slot (heap (timer_heap s)) (hsize (timer_heap s) - 1) i) (hsize (timer_heap s) - 1) i"
        using remove_inv [OF h, of i] i(3) by (metis option.inject)
      define ts2 where "ts2 = ts'(w := (ts' w)\<lparr>at_t := at_t (ts' w) - mn_time_now s\<rparr>)"
      have t2: "ts'(w := (ts' w)\<lparr>at_t := at_t (ts' w) - mn_time_now s, active := 0\<rparr>) = ts2" using r(4) by (simp add: ts2_def active_0_upd)
      have h2: "heap_inv q' ts2" using r(3) heap_inv_cong [of ts2 ts'] by (simp add: ts2_def)
      define s' where "s' = ?c\<lparr>tms := ts2, timer_heap := q', activecnt := activecnt ?c + - 1\<rparr>"
      have "timer_watcher_stop w s = Inr s'"
        using False i r(1) t2
        by (simp add: timer_watcher_stop_def Let_def k s'_def)
      moreover have "loop_inv k s' \<and> same_pend ?c s'"
      proof -
        have "int (hsize q') = int (hsize (timer_heap ?c)) + - 1" using r(2) i(1) by (simp add: k of_nat_diff)
        moreover have "pending (ts2 v) = pending (tms ?c v) \<and> priority (ts2 v) = priority (tms ?c v)" for v
          using same_but_activeD [OF r(5), of v] by (auto simp: ts2_def)
        ultimately show ?thesis using timer_upd_inv [OF invc h2] by (simp add: s'_def)
      qed
      moreover have "active (tms s' w) = 0" "kern s' = kern s" "mn_time_now s' = mn_time_now s" "wstack s' = wstack s"
        using r(4) by (simp_all add: s'_def ts2_def k)
      moreover have "repeat (tms s' v) = repeat (tms s v)" for v
        using same_but_activeD [OF r(5), of v] k(14) [of v] by (auto simp: s'_def ts2_def)
      moreover have "hsize (timer_heap s') = hsize (timer_heap s) - 1" "heap (timer_heap s') = heap q'"
        using r(2) by (simp_all add: s'_def)
      ultimately show ?thesis using last i r(6) by simp
    qed
  qed
qed

lemma loop_inv_fresh:
  assumes "\<And>w. active (f w) = 0 \<and> pending (f w) = 0"
  shows "loop_inv 0 ((init_loop now opened)\<lparr>ios := f\<rparr>)"
proof -
  let ?s = "(init_loop now opened)\<lparr>ios := f\<rparr>"
  have p: "pending_of w ?s = 0" for w
    using assms by (cases w) (simp_all add: init_loop_def ev_timer_new_def)
  have l: "fd_list fd ?s xs \<longleftrightarrow> xs = []" for fd xs
    using assms by (cases xs) (auto simp: fd_list_def init_loop_def)
  have "pend_ok ?s" unfolding pend_ok_def p by (simp add: init_loop_def)
  moreover have "lists_ok ?s" using assms by (simp add: lists_ok_def l)
  moreover have "changes_ok 0 ?s" by (simp add: changes_ok_def init_loop_def)
  moreover have "synced ?s" unfolding synced_def l by (simp add: init_loop_def)
  moreover have "counted ?s"
    using assms by (simp add: counted_def active_ios_def init_loop_def quad_minheap_new_def)
  moreover have "heap_inv (timer_heap ?s) (tms ?s)"
    using heap_inv_new [of "tms ?s"] by (simp add: init_loop_def ev_timer_new_def)
  moreover have "wstack ?s = []" by (simp add: init_loop_def)
  ultimately show ?thesis by (simp add: loop_inv_def core_ok_def)
qed

lemma loop_inv_init: "loop_inv 0 (init_loop now opened)"
  using loop_inv_fresh [of "ios (init_loop now opened)"] by (simp add: init_loop_def ev_io_new_def)

lemma loop_inv_reset:
  assumes "loop_inv (fdchangescnt s) s"
  shows "loop_inv 0 (s\<lparr>fdchangescnt := 0\<rparr>)"
proof -
  let ?s = "s\<lparr>fdchangescnt := 0\<rparr>"
  have l: "fd_list d ?s = fd_list d s" for d by (intro ext) (simp add: fd_list_def)
  have "same_pend s ?s" by (rule same_pendI) simp_all
  then have "pend_ok ?s" using assms same_pend_ok by (auto simp: loop_inv_def)
  moreover have "lists_ok ?s \<and> synced ?s \<and> counted ?s"
    using assms by (simp add: loop_inv_def core_ok_def lists_ok_def synced_def counted_def active_ios_def l)
  moreover have "changes_ok 0 ?s" using assms by (simp add: loop_inv_def core_ok_def changes_ok_def)
  ultimately show ?thesis using assms by (simp add: loop_inv_def core_ok_def)
qed

end
