(* ===== verification/Ev_Epoll.thy ===== *)
theory Ev_Epoll
  imports Ev_Inv
begin

text \<open>
  The backend of the event loop: \<open>ev_epoll.cpp\<close>, with \<open>kill_fd\<close>, \<open>feed_fd_event\<close> and \<open>update_fd\<close> of
  \<open>ev_loop.h\<close>, which it calls or which call it. \<open>epoll_ctl\<close> and \<open>close\<close> act on the kernel's part of the
  state as their manual pages say; what \<open>epoll_wait\<close> returns is an argument.
\<close>

section \<open>The kernel\<close>

definition EPOLLIN :: uint32 where "EPOLLIN = 1"
definition EPOLLOUT :: uint32 where "EPOLLOUT = 4"
definition EPOLLERR :: uint32 where "EPOLLERR = 8"
definition EPOLLHUP :: uint32 where "EPOLLHUP = 16"

datatype ctl_op = EPOLL_CTL_ADD | EPOLL_CTL_MOD | EPOLL_CTL_DEL
datatype ep_errno = ENOENT | EEXIST | EBADF

definition epoll_ctl :: "ctl_op \<Rightarrow> nat \<Rightarrow> uint32 \<Rightarrow> ull \<Rightarrow> epoll \<Rightarrow> ep_errno option \<times> epoll" where
  "epoll_ctl op fd ev u k =
     (if \<not> open_fd k fd then (Some EBADF, k)
      else
        (case (op, ep_set k fd) of
           (EPOLL_CTL_ADD, None) \<Rightarrow> (None, k\<lparr>ep_set := (ep_set k)(fd \<mapsto> (ev, u))\<rparr>)
         | (EPOLL_CTL_ADD, Some _) \<Rightarrow> (Some EEXIST, k)
         | (EPOLL_CTL_MOD, Some _) \<Rightarrow> (None, k\<lparr>ep_set := (ep_set k)(fd \<mapsto> (ev, u))\<rparr>)
         | (EPOLL_CTL_DEL, Some _) \<Rightarrow> (None, k\<lparr>ep_set := (ep_set k)(fd := None)\<rparr>)
         | (_, None) \<Rightarrow> (Some ENOENT, k)))"

definition close_fd :: "nat \<Rightarrow> epoll \<Rightarrow> epoll" where
  "close_fd fd k = k\<lparr>open_fd := (open_fd k)(fd := False), ep_set := (ep_set k)(fd := None)\<rparr>"

section \<open>kill_fd and feed_fd_event\<close>

partial_function (option) kill_loop :: "nat \<Rightarrow> ev_loop \<Rightarrow> ev_loop res option" where
  "kill_loop fd s =
     (case head (fds s fd) of
        None \<Rightarrow> Some (Inr s)
      | Some w \<Rightarrow>
          (case io_watcher_stop w s of
             Inl e \<Rightarrow> Some (Inl e)
           | Inr s1 \<Rightarrow> kill_loop fd (feed_event (Io w) EV_ERROR s1)))"

definition kill_fd :: "nat \<Rightarrow> ev_loop \<Rightarrow> ev_loop res" where
  "kill_fd fd s =
     (case kill_loop fd s of
        None \<Rightarrow> Inl NoReturn
      | Some r \<Rightarrow> bind_res r (\<lambda>s. Inr (s\<lparr>kern := close_fd fd (kern s)\<rparr>)))"

fun feed_hits :: "nat list \<Rightarrow> uint32 \<Rightarrow> ev_loop \<Rightarrow> ev_loop" where
  "feed_hits [] ev s = s"
| "feed_hits (w # ws) ev s =
     (let evhit = events (ios s w) AND ev
      in feed_hits ws ev (if evhit \<noteq> 0 then feed_event (Io w) evhit s else s))"

definition feed_fd_event :: "nat \<Rightarrow> uint32 \<Rightarrow> ev_loop \<Rightarrow> ev_loop res" where
  "feed_fd_event fd ev s =
     (if ischanged (fds s fd) \<noteq> 0 then Inr s
      else bind_res (fd_watchers fd s) (\<lambda>ws. Inr (feed_hits ws ev s)))"

section \<open>backend_modify\<close>

definition ep_mask :: "uint32 \<Rightarrow> uint32" where
  "ep_mask ev =
     (if ev AND EV_READ \<noteq> 0 then EPOLLIN else 0) OR (if ev AND EV_WRITE \<noteq> 0 then EPOLLOUT else 0)"

definition udata :: "nat \<Rightarrow> uint32 \<Rightarrow> ull" where
  "udata fd tg = of_nat fd OR push_bit 32 (ucast tg)"

definition give_up :: "nat \<Rightarrow> ev_loop \<Rightarrow> ev_loop res" where
  "give_up fd s = bind_res (kill_fd fd s) (\<lambda>s. Inr (upd_fd fd (\<lambda>e. e\<lparr>tag := tag e - 1\<rparr>) s))"

definition backend_modify :: "nat \<Rightarrow> byte \<Rightarrow> byte \<Rightarrow> ev_loop \<Rightarrow> ev_loop res" where
  "backend_modify fd oldev newev s =
     (if newev = 0 then Inr s
      else
        let old_previous_evs = previous_evs (fds s fd);
            s = upd_fd fd (\<lambda>e. e\<lparr>previous_evs := newev, tag := tag e + 1\<rparr>) s;
            u = udata fd (tag (fds s fd));
            ev = ep_mask (ucast newev)
        in (case epoll_ctl (if oldev \<noteq> 0 \<and> newev \<noteq> oldev then EPOLL_CTL_MOD else EPOLL_CTL_ADD) fd ev u (kern s) of
              (None, k) \<Rightarrow> Inr (s\<lparr>kern := k\<rparr>)
            | (Some ENOENT, k) \<Rightarrow>
                (case epoll_ctl EPOLL_CTL_ADD fd ev u k of
                   (None, k) \<Rightarrow> Inr (s\<lparr>kern := k\<rparr>)
                 | (Some _, k) \<Rightarrow> give_up fd (s\<lparr>kern := k\<rparr>))
            | (Some EEXIST, k) \<Rightarrow>
                if old_previous_evs = newev then Inr (upd_fd fd (\<lambda>e. e\<lparr>tag := tag e - 1\<rparr>) s)
                else
                  (case epoll_ctl EPOLL_CTL_MOD fd ev u k of
                     (None, k) \<Rightarrow> Inr (s\<lparr>kern := k\<rparr>)
                   | (Some _, k) \<Rightarrow> give_up fd (s\<lparr>kern := k\<rparr>))
            | (Some EBADF, k) \<Rightarrow> give_up fd (s\<lparr>kern := k\<rparr>)))"

section \<open>update_fd\<close>

text \<open>The inner loop ors the watchers' events into \<open>evfd.events\<close>: that is \<open>interest\<close>.\<close>

definition refresh :: "nat \<Rightarrow> ev_loop \<Rightarrow> ev_loop res" where
  "refresh fd s =
     (let changed = ischanged (fds s fd);
          o_event = fevents (fds s fd);
          s = upd_fd fd (\<lambda>e. e\<lparr>ischanged := 0, fevents := 0\<rparr>) s
      in bind_res (fd_watchers fd s) (\<lambda>ws.
         let s = upd_fd fd (\<lambda>e. e\<lparr>fevents := interest (ios s) ws\<rparr>) s;
             changed = (if o_event \<noteq> fevents (fds s fd) then EV_IS_CHANGED else changed)
         in if changed AND EV_IS_CHANGED \<noteq> 0 then backend_modify fd o_event (fevents (fds s fd)) s
            else Inr s))"

partial_function (option) update_loop :: "nat \<Rightarrow> ev_loop \<Rightarrow> ev_loop res option" where
  "update_loop i s =
     (if i < fdchangescnt s
      then (case refresh (fdchanges s i) s of
              Inl e \<Rightarrow> Some (Inl e)
            | Inr s1 \<Rightarrow> update_loop (i + 1) s1)
      else Some (Inr s))"

definition update_fd :: "ev_loop \<Rightarrow> ev_loop res" where
  "update_fd s =
     (case update_loop 0 s of
        None \<Rightarrow> Inl NoReturn
      | Some r \<Rightarrow> bind_res r (\<lambda>s. Inr (s\<lparr>fdchangescnt := 0\<rparr>)))"

section \<open>backend_poll\<close>

text \<open>One event returned by \<open>epoll_wait\<close>: its mask and its user data. The masks for the events that
  were not wanted are built from \<open>want\<close> with \<open>EPOLLIN\<close> and \<open>EPOLLOUT\<close> in each other's place, as in the
  code.\<close>

definition rearm_mask :: "uint32 \<Rightarrow> uint32" where
  "rearm_mask want =
     (if want AND EV_WRITE \<noteq> 0 then EPOLLIN else 0) OR (if want AND EV_READ \<noteq> 0 then EPOLLOUT else 0)"

definition got_events :: "uint32 \<Rightarrow> uint32" where
  "got_events ev =
     (if ev AND (EPOLLOUT OR EPOLLERR OR EPOLLHUP) \<noteq> 0 then EV_WRITE else 0) OR
     (if ev AND (EPOLLIN OR EPOLLERR OR EPOLLHUP) \<noteq> 0 then EV_READ else 0)"

definition poll_event :: "uint32 \<times> ull \<Rightarrow> ev_loop \<Rightarrow> ev_loop res" where
  "poll_event e s =
     (let fd = unat (ucast (snd e) :: uint32);
          want = ucast (fevents (fds s fd)) :: uint32;
          got = got_events (fst e)
      in if tag (fds s fd) \<noteq> ucast (drop_bit 32 (snd e)) then Inr s
         else if got AND NOT want \<noteq> 0
         then (let s = upd_fd fd (\<lambda>f. f\<lparr>previous_evs := ucast want\<rparr>) s;
                   (r, k) = epoll_ctl (if want \<noteq> 0 then EPOLL_CTL_MOD else EPOLL_CTL_DEL) fd (rearm_mask want)
                              (snd e) (kern s);
                   s = s\<lparr>kern := k\<rparr>
               in if r \<noteq> None then Inr s else feed_fd_event fd got s)
         else feed_fd_event fd got s)"

fun poll_events :: "(uint32 \<times> ull) list \<Rightarrow> ev_loop \<Rightarrow> ev_loop res" where
  "poll_events [] s = Inr s"
| "poll_events (e # es) s = bind_res (poll_event e s) (poll_events es)"

text \<open>\<open>backend_poll\<close> waits for a number of milliseconds; what \<open>epoll_wait\<close> answers for it is an
  argument, and a failure is \<open>None\<close>.\<close>

definition EPOLL_MAX_TIMEOUT_MS :: ev_tstamp where "EPOLL_MAX_TIMEOUT_MS = 35 * 60 * 1000"

definition poll_ms :: "ev_tstamp \<Rightarrow> int" where
  "poll_ms timeout =
     (let timeout = (if timeout > EPOLL_MAX_TIMEOUT_MS then EPOLL_MAX_TIMEOUT_MS else timeout)
      in if timeout * 1000 \<ge> 0 then \<lfloor>timeout * 1000\<rfloor> else \<lceil>timeout * 1000\<rceil>)"

definition backend_poll :: "ev_tstamp \<Rightarrow> (int \<Rightarrow> (uint32 \<times> ull) list option) \<Rightarrow> ev_loop \<Rightarrow> ev_loop res" where
  "backend_poll timeout epoll_wait s =
     (case epoll_wait (poll_ms timeout) of None \<Rightarrow> Inr s | Some es \<Rightarrow> poll_events es s)"

section \<open>kill_fd\<close>

text \<open>What \<open>kill_fd\<close> leaves alone.\<close>

definition killed :: "nat \<Rightarrow> ev_loop \<Rightarrow> ev_loop \<Rightarrow> bool" where
  "killed fd s s' \<longleftrightarrow>
     (\<forall>d. fevents (fds s' d) = fevents (fds s d) \<and> tag (fds s' d) = tag (fds s d) \<and>
        previous_evs (fds s' d) = previous_evs (fds s d)) \<and>
     (\<forall>d. d \<noteq> fd \<longrightarrow> head (fds s' d) = head (fds s d) \<and> ischanged (fds s' d) = ischanged (fds s d)) \<and>
     (\<forall>v. io_fd (ios s' v) = io_fd (ios s v) \<and> events (ios s' v) = events (ios s v)) \<and>
     (\<forall>v. io_fd (ios s v) \<noteq> int fd \<longrightarrow> active (ios s' v) = active (ios s v)) \<and>
     mn_time_now s' = mn_time_now s"

lemma killed_refl [simp]: "killed fd s s" by (simp add: killed_def)

lemma killed_trans: "killed fd s s1 \<Longrightarrow> killed fd s1 s2 \<Longrightarrow> killed fd s s2"
  by (simp add: killed_def)

lemma killed_feed: "killed fd s (feed_event w ev s)"
  by (simp add: killed_def same_coreD [OF feed_event_core])

lemma stop_killed:
  assumes "loop_inv k s" "fd_list fd s (w # ws)"
  shows "\<exists>s1 ys. io_watcher_stop w s = Inr s1 \<and> loop_inv k s1 \<and> killed fd s s1 \<and> fd_list fd s1 ys \<and>
    set ys = set ws \<and> kern s1 = kern s \<and> same_pend (clear_pending (Io w) s) s1"
proof -
  obtain s1 where s1: "io_watcher_stop w s = Inr s1" "loop_inv k s1" "kern s1 = kern s" "active (ios s1 w) = 0"
    "same_pend (clear_pending (Io w) s) s1"
    "\<forall>v. v \<noteq> w \<longrightarrow> active (ios s1 v) = active (ios s v)"
    "\<forall>v. io_fd (ios s1 v) = io_fd (ios s v) \<and> events (ios s1 v) = events (ios s v)"
    "\<forall>d. fevents (fds s1 d) = fevents (fds s d) \<and> tag (fds s1 d) = tag (fds s d) \<and> previous_evs (fds s1 d) = previous_evs (fds s d)"
    "\<forall>d. int d \<noteq> io_fd (ios s w) \<longrightarrow> head (fds s1 d) = head (fds s d) \<and> ischanged (fds s1 d) = ischanged (fds s d)"
    "mn_time_now s1 = mn_time_now s"
    using io_watcher_stop_inv [OF assms(1), of w] by blast
  have w: "io_fd (ios s w) = int fd" "distinct (w # ws)"
    "set (w # ws) = {v. active (ios s v) \<noteq> 0 \<and> io_fd (ios s v) = int fd}"
    using assms(2) by (auto simp: fd_list_def)
  have kl: "killed fd s s1" using s1 w(1) by (auto simp: killed_def)
  obtain ys where ys: "fd_list fd s1 ys"
    using s1(2) by (auto simp: loop_inv_def core_ok_def lists_ok_def)
  then have "set ys = set (w # ws) - {w}"
    unfolding w(3) using s1(4,6,7) by (auto simp: fd_list_def)
  then show ?thesis using s1(1-3,5) kl ys w(2) by auto
qed

text \<open>Each watcher of the descriptor is stopped; the event it is fed is \<open>EV_ERROR\<close> cut to 16 bits.\<close>

lemma kill_loop_ok:
  assumes "loop_inv k s" "fd_list fd s ws"
  shows "\<exists>s'. kill_loop fd s = Some (Inr s') \<and> loop_inv k s' \<and> killed fd s s' \<and> fd_list fd s' [] \<and> kern s' = kern s \<and>
    queued s' = (\<lambda>v. if v \<in> Io ` set ws then Some 0 else queued s v)"
  using assms
proof (induction "length ws" arbitrary: s ws)
  case 0
  then show ?case by (auto simp: kill_loop.simps [of fd s] fd_list_def fun_eq_iff)
next
  case (Suc n)
  then obtain w vs where ws: "ws = w # vs" by (cases ws) auto
  then obtain s1 ys where s1: "io_watcher_stop w s = Inr s1" "loop_inv k s1" "killed fd s s1" "fd_list fd s1 ys"
    "set ys = set vs" "kern s1 = kern s" "same_pend (clear_pending (Io w) s) s1"
    using stop_killed [OF Suc.prems(1), of fd w vs] Suc.prems(2) by blast
  let ?s = "feed_event (Io w) EV_ERROR s1"
  have l: "fd_list fd ?s ys" using s1(4) same_core_list [OF feed_event_core] by blast
  have "length ys = length vs"
    using s1(4,5) Suc.prems(2) ws by (metis distinct.simps(2) distinct_card fd_list_def)
  then have "n = length ys" using Suc.hyps(2) ws by simp
  moreover have "loop_inv k ?s" using s1(2) by (simp add: feed_event_inv)
  ultimately obtain s' where s': "kill_loop fd ?s = Some (Inr s')" "loop_inv k s'" "killed fd ?s s'"
    "fd_list fd s' []" "kern s' = kern ?s" "queued s' = (\<lambda>v. if v \<in> Io ` set ys then Some 0 else queued ?s v)"
    using Suc.hyps(1) l by blast
  have "pend_ok s" "pend_ok s1" using Suc.prems(1) s1(2) by (simp_all add: loop_inv_def)
  then have "queued ?s = (queued s)(Io w \<mapsto> ucast EV_ERROR)"
    using queued_feed [of s1 "Io w"] queued_same [OF s1(7)] queued_clear [of s "Io w"] by simp
  then have q: "queued s' = (\<lambda>v. if v \<in> Io ` set ws then Some 0 else queued s v)"
    unfolding s'(6) s1(5) ws by (auto simp: fun_eq_iff EV_ERROR_def)
  have "head (fds s fd) = Some w" using Suc.prems(2) ws by (simp add: fd_list_def)
  then have "kill_loop fd s = Some (Inr s')" using s1(1) s'(1) by (simp add: kill_loop.simps [of fd s])
  moreover have "killed fd s s'" using killed_trans [OF killed_trans [OF s1(3) killed_feed] s'(3)] .
  moreover have "kern s' = kern s" using s'(5) s1(6) same_coreD(6) [OF feed_event_core] by metis
  ultimately show ?case using s'(2,4) q by blast
qed

lemma upd_kern_inv [simp]: "loop_inv k (s\<lparr>kern := q\<rparr>) = loop_inv k s"
proof -
  have "same_pend s (s\<lparr>kern := q\<rparr>)" "same_pend (s\<lparr>kern := q\<rparr>) s" by (rule same_pendI; simp)+
  then have "pend_ok (s\<lparr>kern := q\<rparr>) = pend_ok s" using same_pend_ok by blast
  then show ?thesis
    by (simp add: loop_inv_def core_ok_def lists_ok_def changes_ok_def synced_def fd_list_def counted_def active_ios_def)
qed

lemma kill_fd_ok:
  assumes "loop_inv k s"
  shows "\<exists>s'. kill_fd fd s = Inr s' \<and> loop_inv k s' \<and> killed fd s s' \<and> fd_list fd s' [] \<and>
    kern s' = close_fd fd (kern s) \<and>
    queued s' = (\<lambda>v. if \<exists>w. v = Io w \<and> active (ios s w) \<noteq> 0 \<and> io_fd (ios s w) = int fd then Some 0 else queued s v)"
proof -
  obtain ws where ws: "fd_list fd s ws" using assms by (auto simp: loop_inv_def core_ok_def lists_ok_def)
  then obtain s' where s': "kill_loop fd s = Some (Inr s')" "loop_inv k s'" "killed fd s s'" "fd_list fd s' []"
    "kern s' = kern s" "queued s' = (\<lambda>v. if v \<in> Io ` set ws then Some 0 else queued s v)"
    using kill_loop_ok [OF assms] by blast
  let ?s = "s'\<lparr>kern := close_fd fd (kern s)\<rparr>"
  have "same_pend s' ?s" by (rule same_pendI) simp_all
  then have "queued ?s = queued s'" by (rule queued_same)
  moreover have "v \<in> Io ` set ws \<longleftrightarrow> (\<exists>w. v = Io w \<and> active (ios s w) \<noteq> 0 \<and> io_fd (ios s w) = int fd)" for v
    using ws by (auto simp: fd_list_def)
  moreover have "kill_fd fd s = Inr ?s" using s'(1,5) by (simp add: kill_fd_def)
  moreover have "killed fd s ?s" "fd_list fd ?s []" using s'(3,4) by (simp_all add: killed_def fd_list_def)
  ultimately show ?thesis using s'(2,6) by (intro exI [of _ ?s]) simp
qed

section \<open>The registration agrees with the watchers\<close>

text \<open>What the kernel holds for a descriptor is what was asked for last, under the current tag.\<close>

definition kern_ok :: "ev_loop \<Rightarrow> bool" where
  "kern_ok s \<longleftrightarrow> (\<forall>fd m u. ep_set (kern s) fd = Some (m, u) \<longrightarrow>
     open_fd (kern s) fd \<and> m = ep_mask (ucast (previous_evs (fds s fd))) \<and> u = udata fd (tag (fds s fd)))"

definition agree_at :: "nat \<Rightarrow> ev_loop \<Rightarrow> bool" where
  "agree_at fd s \<longleftrightarrow> (ischanged (fds s fd) = 0 \<longrightarrow> fevents (fds s fd) \<noteq> 0 \<longrightarrow>
     ep_set (kern s) fd = Some (ep_mask (ucast (fevents (fds s fd))), udata fd (tag (fds s fd))))"

text \<open>What a step of \<open>update_fd\<close> may do besides: stop the watchers of closed descriptors.\<close>

definition progress :: "ev_loop \<Rightarrow> ev_loop \<Rightarrow> bool" where
  "progress s s' \<longleftrightarrow> open_fd (kern s') = open_fd (kern s) \<and>
     (\<forall>v. io_fd (ios s' v) = io_fd (ios s v) \<and> events (ios s' v) = events (ios s v)) \<and>
     (\<forall>v fd. io_fd (ios s v) = int fd \<longrightarrow> open_fd (kern s) fd \<longrightarrow> active (ios s' v) = active (ios s v)) \<and>
     (active_ios s' = active_ios s \<and> fdchangescnt s' = fdchangescnt s \<or> card (active_ios s') < card (active_ios s)) \<and>
     mn_time_now s' = mn_time_now s"

lemma progress_refl [simp]: "progress s s" by (simp add: progress_def)

lemma progress_trans:
  assumes "progress s s1" "progress s1 s2"
  shows "progress s s2"
proof -
  have "card (active_ios s1) \<le> card (active_ios s)" "card (active_ios s2) \<le> card (active_ios s1)"
    using assms by (auto simp: progress_def)
  then show ?thesis using assms unfolding progress_def by (metis le_neq_implies_less less_le_trans le_less_trans)
qed

lemma upd_fd_simps [simp]:
  "ios (upd_fd fd f s) = ios s" "tms (upd_fd fd f s) = tms s" "kern (upd_fd fd f s) = kern s"
  "fdchanges (upd_fd fd f s) = fdchanges s" "fdchangescnt (upd_fd fd f s) = fdchangescnt s"
  "timer_heap (upd_fd fd f s) = timer_heap s" "activecnt (upd_fd fd f s) = activecnt s"
  "fds (upd_fd fd f s) d = (if d = fd then f (fds s fd) else fds s d)" "mn_time_now (upd_fd fd f s) = mn_time_now s"
  "wstack (upd_fd fd f s) = wstack s" "active_ios (upd_fd fd f s) = active_ios s"
  by (simp_all add: upd_fd_def active_ios_def)

lemma upd_fd_pend: "pend_ok (upd_fd fd f s) = pend_ok s"
proof -
  have "same_pend s (upd_fd fd f s)" "same_pend (upd_fd fd f s) s"
    by (rule same_pendI; simp add: upd_fd_def)+
  then show ?thesis using same_pend_ok by blast
qed

lemma upd_fd_list: "head (f (fds s fd)) = head (fds s fd) \<Longrightarrow> fd_list d (upd_fd fd f s) xs = fd_list d s xs"
  by (simp add: fd_list_def)

lemma upd_fd_inv:
  assumes "\<And>e. head (f e) = head e \<and> ischanged (f e) = ischanged e \<and> fevents (f e) = fevents e"
  shows "loop_inv k (upd_fd fd f s) = loop_inv k s"
proof -
  have l: "fd_list d (upd_fd fd f s) = fd_list d s" for d using assms by (intro ext upd_fd_list) simp
  have c: "ischanged (fds (upd_fd fd f s) d) = ischanged (fds s d)"
    "fevents (fds (upd_fd fd f s) d) = fevents (fds s d)" for d
    using assms by simp_all
  show ?thesis
    by (simp del: upd_fd_simps(8)
        add: loop_inv_def core_ok_def lists_ok_def changes_ok_def synced_def counted_def upd_fd_pend l c)
qed

text \<open>The kernel and the watchers are in step, or will be once \<open>fd\<close> is done.\<close>

definition sync_ok :: "ev_loop \<Rightarrow> bool" where
  "sync_ok s \<longleftrightarrow> kern_ok s \<and> (\<forall>d. agree_at d s)"

definition sync_but :: "nat \<Rightarrow> ev_loop \<Rightarrow> bool" where
  "sync_but fd s \<longleftrightarrow> kern_ok s \<and> (\<forall>d. d \<noteq> fd \<longrightarrow> agree_at d s)"

text \<open>The state when \<open>backend_modify\<close> calls the kernel, and after the kernel has agreed.\<close>

definition asked :: "nat \<Rightarrow> byte \<Rightarrow> ev_loop \<Rightarrow> ev_loop" where
  "asked fd newev s = upd_fd fd (\<lambda>e. e\<lparr>previous_evs := newev, tag := tag e + 1\<rparr>) s"

definition registered :: "nat \<Rightarrow> byte \<Rightarrow> ev_loop \<Rightarrow> ev_loop" where
  "registered fd newev s = (asked fd newev s)\<lparr>kern := (kern s)\<lparr>ep_set := (ep_set (kern s))(fd \<mapsto>
     (ep_mask (ucast newev), udata fd (tag (fds (asked fd newev s) fd))))\<rparr>\<rparr>"

lemma backend_modify_cases:
  assumes "newev \<noteq> 0"
  shows "backend_modify fd oldev newev s =
    (if \<not> open_fd (kern s) fd then give_up fd (asked fd newev s)
     else if ep_set (kern s) fd \<noteq> None \<and> (oldev = 0 \<or> newev = oldev) \<and> previous_evs (fds s fd) = newev
     then Inr (upd_fd fd (\<lambda>e. e\<lparr>tag := tag e - 1\<rparr>) (asked fd newev s))
     else Inr (registered fd newev s))"
  using assms
  by (cases "ep_set (kern s) fd")
    (auto simp: backend_modify_def Let_def epoll_ctl_def asked_def registered_def upd_fd_def)

lemma asked_inv: "loop_inv k s \<Longrightarrow> loop_inv k (asked fd newev s)"
  by (simp add: asked_def upd_fd_inv)

lemma registered_ok:
  assumes "loop_inv k s" "open_fd (kern s) fd" "newev = fevents (fds s fd)"
  shows "loop_inv k (registered fd newev s)" "progress s (registered fd newev s)"
    "sync_but fd s \<Longrightarrow> sync_ok (registered fd newev s)"
proof -
  show "loop_inv k (registered fd newev s)" using asked_inv [OF assms(1)] by (simp add: registered_def)
  show "progress s (registered fd newev s)"
    by (simp add: progress_def registered_def asked_def active_ios_def)
  assume sy: "sync_but fd s"
  then have "agree_at d (registered fd newev s)" for d
    using assms(3) by (cases "d = fd") (auto simp: sync_but_def agree_at_def registered_def asked_def)
  moreover have "kern_ok (registered fd newev s)"
    using sy assms(2) by (auto simp: sync_but_def kern_ok_def registered_def asked_def)
  ultimately show "sync_ok (registered fd newev s)" by (simp add: sync_ok_def)
qed

lemma restored_ok:
  assumes "loop_inv k s" "newev = fevents (fds s fd)" "ep_set (kern s) fd \<noteq> None" "previous_evs (fds s fd) = newev"
    and s': "s' = upd_fd fd (\<lambda>e. e\<lparr>tag := tag e - 1\<rparr>) (asked fd newev s)"
  shows "loop_inv k s'" "progress s s'" "sync_but fd s \<Longrightarrow> sync_ok s'"
proof -
  have f: "fds s' d = fds s d" "kern s' = kern s" for d using assms(4) by (simp_all add: s' asked_def)
  show "loop_inv k s'" using asked_inv [OF assms(1)] by (simp add: s' upd_fd_inv)
  show "progress s s'" by (simp add: progress_def s' asked_def active_ios_def)
  assume sy: "sync_but fd s"
  obtain m u where e: "ep_set (kern s) fd = Some (m, u)" using assms(3) by auto
  then have "m = ep_mask (ucast newev)" "u = udata fd (tag (fds s fd))"
    using sy assms(4) by (auto simp: sync_but_def kern_ok_def)
  then have "agree_at d s'" for d
    using sy e assms(2) by (cases "d = fd") (auto simp: sync_but_def agree_at_def f)
  then show "sync_ok s'" using sy by (simp add: sync_ok_def sync_but_def kern_ok_def f)
qed

lemma refused_active:
  assumes "killed fd s s'" "fd_list fd s' []" "fd_list fd s ws" "ws \<noteq> []" "finite (active_ios s)"
  shows "card (active_ios s') < card (active_ios s)"
proof (rule psubset_card_mono [OF assms(5)])
  have off: "active (ios s' v) = 0" if "io_fd (ios s v) = int fd" for v
    using assms(1,2) that by (auto simp: fd_list_def killed_def)
  obtain w where w: "w \<in> set ws" using assms(4) by (cases ws) auto
  have "active_ios s' \<subseteq> active_ios s"
  proof
    fix v assume "v \<in> active_ios s'"
    then show "v \<in> active_ios s" using assms(1) off by (cases "io_fd (ios s v) = int fd") (auto simp: active_ios_def killed_def)
  qed
  moreover have "w \<in> active_ios s" "w \<notin> active_ios s'"
    using w assms(3) off by (auto simp: fd_list_def active_ios_def)
  ultimately show "active_ios s' \<subset> active_ios s" by blast
qed

lemma refused_ok:
  assumes inv: "loop_inv k s" and new: "newev = fevents (fds s fd)" "ischanged (fds s fd) = 0" "newev \<noteq> 0"
    and closed: "\<not> open_fd (kern s) fd"
  shows "\<exists>s'. give_up fd (asked fd newev s) = Inr s' \<and> loop_inv k s' \<and> progress s s' \<and>
    (sync_but fd s \<longrightarrow> sync_ok s')"
proof -
  let ?a = "asked fd newev s"
  obtain s2 where s2: "kill_fd fd ?a = Inr s2" "loop_inv k s2" "killed fd ?a s2" "fd_list fd s2 []"
    "kern s2 = close_fd fd (kern ?a)"
    using kill_fd_ok [OF asked_inv [OF inv]] by blast
  let ?s = "upd_fd fd (\<lambda>e. e\<lparr>tag := tag e - 1\<rparr>) s2"
  have "lists_ok s" "synced s" "finite (active_ios s)"
    using inv by (simp_all add: loop_inv_def core_ok_def counted_def)
  then obtain ws where ws: "fd_list fd s ws" "ws \<noteq> []"
    using new unfolding lists_ok_def synced_def by force
  have al: "fd_list fd ?a ws" using ws(1) upd_fd_list [of "\<lambda>e. e\<lparr>previous_evs := newev, tag := tag e + 1\<rparr>" s fd fd ws]
    by (simp add: asked_def)
  have "card (active_ios s2) < card (active_ios s)"
    using refused_active [OF s2(3,4) al ws(2)] \<open>finite (active_ios s)\<close> by (simp add: asked_def)
  moreover have "open_fd (kern s2) = open_fd (kern s)" using s2(5) closed by (simp add: close_fd_def asked_def fun_upd_idem)
  moreover have "active (ios s2 v) = active (ios s v)" if "io_fd (ios s v) = int d" "open_fd (kern s) d" for v d
    using that closed s2(3) by (cases "d = fd") (auto simp: killed_def asked_def)
  ultimately have pr: "progress s ?s" using s2(3) by (simp add: progress_def killed_def asked_def)
  have sy: "sync_ok ?s" if sb: "sync_but fd s"
  proof -
    have none: "ep_set (kern s) fd = None"
      using sb closed by (cases "ep_set (kern s) fd") (auto simp: sync_but_def kern_ok_def)
    then have kk: "kern s2 = kern s" using s2(5) closed by (simp add: close_fd_def asked_def fun_upd_idem)
    have "synced s2" using s2(2) by (simp add: loop_inv_def core_ok_def)
    then have "ischanged (fds s2 fd) = 0 \<longrightarrow> fevents (fds s2 fd) = interest (ios s2) []"
      using s2(4) unfolding synced_def by blast
    then have "agree_at d ?s" for d
      using sb s2(3) by (cases "d = fd") (auto simp: sync_but_def agree_at_def kk killed_def asked_def)
    moreover have "kern_ok ?s"
      using sb none s2(3) by (auto simp: sync_but_def kern_ok_def kk killed_def asked_def)
    ultimately show ?thesis by (simp add: sync_ok_def)
  qed
  have "loop_inv k ?s" using s2(2) by (simp add: upd_fd_inv)
  moreover have "give_up fd ?a = Inr ?s" using s2(1) by (simp add: give_up_def)
  ultimately show ?thesis using pr sy by blast
qed

lemma backend_modify_ok:
  assumes inv: "loop_inv k s" and new: "newev = fevents (fds s fd)" "ischanged (fds s fd) = 0"
  shows "\<exists>s'. backend_modify fd oldev newev s = Inr s' \<and> loop_inv k s' \<and> progress s s' \<and>
    (sync_but fd s \<longrightarrow> sync_ok s')"
proof (cases "newev = 0")
  case True
  then have "sync_but fd s \<longrightarrow> sync_ok s"
    using new by (auto simp: sync_but_def sync_ok_def agree_at_def)
  then show ?thesis using True inv by (simp add: backend_modify_def)
next
  case False
  show ?thesis
    using backend_modify_cases [OF False, of fd oldev s] refused_ok [OF inv new False]
      registered_ok [OF inv _ new(1)] restored_ok [OF inv new(1) _ _ refl]
    by (auto split: if_splits)
qed

lemma refresh_ok:
  assumes inv: "loop_inv i s" and i: "i < fdchangescnt s"
  shows "\<exists>s'. refresh (fdchanges s i) s = Inr s' \<and> loop_inv (i + 1) s' \<and> progress s s' \<and>
    (sync_ok s \<longrightarrow> sync_ok s')"
proof -
  let ?fd = "fdchanges s i"
  obtain ws where ws: "fd_list ?fd s ws" using inv by (auto simp: loop_inv_def core_ok_def lists_ok_def)
  define s2 where "s2 = upd_fd ?fd (\<lambda>e. e\<lparr>ischanged := 0, fevents := interest (ios s) ws\<rparr>) s"
  have up: "[i..<fdchangescnt s] = i # [i + 1..<fdchangescnt s]" using i by (simp add: upt_conv_Cons)
  have ch: "changes_ok i s" using inv by (simp add: loop_inv_def core_ok_def)
  have rest: "?fd \<notin> fdchanges s ` {i + 1..<fdchangescnt s}" "distinct (map (fdchanges s) [i + 1..<fdchangescnt s])"
    using ch unfolding changes_ok_def up by auto
  have "insert i {i + 1..<fdchangescnt s} = {i..<fdchangescnt s}" using i by auto
  then have ins: "fdchanges s ` {i..<fdchangescnt s} = insert ?fd (fdchanges s ` {i + 1..<fdchangescnt s})"
    by (metis image_insert)
  have "ischanged (fds s ?fd) = EV_IS_CHANGED" using ch i by (auto simp: changes_ok_def)
  then have "refresh ?fd s = backend_modify ?fd (fevents (fds s ?fd)) (interest (ios s) ws) s2"
    using fd_watchers_list [of ?fd "upd_fd ?fd (\<lambda>e. e\<lparr>ischanged := 0, fevents := 0\<rparr>) s" ws] ws
    by (simp add: refresh_def Let_def upd_fd_list s2_def) (simp add: upd_fd_def EV_IS_CHANGED_def)
  moreover have "loop_inv (i + 1) s2"
  proof -
    have l: "fd_list d s2 = fd_list d s" for d unfolding s2_def by (intro ext upd_fd_list) simp
    have "changes_ok (i + 1) s2"
      using ch rest i ins by (auto simp: changes_ok_def s2_def)
    moreover have "synced s2"
      using inv fd_list_unique [OF ws] unfolding synced_def l
      by (auto simp: s2_def loop_inv_def core_ok_def synced_def)
    moreover have "lists_ok s2" using inv by (simp add: lists_ok_def l) (simp add: s2_def loop_inv_def core_ok_def lists_ok_def)
    ultimately show ?thesis
      using inv upd_fd_pend by (simp add: loop_inv_def core_ok_def) (simp add: s2_def counted_def upd_fd_pend)
  qed
  moreover have "sync_ok s \<longrightarrow> sync_but ?fd s2"
  proof -
    have "agree_at d s2 = agree_at d s" if "d \<noteq> ?fd" for d using that by (simp add: agree_at_def s2_def)
    moreover have "previous_evs (fds s2 d) = previous_evs (fds s d)" "tag (fds s2 d) = tag (fds s d)" "kern s2 = kern s" for d
      by (simp_all add: s2_def)
    then have "kern_ok s2 = kern_ok s" by (simp add: kern_ok_def)
    ultimately show ?thesis by (simp add: sync_ok_def sync_but_def)
  qed
  moreover have "interest (ios s) ws = fevents (fds s2 ?fd)" "ischanged (fds s2 ?fd) = 0" by (simp_all add: s2_def)
  ultimately obtain s' where s': "refresh ?fd s = Inr s'" "loop_inv (i + 1) s'" "progress s2 s'" "sync_ok s \<longrightarrow> sync_ok s'"
    using backend_modify_ok [of "i + 1" s2 "interest (ios s) ws" ?fd] by fastforce
  moreover have "progress s s2" by (simp add: progress_def s2_def)
  ultimately show ?thesis using progress_trans by blast
qed

lemma update_loop_ok:
  assumes "loop_inv i s"
  shows "\<exists>s'. update_loop i s = Some (Inr s') \<and> loop_inv (fdchangescnt s') s' \<and> progress s s' \<and>
    (sync_ok s \<longrightarrow> sync_ok s')"
  using assms
proof (induction "(card (active_ios s), fdchangescnt s - i)" arbitrary: i s
    rule: wf_induct_rule [OF wf_lex_prod [OF wf_less_than wf_less_than]])
  case 1
  note IH = "1.hyps" and prems = "1.prems"
  show ?case
  proof (cases "i < fdchangescnt s")
    case False
    moreover have "i \<le> fdchangescnt s" using prems by (simp add: loop_inv_def core_ok_def changes_ok_def)
    ultimately have "i = fdchangescnt s" by simp
    then show ?thesis using prems by (simp add: update_loop.simps)
  next
    case True
    obtain s1 where s1: "refresh (fdchanges s i) s = Inr s1" "loop_inv (i + 1) s1" "progress s s1"
      "sync_ok s \<longrightarrow> sync_ok s1"
      using refresh_ok [OF prems True] by blast
    have "((card (active_ios s1), fdchangescnt s1 - (i + 1)), (card (active_ios s), fdchangescnt s - i)) \<in> less_than <*lex*> less_than"
      using s1(3) True by (auto simp: progress_def)
    then obtain s' where "update_loop (i + 1) s1 = Some (Inr s')" "loop_inv (fdchangescnt s') s'"
      "progress s1 s'" "sync_ok s1 \<longrightarrow> sync_ok s'"
      using IH [OF _ s1(2)] by blast
    moreover have "update_loop i s = update_loop (i + 1) s1"
      using True s1(1) by (simp add: update_loop.simps [of i s])
    ultimately show ?thesis using progress_trans [OF s1(3)] s1(4) by metis
  qed
qed

section \<open>Delivery\<close>

lemma bit_udata:
  assumes "fd < 2 ^ 31"
  shows "bit (udata fd tg) i \<longleftrightarrow> (if i < 32 then bit fd i else bit tg (i - 32))"
proof -
  have "\<not> bit fd i" if "32 \<le> i"
  proof -
    have "(2 :: nat) ^ 31 \<le> 2 ^ i" using that by (intro power_increasing) simp_all
    then have "fd < 2 ^ i" using assms by linarith
    then show ?thesis by (simp add: bit_iff_odd)
  qed
  then show ?thesis
    by (auto simp: udata_def bit_or_iff bit_push_bit_iff bit_ucast_iff bit_of_nat_iff not_less dest: bit_imp_le_length)
qed

lemma udata_parts:
  assumes "fd < 2 ^ 31"
  shows "unat (ucast (udata fd tg) :: uint32) = fd" "ucast (drop_bit 32 (udata fd tg)) = tg"
proof -
  have "ucast (udata fd tg) = (of_nat fd :: uint32)"
    by (rule bit_word_eqI) (simp add: bit_ucast_iff bit_udata [OF assms] bit_of_nat_iff)
  then show "unat (ucast (udata fd tg) :: uint32) = fd"
    using assms by (simp add: unat_of_nat take_bit_nat_eq_self)
  show "ucast (drop_bit 32 (udata fd tg)) = tg"
    by (rule bit_word_eqI) (simp add: bit_ucast_iff bit_drop_bit_eq bit_udata [OF assms])
qed

lemma feed_event_fields [simp]:
  "events (ios (feed_event w ev s) v) = events (ios s v)" "kern (feed_event w ev s) = kern s"
  "fds (feed_event w ev s) = fds s" "active (ios (feed_event w ev s) v) = active (ios s v)"
  "io_fd (ios (feed_event w ev s) v) = io_fd (ios s v)"
  by (simp_all add: same_coreD [OF feed_event_core])

definition feed_map :: "(wref \<Rightarrow> short option) \<Rightarrow> wref \<Rightarrow> uint32 \<Rightarrow> wref \<Rightarrow> short option" where
  "feed_map q w ev = q(w \<mapsto> (case q w of None \<Rightarrow> ucast ev | Some e \<Rightarrow> e OR ucast ev))"

lemma feed_hits_queued:
  assumes "pend_ok s" "distinct ws"
  shows "pend_ok (feed_hits ws ev s) \<and> same_core s (feed_hits ws ev s) \<and>
    queued (feed_hits ws ev s) = (\<lambda>w. case w of
      Io v \<Rightarrow> if v \<in> set ws \<and> events (ios s v) AND ev \<noteq> 0
        then feed_map (queued s) (Io v) (events (ios s v) AND ev) (Io v) else queued s (Io v)
    | _ \<Rightarrow> queued s w)"
  using assms
proof (induction ws arbitrary: s)
  case Nil
  then show ?case by (auto split: wref.split)
next
  case (Cons x ws)
  let ?e = "events (ios s x) AND ev"
  let ?s = "if ?e \<noteq> 0 then feed_event (Io x) ?e s else s"
  have c: "same_core s ?s" by simp
  have p: "pend_ok ?s" using Cons.prems(1) by (simp add: feed_event_ok)
  have q: "queued ?s = (if ?e \<noteq> 0 then feed_map (queued s) (Io x) ?e else queued s)"
    using queued_feed [OF Cons.prems(1), of "Io x" ?e] by (simp add: feed_map_def)
  have ih: "pend_ok (feed_hits ws ev ?s)" "same_core ?s (feed_hits ws ev ?s)"
    "queued (feed_hits ws ev ?s) = (\<lambda>w. case w of
      Io v \<Rightarrow> if v \<in> set ws \<and> events (ios ?s v) AND ev \<noteq> 0
        then feed_map (queued ?s) (Io v) (events (ios ?s v) AND ev) (Io v) else queued ?s (Io v)
    | _ \<Rightarrow> queued ?s w)"
    using Cons.IH [OF p] Cons.prems(2) by auto
  have f: "feed_hits (x # ws) ev s = feed_hits ws ev ?s" by (simp add: Let_def)
  have x: "x \<notin> set ws" using Cons.prems(2) by simp
  show ?case
    unfolding f
  proof (intro conjI)
    show "same_core s (feed_hits ws ev ?s)" using same_core_trans [OF c ih(2)] .
    show "queued (feed_hits ws ev ?s) = (\<lambda>w. case w of
      Io v \<Rightarrow> if v \<in> set (x # ws) \<and> events (ios s v) AND ev \<noteq> 0
        then feed_map (queued s) (Io v) (events (ios s v) AND ev) (Io v) else queued s (Io v)
    | _ \<Rightarrow> queued s w)"
      unfolding ih(3) q using x same_coreD(11) [OF c]
      by (auto simp: fun_eq_iff feed_map_def split: wref.split)
  qed (rule ih(1))
qed

lemma feed_fd_event_ok:
  assumes "loop_inv k s" "ischanged (fds s fd) = 0"
  shows "\<exists>s'. feed_fd_event fd ev s = Inr s' \<and> loop_inv k s' \<and> same_core s s' \<and>
    queued s' = (\<lambda>w. case w of
      Io v \<Rightarrow> if active (ios s v) \<noteq> 0 \<and> io_fd (ios s v) = int fd \<and> events (ios s v) AND ev \<noteq> 0
        then feed_map (queued s) (Io v) (events (ios s v) AND ev) (Io v) else queued s (Io v)
    | _ \<Rightarrow> queued s w)"
proof -
  obtain ws where ws: "fd_list fd s ws" using assms(1) by (auto simp: loop_inv_def core_ok_def lists_ok_def)
  have w: "distinct ws" "\<And>v. v \<in> set ws \<longleftrightarrow> active (ios s v) \<noteq> 0 \<and> io_fd (ios s v) = int fd"
    using ws by (auto simp: fd_list_def)
  have p: "pend_ok s" using assms(1) by (simp add: loop_inv_def)
  let ?s = "feed_hits ws ev s"
  note h = feed_hits_queued [OF p w(1), of ev]
  have "wstack (feed_hits ws ev s) = wstack s" for s by (induction ws ev s rule: feed_hits.induct) (simp_all add: Let_def)
  then have "loop_inv k ?s" using assms(1) h same_core_ok [of s ?s k] by (simp add: loop_inv_def)
  moreover have "feed_fd_event fd ev s = Inr ?s"
    using assms(2) fd_watchers_list [OF ws] by (simp add: feed_fd_event_def)
  ultimately show ?thesis using h by (simp add: w(2) fun_eq_iff split: wref.split)
qed

section \<open>Properties\<close>

lemma update_fd_ok:
  assumes "loop_inv 0 s"
  shows "\<exists>s'. update_fd s = Inr s' \<and> loop_inv 0 s' \<and> (sync_ok s \<longrightarrow> sync_ok s') \<and>
    (\<forall>d. ischanged (fds s' d) = 0) \<and> fdchangescnt s' = 0 \<and>
    open_fd (kern s') = open_fd (kern s) \<and> mn_time_now s' = mn_time_now s \<and>
    (\<forall>v. io_fd (ios s' v) = io_fd (ios s v) \<and> events (ios s' v) = events (ios s v)) \<and>
    (\<forall>v fd. io_fd (ios s v) = int fd \<longrightarrow> open_fd (kern s) fd \<longrightarrow> active (ios s' v) = active (ios s v))"
proof -
  obtain s1 where s1: "update_loop 0 s = Some (Inr s1)" "loop_inv (fdchangescnt s1) s1" "progress s s1"
    "sync_ok s \<longrightarrow> sync_ok s1"
    using update_loop_ok [OF assms] by blast
  let ?s = "s1\<lparr>fdchangescnt := 0\<rparr>"
  have z: "ischanged (fds s1 d) = 0" for d using s1(2) by (simp add: loop_inv_def core_ok_def changes_ok_def)
  have "loop_inv 0 ?s" using s1(2) by (rule loop_inv_reset)
  moreover have "sync_ok ?s = sync_ok s1" by (simp add: sync_ok_def kern_ok_def agree_at_def)
  moreover have "update_fd s = Inr ?s" using s1(1) by (simp add: update_fd_def)
  moreover have "open_fd (kern ?s) = open_fd (kern s)" "mn_time_now ?s = mn_time_now s"
    "\<forall>v. io_fd (ios ?s v) = io_fd (ios s v) \<and> events (ios ?s v) = events (ios s v)"
    "\<forall>v fd. io_fd (ios s v) = int fd \<longrightarrow> open_fd (kern s) fd \<longrightarrow> active (ios ?s v) = active (ios s v)"
    using s1(3) by (simp_all add: progress_def)
  moreover have "\<forall>d. ischanged (fds ?s d) = 0" "fdchangescnt ?s = 0" using z by simp_all
  ultimately show ?thesis using s1(4) by blast
qed


text \<open>A watcher for reading on descriptor 7, just started.\<close>

definition one_reader :: ev_loop where
  "one_reader =
     (let s = (init_loop 0 (\<lambda>fd. fd = 7))\<lparr>ios := (\<lambda>_. ev_io_new)(1 := ev_io_new\<lparr>io_fd := 7, events := EV_READ, priority := 2\<rparr>)\<rparr>
      in fd_change 7 EV_IS_CHANGED (watcher_list_add 7 1
        (s\<lparr>ios := (ios s)(1 := (ios s 1)\<lparr>active := 1\<rparr>), activecnt := activecnt s + 1\<rparr>)))"

lemma one_reader_ok:
  "loop_inv 0 one_reader" "sync_ok one_reader" "fd_list 7 one_reader [1]"
  "open_fd (kern one_reader) 7" "io_fd (ios one_reader 1) = 7" "events (ios one_reader 1) = EV_READ"
  "active (ios one_reader 1) \<noteq> 0"
proof -
  let ?s = "(init_loop 0 (\<lambda>fd. fd = 7))\<lparr>ios := (\<lambda>_. ev_io_new)(1 := ev_io_new\<lparr>io_fd := 7, events := EV_READ, priority := 2\<rparr>)\<rparr>"
  have i: "loop_inv 0 ?s" by (rule loop_inv_fresh) (simp add: ev_io_new_def)
  have st: "io_watcher_start 1 ?s = Inr one_reader"
    by (simp add: io_watcher_start_def one_reader_def Let_def init_loop_def ev_io_new_def)
  then show inv: "loop_inv 0 one_reader"
    using io_watcher_start_inv [OF i, of 1] by (auto simp: init_loop_def ev_io_new_def)
  show a: "active (ios one_reader 1) \<noteq> 0" "io_fd (ios one_reader 1) = 7" "events (ios one_reader 1) = EV_READ"
    "open_fd (kern one_reader) 7"
    by (simp_all add: one_reader_def Let_def watcher_list_add_def init_loop_def upd_fd_def)
  have k: "ep_set (kern one_reader) fd = None" for fd
    by (simp add: one_reader_def Let_def watcher_list_add_def init_loop_def upd_fd_def)
  moreover have "fevents (fds one_reader d) = 0" for d
    by (simp add: one_reader_def Let_def watcher_list_add_def init_loop_def upd_fd_def fd_change_def)
  ultimately show "sync_ok one_reader" by (simp add: sync_ok_def kern_ok_def agree_at_def)
  show "fd_list 7 one_reader [1]"
    by (auto simp: fd_list_def one_reader_def Let_def watcher_list_add_def init_loop_def upd_fd_def ev_io_new_def)
qed


text \<open>The same loop once it has registered the descriptor.\<close>

lemma reading_loop:
  "\<exists>s. loop_inv 0 s \<and> ischanged (fds s 7) = 0 \<and> fevents (fds s 7) = ucast EV_READ \<and> open_fd (kern s) 7 \<and>
     ep_set (kern s) 7 = Some (EPOLLIN, udata 7 (tag (fds s 7))) \<and>
     active (ios s 1) \<noteq> 0 \<and> io_fd (ios s 1) = 7 \<and> events (ios s 1) = EV_READ"
proof -
  obtain s where s: "loop_inv 0 s" "sync_ok s" "\<forall>d. ischanged (fds s d) = 0"
    "open_fd (kern s) = open_fd (kern one_reader)"
    "\<forall>v. io_fd (ios s v) = io_fd (ios one_reader v) \<and> events (ios s v) = events (ios one_reader v)"
    "\<forall>v fd. io_fd (ios one_reader v) = int fd \<longrightarrow> open_fd (kern one_reader) fd \<longrightarrow>
       active (ios s v) = active (ios one_reader v)"
    using update_fd_ok [OF one_reader_ok(1)] one_reader_ok(2) by blast
  have a: "active (ios s v) = active (ios one_reader v)" if "io_fd (ios one_reader v) = 7" for v
    using s(6) that one_reader_ok(4) by (metis of_nat_numeral)
  have "lists_ok s" "synced s" using s(1) by (simp_all add: loop_inv_def core_ok_def)
  then obtain xs where xs: "fd_list 7 s xs" "fevents (fds s 7) = interest (ios s) xs"
    using s(3) unfolding lists_ok_def synced_def by blast
  have "set xs = {1}" "distinct xs"
    using xs(1) one_reader_ok(3) s(5) a by (auto simp: fd_list_def)
  then have "xs = [1]" by (cases xs; cases "tl xs") auto
  then have f: "fevents (fds s 7) = ucast EV_READ" using xs(2) s(5) one_reader_ok(6) by simp
  then have "ep_set (kern s) 7 = Some (EPOLLIN, udata 7 (tag (fds s 7)))"
    using s(2,3) by (auto simp: sync_ok_def agree_at_def EV_READ_def EV_WRITE_def ep_mask_def dest: spec [of _ 7])
  then show ?thesis using s f a [of 1] one_reader_ok(4-7) by (intro exI [of _ s]) simp
qed

text \<open>C22. An event that the watchers wait for reaches exactly them: each active watcher of the descriptor
  with a matching interest becomes pending with the matching bits, nothing else changes; an event with
  an outdated tag, from an earlier use of the descriptor's number, changes nothing.\<close>

theorem epoll_event_delivery:
  assumes "loop_inv k s" "ischanged (fds s fd) = 0" "fd < 2 ^ 31"
    "got_events m AND NOT (ucast (fevents (fds s fd))) = 0"
  shows "if tg \<noteq> tag (fds s fd) then poll_event (m, udata fd tg) s = Inr s
    else \<exists>s'. poll_event (m, udata fd tg) s = Inr s' \<and> loop_inv k s' \<and> same_core s s' \<and>
      (\<forall>v. queued s' (Io v) =
        (if active (ios s v) \<noteq> 0 \<and> io_fd (ios s v) = int fd \<and> events (ios s v) AND got_events m \<noteq> 0
         then feed_map (queued s) (Io v) (events (ios s v) AND got_events m) (Io v) else queued s (Io v)))"
proof (cases "tg = tag (fds s fd)")
  case True
  then have "poll_event (m, udata fd tg) s = feed_fd_event fd (got_events m) s"
    using assms(4) by (simp add: poll_event_def udata_parts [OF assms(3)] Let_def)
  then show ?thesis
    using feed_fd_event_ok [OF assms(1,2), of "got_events m"] True by auto
next
  case False
  then show ?thesis by (simp add: poll_event_def udata_parts [OF assms(3)] Let_def)
qed

theorem epoll_event_delivery_witness:
  "\<exists>s s'. poll_event (EPOLLIN, udata 7 (tag (fds s 7))) s = Inr s' \<and> queued s' (Io 1) \<noteq> None"
proof -
  obtain s where s: "loop_inv 0 s" "ischanged (fds s 7) = 0" "fevents (fds s 7) = ucast EV_READ"
    "active (ios s 1) \<noteq> 0" "io_fd (ios s 1) = 7" "events (ios s 1) = EV_READ"
    using reading_loop by blast
  have g: "got_events EPOLLIN = EV_READ"
    by (simp add: got_events_def EPOLLIN_def EPOLLOUT_def EPOLLERR_def EPOLLHUP_def EV_READ_def)
  then obtain s' where "poll_event (EPOLLIN, udata 7 (tag (fds s 7))) s = Inr s'"
    "queued s' (Io 1) = feed_map (queued s) (Io 1) EV_READ (Io 1)"
    using epoll_event_delivery [OF s(1,2), of EPOLLIN "tag (fds s 7)"] s(3-6) by (auto simp: EV_READ_def)
  then show ?thesis by (auto simp: feed_map_def)
qed

text \<open>A hang-up or an error on a descriptor that is only read from counts as an unwanted write event;
  the registration is then rebuilt with the masks swapped, so the kernel waits for \<open>EPOLLOUT\<close> from then
  on while the watcher waits for input; starting the watcher again does not repair it.\<close>

theorem hangup_disarms_reading:
  assumes "loop_inv k s" "ischanged (fds s fd) = 0" "fd < 2 ^ 31" "fevents (fds s fd) = ucast EV_READ"
    "open_fd (kern s) fd" "ep_set (kern s) fd = Some (EPOLLIN, udata fd (tag (fds s fd)))"
    "m AND (EPOLLOUT OR EPOLLERR OR EPOLLHUP) \<noteq> 0"
  shows "\<exists>s'. poll_event (m, udata fd (tag (fds s fd))) s = Inr s' \<and> fevents (fds s' fd) = ucast EV_READ \<and>
    ep_set (kern s') fd = Some (EPOLLOUT, udata fd (tag (fds s fd))) \<and>
    (\<forall>oldev \<in> {0, ucast EV_READ}. \<exists>s2. backend_modify fd oldev (ucast EV_READ) s' = Inr s2 \<and>
       ep_set (kern s2) fd = Some (EPOLLOUT, udata fd (tag (fds s fd))))"
proof -
  let ?u = "udata fd (tag (fds s fd))"
  have w: "ucast (fevents (fds s fd)) = EV_READ" by (simp add: assms(4) EV_READ_def)
  have g: "got_events m AND NOT EV_READ = EV_WRITE"
    using assms(7) by (simp add: got_events_def EV_READ_def EV_WRITE_def)
  define s1 where "s1 = (upd_fd fd (\<lambda>f. f\<lparr>previous_evs := 1\<rparr>) s)\<lparr>kern := (kern s)\<lparr>ep_set := (ep_set (kern s))(fd \<mapsto> (EPOLLOUT, ?u))\<rparr>\<rparr>"
  have "poll_event (m, ?u) s = feed_fd_event fd (got_events m) s1"
    using assms(5,6) g
    by (simp add: poll_event_def udata_parts [OF assms(3)] Let_def w epoll_ctl_def s1_def rearm_mask_def)
      (simp add: EV_READ_def EV_WRITE_def)
  moreover have "loop_inv k s1" using assms(1) by (simp add: s1_def upd_fd_inv)
  moreover have "ischanged (fds s1 fd) = 0" using assms(2) by (simp add: s1_def)
  ultimately obtain s' where s': "poll_event (m, ?u) s = Inr s'" "same_core s1 s'"
    using feed_fd_event_ok [of k s1 fd "got_events m"] by auto
  note c = same_coreD [OF s'(2)]
  have k: "ep_set (kern s') fd = Some (EPOLLOUT, ?u)" "open_fd (kern s') fd" "fevents (fds s' fd) = ucast EV_READ"
    "previous_evs (fds s' fd) = 1"
    using assms(4,5) by (simp_all add: c s1_def)
  have "\<exists>s2. backend_modify fd oldev (ucast EV_READ) s' = Inr s2 \<and> ep_set (kern s2) fd = Some (EPOLLOUT, ?u)"
    if "oldev \<in> {0, ucast EV_READ}" for oldev
    using that k by (auto simp: backend_modify_def Let_def epoll_ctl_def EV_READ_def)
  then show ?thesis using s'(1) k by blast
qed

theorem hangup_disarms_reading_witness:
  "\<exists>s s'. ep_set (kern s) 7 = Some (EPOLLIN, udata 7 (tag (fds s 7))) \<and>
     poll_event (EPOLLHUP, udata 7 (tag (fds s 7))) s = Inr s' \<and>
     ep_set (kern s') 7 = Some (EPOLLOUT, udata 7 (tag (fds s 7)))"
proof -
  obtain s where "loop_inv 0 s" "ischanged (fds s 7) = 0" "fevents (fds s 7) = ucast EV_READ"
    "open_fd (kern s) 7" "ep_set (kern s) 7 = Some (EPOLLIN, udata 7 (tag (fds s 7)))"
    using reading_loop by blast
  moreover have "EPOLLHUP AND (EPOLLOUT OR EPOLLERR OR EPOLLHUP) \<noteq> 0"
    by (simp add: EPOLLOUT_def EPOLLERR_def EPOLLHUP_def)
  ultimately show ?thesis using hangup_disarms_reading [of 0 s 7 EPOLLHUP] by auto
qed

text \<open>When the kernel refuses a descriptor, all its watchers are stopped and made pending, but the
  error bit does not fit the 16 bits of a pending event: they are called with an empty event mask.\<close>

theorem kill_fd_reports_nothing:
  assumes "loop_inv k s"
  shows "\<exists>s'. kill_fd fd s = Inr s' \<and> loop_inv k s' \<and> fd_list fd s' [] \<and> \<not> open_fd (kern s') fd \<and>
    (\<forall>w. active (ios s w) \<noteq> 0 \<and> io_fd (ios s w) = int fd \<longrightarrow> active (ios s' w) = 0 \<and> queued s' (Io w) = Some 0)"
proof -
  obtain s' where s': "kill_fd fd s = Inr s'" "loop_inv k s'" "killed fd s s'" "fd_list fd s' []"
    "kern s' = close_fd fd (kern s)"
    "queued s' = (\<lambda>v. if \<exists>w. v = Io w \<and> active (ios s w) \<noteq> 0 \<and> io_fd (ios s w) = int fd then Some 0 else queued s v)"
    using kill_fd_ok [OF assms, of fd] by blast
  have "active (ios s' w) = 0" if "io_fd (ios s w) = int fd" for w
    using s'(3,4) that by (auto simp: fd_list_def killed_def)
  then show ?thesis using s' by (auto simp: close_fd_def)
qed

theorem kill_fd_reports_nothing_witness:
  "\<exists>s s'. active (ios s 1) \<noteq> 0 \<and> kill_fd 7 s = Inr s' \<and> queued s' (Io 1) = Some 0"
proof -
  obtain s where s: "loop_inv 0 s" "active (ios s 1) \<noteq> 0" "io_fd (ios s 1) = 7" using reading_loop by blast
  then show ?thesis using kill_fd_reports_nothing [of 0 s 7] by auto
qed

end
