(* ===== verification/Ev_Run.thy ===== *)
theory Ev_Run
  imports Ev_Epoll
begin

text \<open>
  Running the event loop: the calls a callback may make, \<open>invoke_pendings\<close>, \<open>timer_notify\<close> and
  \<open>dispatch\<close>. The application's callbacks are a parameter: given the callback's identity, the watcher,
  the event mask and the present state, they return the calls they make on the loop and their own new
  state. What the clock and \<open>epoll_wait\<close> return in each round is an argument too.
\<close>

section \<open>Calls on the loop\<close>

datatype ev_op =
    IoInit nat int uint32 nat nat int | IoStart nat | IoStop nat
  | TmInit nat ev_tstamp ev_tstamp nat nat | TmStart nat | TmStop nat | LoopBreak | CloseFd nat

primrec do_op :: "ev_op \<Rightarrow> ev_loop \<Rightarrow> ev_loop res" where
  "do_op (IoInit w fd ev cbk dat pri) s = io_watcher_init w fd ev cbk dat pri s"
| "do_op (IoStart w) s = io_watcher_start w s"
| "do_op (IoStop w) s = io_watcher_stop w s"
| "do_op (TmInit w after rep cbk dat) s = Inr (timer_watcher_init w after rep cbk dat s)"
| "do_op (TmStart w) s = timer_watcher_start w s"
| "do_op (TmStop w) s = timer_watcher_stop w s"
| "do_op LoopBreak s = Inr (s\<lparr>loop_done := True\<rparr>)"
| "do_op (CloseFd fd) s = Inr (s\<lparr>kern := close_fd fd (kern s)\<rparr>)"

fun do_ops :: "ev_op list \<Rightarrow> ev_loop \<Rightarrow> ev_loop res" where
  "do_ops [] s = Inr s"
| "do_ops (x # xs) s = bind_res (do_op x s) (do_ops xs)"

text \<open>No call adds a pending event.\<close>

lemma pendingcnt_clear [simp]: "pendingcnt (clear_pending w s) = pendingcnt s"
  by (simp add: clear_pending_def Let_def)

lemma pendingcnt_list [simp]:
  "pendingcnt (upd_fd fd f s) = pendingcnt s" "pendingcnt (watcher_list_add fd w s) = pendingcnt s"
  by (simp_all add: upd_fd_def watcher_list_add_def Let_def)

lemma pendingcnt_del: "watcher_list_del fd w s = Inr s' \<Longrightarrow> pendingcnt s' = pendingcnt s"
  by (auto simp: watcher_list_del_def split: option.splits if_splits)

lemma do_op_cnt: "do_op x s = Inr s' \<Longrightarrow> pendingcnt s' = pendingcnt s"
  by (cases x)
    (auto simp: io_watcher_init_def io_watcher_start_def io_watcher_stop_def timer_watcher_init_def
      timer_watcher_start_def timer_watcher_stop_def Let_def bind_res_Inr_conv dest!: pendingcnt_del split: if_splits)

lemma do_ops_cnt: "do_ops xs s = Inr s' \<Longrightarrow> pendingcnt s' = pendingcnt s"
  by (induction xs s rule: do_ops.induct) (auto simp: bind_res_Inr_conv dest!: do_op_cnt)

section \<open>invoke_pendings\<close>

type_synonym 'u callbacks = "nat \<Rightarrow> wref \<Rightarrow> short \<Rightarrow> 'u \<times> ev_loop \<Rightarrow> 'u \<times> ev_op list"

primrec cb_of :: "wref \<Rightarrow> ev_loop \<Rightarrow> nat option" where
  "cb_of (Io i) s = cb (ios s i)"
| "cb_of (Tm i) s = cb (tms s i)"
| "cb_of Dummy s = cb (dummy_watcher s)"

definition call_cb :: "'u callbacks \<Rightarrow> wref \<Rightarrow> short \<Rightarrow> 'u \<times> ev_loop \<Rightarrow> ('u \<times> ev_loop) res" where
  "call_cb cbs w ev us =
     (if w = Dummy then Inr us
      else
        (case cb_of w (snd us) of
           None \<Rightarrow> Inl NullDeref
         | Some c \<Rightarrow>
             (case cbs c w ev us of (u, calls) \<Rightarrow> bind_res (do_ops calls (snd us)) (\<lambda>s. Inr (u, s)))))"

lemma call_cb_cnt: "call_cb cbs w ev us = Inr us' \<Longrightarrow> pendingcnt (snd us') = pendingcnt (snd us)"
  by (auto simp: call_cb_def bind_res_Inr_conv dest!: do_ops_cnt split: if_splits option.splits prod.splits)

text \<open>Take the last pending event of a priority and call its watcher.\<close>

definition pop_pending :: "nat \<Rightarrow> ev_loop \<Rightarrow> wref option \<times> short \<times> ev_loop" where
  "pop_pending pri s =
     (let n = pendingcnt s pri - 1;
          s = s\<lparr>pendingcnt := (pendingcnt s)(pri := n)\<rparr>;
          p = pendings s pri n
      in (pw p, pevents p, (case pw p of None \<Rightarrow> s | Some w \<Rightarrow> set_pending w 0 s)))"

function invoke_pri :: "'u callbacks \<Rightarrow> nat \<Rightarrow> 'u \<times> ev_loop \<Rightarrow> ('u \<times> ev_loop) res" where
  "invoke_pri cbs pri us =
     (if pendingcnt (snd us) pri = 0 then Inr us
      else
        (case pop_pending pri (snd us) of
           (None, _, _) \<Rightarrow> Inl NullDeref
         | (Some w, ev, s) \<Rightarrow>
             (case call_cb cbs w ev (fst us, s) of
                Inl e \<Rightarrow> Inl e
              | Inr us' \<Rightarrow> invoke_pri cbs pri us')))"
  by pat_completeness auto

termination
  by (relation "measure (\<lambda>(cbs, pri, us). pendingcnt (snd us) pri)")
    (auto simp: pop_pending_def Let_def dest!: call_cb_cnt split: option.splits)

declare invoke_pri.simps [simp del]

fun invoke_from :: "'u callbacks \<Rightarrow> nat list \<Rightarrow> 'u \<times> ev_loop \<Rightarrow> ('u \<times> ev_loop) res" where
  "invoke_from cbs [] us = Inr us"
| "invoke_from cbs (pri # pris) us = bind_res (invoke_pri cbs pri us) (invoke_from cbs pris)"

definition invoke_pendings :: "'u callbacks \<Rightarrow> 'u \<times> ev_loop \<Rightarrow> ('u \<times> ev_loop) res" where
  "invoke_pendings cbs us = invoke_from cbs [0..<NUMPRI] us"

section \<open>timer_notify\<close>

definition expired :: "ev_loop \<Rightarrow> bool" where
  "expired s \<longleftrightarrow> \<not> isempty (timer_heap s) \<and> cache_at (heap_top (timer_heap s)) < mn_time_now s"

text \<open>One round of the loop: the timer at the root is rescheduled or stopped.\<close>

definition notify_top :: "ev_loop \<Rightarrow> ev_loop res" where
  "notify_top s =
     (case wt (heap_top (timer_heap s)) of
        None \<Rightarrow> Inl NullDeref
      | Some w \<Rightarrow>
          bind_res
            (if repeat (tms s w) \<noteq> 0
             then
               let due = at_t (tms s w) + repeat (tms s w);
                   due = (if due < mn_time_now s then mn_time_now s else due);
                   s = s\<lparr>tms := (tms s)(w := (tms s w)\<lparr>at_t := due\<rparr>)\<rparr>
               in bind_res (HEAP_CACHE_AT (heap_top (timer_heap s)) (tms s)) (\<lambda>slot.
                  let q = timer_heap s; h = (heap q)[0 := slot]
                  in bind_res (shift_down h (hsize q) (tms s) 0) (\<lambda>(h, ts).
                     Inr (s\<lparr>tms := ts, timer_heap := q\<lparr>heap := h\<rparr>\<rparr>)))
             else timer_watcher_stop w s)
            (\<lambda>s. Inr (invert_feed (Tm w) s)))"

partial_function (option) notify_loop :: "ev_loop \<Rightarrow> ev_loop res option" where
  "notify_loop s =
     (if expired s
      then (case notify_top s of Inl e \<Rightarrow> Some (Inl e) | Inr s1 \<Rightarrow> notify_loop s1)
      else Some (Inr s))"

definition timer_notify :: "ev_loop \<Rightarrow> ev_loop res" where
  "timer_notify s =
     (if expired s
      then (case notify_loop s of
              None \<Rightarrow> Inl NoReturn
            | Some r \<Rightarrow> bind_res r (\<lambda>s. Inr (invert_feed_done EV_TIMER s)))
      else Inr s)"

section \<open>dispatch\<close>

definition MAXTIME_BLOCK :: ev_tstamp where "MAXTIME_BLOCK = 60"
definition EVRUN_ONCE :: uint32 where "EVRUN_ONCE = 1"
definition EVRUN_NOWAIT :: uint32 where "EVRUN_NOWAIT = 2"

definition poll_timeout :: "uint32 \<Rightarrow> ev_loop \<Rightarrow> ev_tstamp" where
  "poll_timeout flag s =
     (if \<not> (activecnt s = 0 \<or> flag AND EVRUN_NOWAIT \<noteq> 0)
      then
        let timeout = MAXTIME_BLOCK;
            timeout = (if \<not> isempty (timer_heap s)
                       then (let min_time = cache_at (heap_top (timer_heap s)) - mn_time_now s
                             in if timeout > min_time then min_time else timeout)
                       else timeout)
        in if timeout < timeout_blocktime s then timeout_blocktime s else timeout
      else 0)"

text \<open>A round: the clock before waiting, what \<open>epoll_wait\<close> returns for a timeout, and the clock after it.\<close>

type_synonym loop_round = "ev_tstamp \<times> (int \<Rightarrow> (uint32 \<times> ull) list option) \<times> ev_tstamp"

definition dispatch_round :: "'u callbacks \<Rightarrow> uint32 \<Rightarrow> loop_round \<Rightarrow> 'u \<times> ev_loop \<Rightarrow> ('u \<times> ev_loop) res" where
  "dispatch_round cbs flag r us =
     (case r of (now, waited, now') \<Rightarrow>
        bind_res (update_fd (snd us)) (\<lambda>s.
        let s = s\<lparr>mn_time_now := now\<rparr> in
        bind_res (backend_poll (poll_timeout flag s) waited s) (\<lambda>s.
        bind_res (timer_notify (s\<lparr>mn_time_now := now'\<rparr>)) (\<lambda>s.
        invoke_pendings cbs (fst us, s)))))"

text \<open>When no round is left, the loop waits for ever.\<close>

fun dispatch_loop :: "'u callbacks \<Rightarrow> uint32 \<Rightarrow> loop_round list \<Rightarrow> 'u \<times> ev_loop \<Rightarrow> (int \<times> 'u \<times> ev_loop) res" where
  "dispatch_loop cbs flag [] us = Inl NoReturn"
| "dispatch_loop cbs flag (r # rs) us =
     bind_res (dispatch_round cbs flag r us) (\<lambda>us.
       if activecnt (snd us) \<noteq> 0 \<and> \<not> loop_done (snd us) \<and> flag AND (EVRUN_ONCE OR EVRUN_NOWAIT) = 0
       then dispatch_loop cbs flag rs us else Inr (activecnt (snd us), us))"

definition dispatch :: "'u callbacks \<Rightarrow> uint32 \<Rightarrow> loop_round list \<Rightarrow> 'u \<times> ev_loop \<Rightarrow> (int \<times> 'u \<times> ev_loop) res" where
  "dispatch cbs flag rs us = dispatch_loop cbs flag rs (fst us, (snd us)\<lparr>loop_done := False\<rparr>)"

section \<open>Timers that are due\<close>

definition late_cnt :: "ev_tstamp \<Rightarrow> quad_minheap \<Rightarrow> nat" where
  "late_cnt now q = length (filter (\<lambda>x. cache_at x < now) (take (hsize q) (heap q)))"

lemma late_cnt_perm:
  assumes "mset (take n h') = mset (take n h)"
  shows "length (filter P (take n h')) = length (filter P (take n h))"
  using assms by (metis mset_filter size_mset)

lemma wstack_inv: "loop_inv k s \<Longrightarrow> loop_inv k (invert_feed (Tm w) s)"
proof -
  assume inv: "loop_inv k s"
  have "same_pend s (invert_feed (Tm w) s)" by (rule same_pendI) (simp_all add: invert_feed_def)
  then have "pend_ok (invert_feed (Tm w) s)" using inv same_pend_ok by (auto simp: loop_inv_def)
  moreover have "same_core s (invert_feed (Tm w) s)" by (simp add: same_core_def invert_feed_def)
  ultimately show ?thesis
    using inv same_core_ok by (auto simp: loop_inv_def invert_feed_def)
qed

text \<open>Rescheduling the timer at the root.\<close>

lemma reschedule_root:
  assumes inv: "loop_inv k s" and ex: "expired s" and w: "wt (heap_top (timer_heap s)) = Some w"
    and rep: "repeat (tms s w) \<noteq> 0"
  shows "\<exists>s'. notify_top s = Inr s' \<and> loop_inv k s' \<and> mn_time_now s' = mn_time_now s \<and>
    hsize (timer_heap s') = hsize (timer_heap s) \<and>
    late_cnt (mn_time_now s) (timer_heap s') < late_cnt (mn_time_now s) (timer_heap s) \<and>
    wstack s' = Tm w # wstack s \<and> same_pend s s' \<and> kern s' = kern s \<and>
    at_t (tms s' w) = max (at_t (tms s w) + repeat (tms s w)) (mn_time_now s) \<and>
    (\<forall>v. active (tms s' v) \<noteq> 0 \<longleftrightarrow> active (tms s v) \<noteq> 0)"
proof -
  let ?q = "timer_heap s" and ?now = "mn_time_now s" and ?n = "hsize (timer_heap s)"
  define due where "due = max (at_t (tms s w) + repeat (tms s w)) ?now"
  define ts where "ts = (tms s)(w := (tms s w)\<lparr>at_t := due\<rparr>)"
  define slot where "slot = (heap ?q ! 0)\<lparr>cache_at := due\<rparr>"
  define q1 where "q1 = ?q\<lparr>heap := (heap ?q)[0 := slot]\<rparr>"
  have h: "heap_inv ?q (tms s)" and n: "0 < ?n" and len: "?n \<le> length (heap ?q)"
    using inv ex by (simp_all add: loop_inv_def core_ok_def expired_def isempty_def heap_inv_def)
  have hts: "heap_inv ?q ts" using h heap_inv_cong [of ts "tms s"] by (simp add: ts_def)
  have q1: "heap_inv q1 ts" "members q1 = members ?q"
    unfolding q1_def by (rule heap_cache_inv [OF hts]; simp add: slot_def)+
  have n1: "hsize q1 = ?n" "heap q1 = (heap ?q)[0 := slot]" by (simp_all add: q1_def)
  obtain ts' where t: "shift_down (heap q1) (hsize q1) ts 0 = Inr (downheap by_cache (heap q1) (hsize q1) 0, ts')"
    "heap_inv (q1\<lparr>heap := downheap by_cache (heap q1) (hsize q1) 0\<rparr>) ts'" "same_but_active ts ts'"
    "members (q1\<lparr>heap := downheap by_cache (heap q1) (hsize q1) 0\<rparr>) = members q1"
    by (rule shift_down_inv [OF q1(1), of 0]) (use n n1 in auto)
  define q2 where "q2 = q1\<lparr>heap := downheap by_cache (heap q1) (hsize q1) 0\<rparr>"
  define s1 where "s1 = s\<lparr>tms := ts', timer_heap := q2, activecnt := activecnt s + 0\<rparr>"
  have step: "notify_top s = Inr (invert_feed (Tm w) s1)"
  proof -
    have "(if at_t (tms s w) + repeat (tms s w) < ?now then ?now else at_t (tms s w) + repeat (tms s w)) = due"
      by (simp add: due_def)
    moreover have "HEAP_CACHE_AT (heap_top ?q) ts = Inr slot"
      using w by (simp add: HEAP_CACHE_AT_def heap_top_def slot_def ts_def)
    moreover have "shift_down ((heap ?q)[0 := slot]) ?n ts 0 = Inr (downheap by_cache (heap q1) (hsize q1) 0, ts')"
      using t(1) by (simp add: n1)
    ultimately show ?thesis
      using w rep by (simp add: notify_top_def Let_def ts_def [symmetric] s1_def q2_def q1_def)
  qed
  have pend: "pending (ts' v) = pending (tms s v) \<and> priority (ts' v) = priority (tms s v)" for v
    using same_but_activeD [OF t(3), of v] by (auto simp: ts_def)
  have inv1: "loop_inv k s1" "same_pend s s1"
    unfolding s1_def by (rule timer_upd_inv [OF inv]; use t(2) n1 pend in \<open>simp add: q2_def\<close>)+
  have late: "late_cnt ?now q2 < late_cnt ?now ?q"
  proof -
    have l1: "?n \<le> length (heap q1)" using len by (simp add: n1)
    have "late_cnt ?now q2 = length (filter (\<lambda>x. cache_at x < ?now) (take ?n (heap q1)))"
      unfolding late_cnt_def using downheap_perm [OF l1 n, of by_cache] n1
      by (subst late_cnt_perm [where h = "heap q1"]) (auto simp: q2_def intro!: mset_take_eq)
    moreover obtain x xs where x: "heap ?q = x # xs" using n len by (cases "heap ?q") auto
    moreover obtain m where "?n = Suc m" using n by (cases ?n) auto
    ultimately show ?thesis
      using ex by (simp add: late_cnt_def n1 slot_def due_def expired_def heap_top_def)
  qed
  have act: "active (tms s1 v) \<noteq> 0 \<longleftrightarrow> active (tms s v) \<noteq> 0" for v
    using heap_inv_active [OF t(2), of v] heap_inv_active [OF h, of v] t(4) q1(2) by (simp add: s1_def)
  have "same_pend s1 (invert_feed (Tm w) s1)" by (rule same_pendI) (simp_all add: invert_feed_def)
  then have "same_pend s (invert_feed (Tm w) s1)" using inv1(2) same_pend_trans by blast
  then show ?thesis
    using step wstack_inv [OF inv1(1), of w] late act same_but_activeD [OF t(3), of w]
    by (simp add: invert_feed_def s1_def q2_def n1 due_def ts_def)
qed

text \<open>Stopping the one-shot timer at the root.\<close>

lemma root_active:
  assumes "loop_inv k s" "expired s"
  obtains w where "wt (heap_top (timer_heap s)) = Some w" "active (tms s w) = 1"
proof -
  have "heap_inv (timer_heap s) (tms s)" "0 < hsize (timer_heap s)"
    using assms by (simp_all add: loop_inv_def core_ok_def expired_def isempty_def)
  then show thesis using that by (fastforce simp: heap_inv_def indexed_def heap_top_def)
qed

lemma one_shot_root:
  assumes inv: "loop_inv k s" and ex: "expired s" and w: "wt (heap_top (timer_heap s)) = Some w"
    and rep: "repeat (tms s w) = 0"
  shows "if hsize (timer_heap s) = 1 then notify_top s = Inl NullDeref
    else \<exists>s'. notify_top s = Inr s' \<and> loop_inv k s' \<and> mn_time_now s' = mn_time_now s \<and>
      hsize (timer_heap s') = hsize (timer_heap s) - 1 \<and> kern s' = kern s \<and>
      heap (timer_heap s') = adjustheap by_cache (drop_slot (heap (timer_heap s)) (hsize (timer_heap s) - 1) 0)
        (hsize (timer_heap s) - 1) 0 \<and>
      (\<forall>v. repeat (tms s' v) = repeat (tms s v))"
proof -
  obtain v where "wt (heap_top (timer_heap s)) = Some v" "active (tms s v) = 1"
    by (rule root_active [OF inv ex])
  then have a: "active (tms s w) = 1" using w by simp
  have nt: "notify_top s = bind_res (timer_watcher_stop w s) (\<lambda>s. Inr (invert_feed (Tm w) s))"
    using w rep by (simp add: notify_top_def)
  show ?thesis
  proof (cases "hsize (timer_heap s) = 1")
    case True
    then show ?thesis using timer_watcher_stop_inv [OF inv, of w] a nt by simp
  next
    case False
    then obtain s1 where s1: "timer_watcher_stop w s = Inr s1" "loop_inv k s1" "kern s1 = kern s"
      "mn_time_now s1 = mn_time_now s" "\<forall>v. repeat (tms s1 v) = repeat (tms s v)"
      "hsize (timer_heap s1) = hsize (timer_heap s) - 1"
      "heap (timer_heap s1) = adjustheap by_cache (drop_slot (heap (timer_heap s)) (hsize (timer_heap s) - 1) 0)
        (hsize (timer_heap s) - 1) 0"
      using timer_watcher_stop_inv [OF inv, of w] a by auto
    then show ?thesis
      using False nt wstack_inv [OF s1(2), of w] by (simp add: invert_feed_def)
  qed
qed

lemma late_cnt_stop:
  assumes "hsize q \<le> length (heap q)" "1 < hsize q" "hsize q' = hsize q - 1"
    "heap q' = adjustheap by_cache (drop_slot (heap q) (hsize q - 1) 0) (hsize q - 1) 0"
  shows "late_cnt now q' \<le> late_cnt now q"
proof -
  let ?l = "hsize q - 1" and ?g = "drop_slot (heap q) (hsize q - 1) 0" and ?P = "\<lambda>x. cache_at x < now"
  have len: "?l \<le> length ?g" "0 < ?l" using assms(1,2) by (simp_all add: drop_slot_def Let_def)
  have "late_cnt now q' = length (filter ?P (take ?l ?g))"
    unfolding late_cnt_def assms(3,4) using adjustheap_perm [OF len, of by_cache]
    by (intro late_cnt_perm mset_take_eq) auto
  also have "\<dots> = length (filter ?P (take ?l (heap q)))"
  proof -
    have "map cache_at (take ?l ?g) = map cache_at (take ?l (heap q))"
    proof (rule nth_equalityI)
      fix i assume "i < length (map cache_at (take ?l ?g))"
      moreover have h0: "0 < length (heap q)" using assms(1,2) by linarith
      ultimately show "map cache_at (take ?l ?g) ! i = map cache_at (take ?l (heap q)) ! i"
        using assms(1,2) by (cases "i = 0") (auto simp: drop_slot_def Let_def nth_list_update_eq [OF h0])
    qed (use assms(1) in \<open>simp add: drop_slot_def Let_def\<close>)
    then have "length (filter (\<lambda>c. c < now) (map cache_at (take ?l ?g))) =
        length (filter (\<lambda>c. c < now) (map cache_at (take ?l (heap q))))" by simp
    then show ?thesis by (simp add: filter_map o_def)
  qed
  also have "\<dots> \<le> length (filter ?P (take (hsize q) (heap q)))"
  proof -
    have "take (hsize q) (heap q) = take ?l (heap q) @ [heap q ! ?l]"
      using assms(1,2) take_Suc_conv_app_nth [of ?l "heap q"] by simp
    then show ?thesis by simp
  qed
  finally show ?thesis by (simp add: late_cnt_def)
qed

text \<open>So the loop ends; the only fault is the null pointer of the timer heap.\<close>

lemma notify_loop_ok:
  assumes "loop_inv k s"
  shows "\<exists>r. notify_loop s = Some r \<and> (r = Inl NullDeref \<or>
    (\<exists>s'. r = Inr s' \<and> loop_inv k s' \<and> mn_time_now s' = mn_time_now s \<and> kern s' = kern s))"
  using assms
proof (induction "hsize (timer_heap s) + late_cnt (mn_time_now s) (timer_heap s)" arbitrary: s rule: less_induct)
  case less
  show ?case
  proof (cases "expired s")
    case False
    then show ?thesis using less.prems by (simp add: notify_loop.simps [of s])
  next
    case True
    obtain w where w: "wt (heap_top (timer_heap s)) = Some w" by (rule root_active [OF less.prems True])
    have len: "hsize (timer_heap s) \<le> length (heap (timer_heap s))" "0 < hsize (timer_heap s)"
      using less.prems True by (simp_all add: loop_inv_def core_ok_def heap_inv_def expired_def isempty_def)
    have "notify_top s = Inl NullDeref \<or> (\<exists>s1. notify_top s = Inr s1 \<and> loop_inv k s1 \<and>
        mn_time_now s1 = mn_time_now s \<and> kern s1 = kern s \<and>
        hsize (timer_heap s1) + late_cnt (mn_time_now s) (timer_heap s1) <
        hsize (timer_heap s) + late_cnt (mn_time_now s) (timer_heap s))"
    proof (cases "repeat (tms s w) = 0")
      case rep: True
      show ?thesis
      proof (cases "hsize (timer_heap s) = 1")
        case one: True
        then show ?thesis using one_shot_root [OF less.prems True w rep] by simp
      next
        case False
        then obtain s1 where s1: "notify_top s = Inr s1" "loop_inv k s1" "mn_time_now s1 = mn_time_now s" "kern s1 = kern s"
          "hsize (timer_heap s1) = hsize (timer_heap s) - 1"
          "heap (timer_heap s1) = adjustheap by_cache (drop_slot (heap (timer_heap s)) (hsize (timer_heap s) - 1) 0)
            (hsize (timer_heap s) - 1) 0"
          using one_shot_root [OF less.prems True w rep] by auto
        moreover have "late_cnt (mn_time_now s) (timer_heap s1) \<le> late_cnt (mn_time_now s) (timer_heap s)"
          by (rule late_cnt_stop [OF len(1) _ s1(5,6)]) (use False len(2) in linarith)
        ultimately show ?thesis using len(2) by auto
      qed
    next
      case False
      then show ?thesis using reschedule_root [OF less.prems True w False] by fastforce
    qed
    then show ?thesis
    proof
      assume "notify_top s = Inl NullDeref"
      then show ?thesis using True by (simp add: notify_loop.simps [of s])
    next
      assume "\<exists>s1. notify_top s = Inr s1 \<and> loop_inv k s1 \<and> mn_time_now s1 = mn_time_now s \<and> kern s1 = kern s \<and>
        hsize (timer_heap s1) + late_cnt (mn_time_now s) (timer_heap s1) <
        hsize (timer_heap s) + late_cnt (mn_time_now s) (timer_heap s)"
      then obtain s1 where s1: "notify_top s = Inr s1" "loop_inv k s1" "mn_time_now s1 = mn_time_now s" "kern s1 = kern s"
        "hsize (timer_heap s1) + late_cnt (mn_time_now s1) (timer_heap s1) <
         hsize (timer_heap s) + late_cnt (mn_time_now s) (timer_heap s)" by auto
      have "notify_loop s = notify_loop s1" using True s1(1) by (simp add: notify_loop.simps [of s])
      then show ?thesis using less.hyps [OF s1(5,2)] s1(3,4) by simp
    qed
  qed
qed

lemma feed_all_inv: "loop_inv k s \<Longrightarrow> Dummy \<notin> set ws \<Longrightarrow> loop_inv k (feed_all ws ev s)"
  by (induction ws ev s rule: feed_all.induct) (auto simp: feed_event_inv)

lemma timer_notify_ok:
  assumes "loop_inv k s"
  shows "timer_notify s = Inl NullDeref \<or> (\<exists>s'. timer_notify s = Inr s' \<and> loop_inv k s')"
proof (cases "expired s")
  case False
  then show ?thesis using assms by (simp add: timer_notify_def)
next
  case True
  consider "notify_loop s = Some (Inl NullDeref)" | s' where "notify_loop s = Some (Inr s')" "loop_inv k s'"
    using notify_loop_ok [OF assms] by auto
  then show ?thesis
  proof cases
    case 1
    then show ?thesis using True by (simp add: timer_notify_def)
  next
    case 2
    let ?f = "feed_all (wstack s') EV_TIMER s'"
    have f: "loop_inv k ?f" using 2(2) by (intro feed_all_inv) (simp_all add: loop_inv_def)
    have sp: "same_pend ?f (?f\<lparr>wstack := []\<rparr>)" by (rule same_pendI) simp_all
    have sc: "same_core ?f (?f\<lparr>wstack := []\<rparr>)" by (simp add: same_core_def)
    have "loop_inv k (?f\<lparr>wstack := []\<rparr>)"
      using f same_pend_ok [OF sp] same_core_ok [OF sc] by (simp add: loop_inv_def)
    then show ?thesis using True 2(1) by (simp add: timer_notify_def invert_feed_done_def)
  qed
qed

end
