(* ===== verification/Ev_Dispatch.thy ===== *)
theory Ev_Dispatch
  imports Ev_Run
begin

text \<open>
  What running the event loop guarantees: callbacks that follow the rules of the interface keep the
  invariant, every pending watcher is called once, and a round of \<open>dispatch\<close> keeps the invariant and
  returns, but for the null pointer of the timer heap.
\<close>

section \<open>Calls of callbacks\<close>

text \<open>What the loop asks of its callers: a watcher that is pending is not initialised again, descriptors
  are not negative, and there are at most \<open>2 ^ 20\<close> timers.\<close>

primrec op_ok :: "ev_op \<Rightarrow> ev_loop \<Rightarrow> bool" where
  "op_ok (IoInit w fd ev cbk dat pri) s \<longleftrightarrow>
     pending (ios s w) = 0 \<and> 0 \<le> fd \<and> ev AND NOT (EV_READ OR EV_WRITE) = 0"
| "op_ok (IoStart w) s \<longleftrightarrow> 0 \<le> io_fd (ios s w)"
| "op_ok (IoStop w) s \<longleftrightarrow> True"
| "op_ok (TmInit w after rep cbk dat) s \<longleftrightarrow> pending (tms s w) = 0"
| "op_ok (TmStart w) s \<longleftrightarrow> hsize (timer_heap s) < 2 ^ 20"
| "op_ok (TmStop w) s \<longleftrightarrow> True"
| "op_ok LoopBreak s \<longleftrightarrow> True"
| "op_ok (CloseFd fd) s \<longleftrightarrow> True"

primrec ops_ok :: "ev_op list \<Rightarrow> ev_loop \<Rightarrow> bool" where
  "ops_ok [] s \<longleftrightarrow> True"
| "ops_ok (x # xs) s \<longleftrightarrow> op_ok x s \<and> (\<forall>s'. do_op x s = Inr s' \<longrightarrow> ops_ok xs s')"

definition cbs_ok :: "'u callbacks \<Rightarrow> bool" where
  "cbs_ok cbs \<longleftrightarrow> (\<forall>c w ev u s. loop_inv 0 s \<longrightarrow> ops_ok (snd (cbs c w ev (u, s))) s)"

lemma idle_pend_ok:
  assumes "pend_ok s" "pending_of w s = 0" "w \<noteq> Dummy"
    "pendings s' = pendings s" "pendingcnt s' = pendingcnt s"
    "\<And>v. pending_of v s' = pending_of v s" "\<And>v. v \<noteq> w \<Longrightarrow> priority_of v s' = priority_of v s"
  shows "pend_ok s'"
proof -
  note d = pend_okD [OF assms(1)]
  have "\<exists>v. pw (pendings s' pri i) = Some v \<and> (v \<noteq> Dummy \<longrightarrow> pending_of v s' = int i + 1 \<and> priority_of v s' = pri)"
    if "i < pendingcnt s' pri" for pri i
  proof -
    have "i < pendingcnt s pri" using that assms(5) by simp
    then obtain v where v: "pw (pendings s pri i) = Some v" "v \<noteq> Dummy \<longrightarrow> pending_of v s = int i + 1 \<and> priority_of v s = pri"
      using d(2) by blast
    then have "v \<noteq> w" using assms(2,3) by auto
    then show ?thesis using v assms(4,6,7) by auto
  qed
  moreover have "\<exists>i. pending_of v s' = int i + 1 \<and> i < pendingcnt s' (priority_of v s') \<and>
      pw (pendings s' (priority_of v s') i) = Some v" if "pending_of v s' \<noteq> 0" for v
  proof -
    have "v \<noteq> w" "pending_of v s \<noteq> 0" using that assms(2,6) by auto
    then show ?thesis using d(3) [of v] assms(4-7) by auto
  qed
  moreover have "pending_of Dummy s' = 0" using d(1) assms(6) by simp
  ultimately show ?thesis by (simp add: pend_ok_def)
qed

lemma idle_io_inv:
  assumes inv: "loop_inv k s" and w: "active (ios s w) = 0" "pending (ios s w) = 0" "active x = 0" "pending x = 0"
  shows "loop_inv k (s\<lparr>ios := (ios s)(w := x)\<rparr>)"
proof -
  let ?s = "s\<lparr>ios := (ios s)(w := x)\<rparr>"
  have p: "pending_of v ?s = pending_of v s" "v \<noteq> Io w \<Longrightarrow> priority_of v ?s = priority_of v s" for v
    using w by (cases v; simp)+
  have "pend_ok ?s"
    by (rule idle_pend_ok [of s "Io w"]) (use inv w p in \<open>auto simp: loop_inv_def\<close>)
  moreover have l: "fd_list fd ?s = fd_list fd s" for fd
  proof (rule ext)
    fix xs
    have st: "{v. active (ios ?s v) \<noteq> 0 \<and> io_fd (ios ?s v) = int fd} = {v. active (ios s v) \<noteq> 0 \<and> io_fd (ios s v) = int fd}"
      using w by auto
    show "fd_list fd ?s xs = fd_list fd s xs"
    proof (cases "set xs = {v. active (ios s v) \<noteq> 0 \<and> io_fd (ios s v) = int fd}")
      case True
      then have "wlist (ios ?s) (head (fds s fd)) xs = wlist (ios s) (head (fds s fd)) xs"
        using w by (intro wlist_cong) auto
      then show ?thesis unfolding fd_list_def st by simp
    next
      case False
      then show ?thesis unfolding fd_list_def st by simp
    qed
  qed
  have i: "interest (ios ?s) xs = interest (ios s) xs" if "fd_list fd s xs" for fd xs
    using that w by (intro interest_cong) (auto simp: fd_list_def)
  have "lists_ok ?s"
    unfolding lists_ok_def l using inv w by (auto simp: loop_inv_def core_ok_def lists_ok_def)
  moreover have "synced ?s"
    unfolding synced_def l using inv i by (auto simp: loop_inv_def core_ok_def synced_def)
  moreover have "active_ios ?s = active_ios s" using w by (auto simp: active_ios_def)
  then have "counted ?s" using inv by (simp add: loop_inv_def core_ok_def counted_def)
  moreover have "changes_ok k ?s = changes_ok k s" by (simp add: changes_ok_def)
  ultimately show ?thesis using inv by (simp add: loop_inv_def core_ok_def)
qed

lemma idle_tm_inv:
  assumes inv: "loop_inv k s" and w: "active (tms s w) = 0" "pending (tms s w) = 0" "active x = 0" "pending x = 0"
  shows "loop_inv k (s\<lparr>tms := (tms s)(w := x)\<rparr>)"
proof -
  let ?s = "s\<lparr>tms := (tms s)(w := x)\<rparr>"
  have p: "pending_of v ?s = pending_of v s" "v \<noteq> Tm w \<Longrightarrow> priority_of v ?s = priority_of v s" for v
    using w by (cases v; simp)+
  have "pend_ok ?s"
    by (rule idle_pend_ok [of s "Tm w"]) (use inv w p in \<open>auto simp: loop_inv_def\<close>)
  moreover have "heap_inv (timer_heap s) (tms ?s) = heap_inv (timer_heap s) (tms s)"
    using w by (intro heap_inv_cong) simp
  then have "core_ok k ?s = core_ok k s"
    by (simp add: core_ok_def lists_ok_def synced_def fd_list_def changes_ok_def counted_def active_ios_def)
  ultimately show ?thesis using inv by (simp add: loop_inv_def)
qed

lemma same_inv:
  "same_pend s s' \<Longrightarrow> same_core s s' \<Longrightarrow> wstack s' = wstack s \<Longrightarrow> loop_inv k s \<Longrightarrow> loop_inv k s'"
  using same_pend_ok same_core_ok by (simp add: loop_inv_def)

lemma loop_done_inv: "loop_inv k s \<Longrightarrow> loop_inv k (s\<lparr>loop_done := b\<rparr>)"
  by (rule same_inv [of s]) (simp_all add: same_pendI same_core_def)

lemma time_inv: "loop_inv k s \<Longrightarrow> loop_inv k (s\<lparr>mn_time_now := t\<rparr>)"
proof -
  assume a: "loop_inv k s"
  have "same_pend s (s\<lparr>mn_time_now := t\<rparr>)" by (rule same_pendI) simp_all
  then have "pend_ok (s\<lparr>mn_time_now := t\<rparr>)" using a same_pend_ok by (auto simp: loop_inv_def)
  then show ?thesis using a
    by (simp add: loop_inv_def core_ok_def lists_ok_def synced_def fd_list_def changes_ok_def counted_def active_ios_def)
qed

lemma do_op_inv:
  assumes inv: "loop_inv k s" and x: "op_ok x s"
  shows "do_op x s = Inl NullDeref \<or> (\<exists>s'. do_op x s = Inr s' \<and> loop_inv k s')"
proof (cases x)
  case (IoInit w fd ev cbk dat pri)
  then show ?thesis using x inv by (simp add: io_watcher_init_def idle_io_inv)
next
  case (IoStart w)
  then show ?thesis using x io_watcher_start_inv [OF inv, of w] by auto
next
  case (IoStop w)
  then show ?thesis using io_watcher_stop_inv [OF inv, of w] by auto
next
  case (TmInit w after rep cbk dat)
  then show ?thesis using x inv by (simp add: timer_watcher_init_def idle_tm_inv)
next
  case (TmStart w)
  then show ?thesis using x timer_watcher_start_inv [OF inv, of w] by auto
next
  case (TmStop w)
  then show ?thesis using timer_watcher_stop_inv [OF inv, of w] by (auto split: if_splits)
next
  case LoopBreak
  then show ?thesis using inv by (simp add: loop_done_inv)
next
  case (CloseFd fd)
  then show ?thesis using inv by simp
qed

lemma do_ops_inv:
  "loop_inv k s \<Longrightarrow> ops_ok xs s \<Longrightarrow> do_ops xs s = Inl NullDeref \<or> (\<exists>s'. do_ops xs s = Inr s' \<and> loop_inv k s')"
proof (induction xs s rule: do_ops.induct)
  case (2 x xs s)
  consider "do_op x s = Inl NullDeref" | s' where "do_op x s = Inr s'" "loop_inv k s'"
    using do_op_inv [OF 2(2)] 2(3) by auto
  then show ?case using 2 by cases auto
qed simp

section \<open>Pending events are delivered\<close>

lemma pop_pending_ok:
  assumes inv: "loop_inv k s" and n: "0 < pendingcnt s pri"
  obtains w s' where "pop_pending pri s = (Some w, pevents (pendings s pri (pendingcnt s pri - 1)), s')"
    "pw (pendings s pri (pendingcnt s pri - 1)) = Some w" "loop_inv k s'" "same_core s s'"
    "pendings s' = pendings s" "pendingcnt s' = (pendingcnt s)(pri := pendingcnt s pri - 1)"
    "\<And>v. pending_of v s' = (if v = w then 0 else pending_of v s)" "\<And>v. priority_of v s' = priority_of v s"
    "\<And>v. cb_of v s' = cb_of v s"
proof -
  let ?n = "pendingcnt s pri - 1"
  have p: "pend_ok s" using inv by (simp add: loop_inv_def)
  note d = pend_okD [OF p]
  obtain w where w: "pw (pendings s pri ?n) = Some w" "w \<noteq> Dummy \<longrightarrow> pending_of w s = int ?n + 1 \<and> priority_of w s = pri"
    using d(2) [of ?n pri] n by auto
  define s1 where "s1 = s\<lparr>pendingcnt := (pendingcnt s)(pri := ?n)\<rparr>"
  define s' where "s' = set_pending w 0 s1"
  have pd: "pending_of v s1 = pending_of v s" "priority_of v s1 = priority_of v s" for v
    by (cases v; simp add: s1_def)+
  have s1: "pendings s1 = pendings s" "pendingcnt s1 = (pendingcnt s)(pri := ?n)" by (simp_all add: s1_def)
  have po: "pend_ok s'"
    unfolding pend_ok_def
  proof (intro conjI allI impI)
    show "pending_of Dummy s' = 0" using d(1) by (simp add: s'_def pd)
  next
    fix q i assume i: "i < pendingcnt s' q"
    then have lt: "i < pendingcnt s q" "q = pri \<longrightarrow> i < ?n" by (auto simp: s'_def s1 split: if_splits)
    then obtain v where v: "pw (pendings s q i) = Some v" "v \<noteq> Dummy \<longrightarrow> pending_of v s = int i + 1 \<and> priority_of v s = q"
      using d(2) by blast
    then have "v \<noteq> w \<or> v = Dummy" using w(2) lt(2) by auto
    then show "\<exists>v. pw (pendings s' q i) = Some v \<and> (v \<noteq> Dummy \<longrightarrow> pending_of v s' = int i + 1 \<and> priority_of v s' = q)"
      using v by (auto simp: s'_def s1 pd)
  next
    fix v assume "pending_of v s' \<noteq> 0"
    then have v: "v \<noteq> w" "pending_of v s \<noteq> 0" by (auto simp: s'_def pd split: if_splits)
    then obtain i where i: "pending_of v s = int i + 1" "i < pendingcnt s (priority_of v s)"
      "pw (pendings s (priority_of v s) i) = Some v"
      using d(3) by blast
    then have "\<not> (priority_of v s = pri \<and> i = ?n)" using v(1) w(1) by auto
    then show "\<exists>i. pending_of v s' = int i + 1 \<and> i < pendingcnt s' (priority_of v s') \<and>
        pw (pendings s' (priority_of v s') i) = Some v"
      using i v(1) by (intro exI [of _ i]) (auto simp: s'_def s1 pd)
  qed
  have sc: "same_core s s'"
    by (rule same_core_trans [of _ s1]) (simp_all add: s'_def, simp add: s1_def same_core_def)
  have "wstack s' = wstack s" by (simp add: s'_def s1_def)
  then have "loop_inv k s'" using inv po same_core_ok [OF sc] by (simp add: loop_inv_def)
  moreover have "pop_pending pri s = (Some w, pevents (pendings s pri ?n), s')"
    using w(1) by (simp add: pop_pending_def Let_def s'_def s1_def)
  moreover have "cb_of v s' = cb_of v s" for v by (cases v; cases w; simp add: s'_def s1_def)
  ultimately show thesis
    using that [of w s'] w(1) sc by (simp add: s'_def s1 pd)
qed

lemma call_cb_inv:
  assumes "loop_inv 0 (snd us)" "cbs_ok cbs"
  shows "call_cb cbs w ev us = Inl NullDeref \<or> (\<exists>us'. call_cb cbs w ev us = Inr us' \<and> loop_inv 0 (snd us'))"
proof (cases "w = Dummy \<or> cb_of w (snd us) = None")
  case True
  then show ?thesis using assms(1) by (cases us) (auto simp: call_cb_def)
next
  case False
  then obtain c where c: "w \<noteq> Dummy" "cb_of w (snd us) = Some c" by auto
  obtain u xs where xs: "cbs c w ev us = (u, xs)" by (cases "cbs c w ev us")
  then have "ops_ok xs (snd us)" using assms unfolding cbs_ok_def by (metis prod.collapse snd_conv)
  then show ?thesis using do_ops_inv [OF assms(1)] c xs by (fastforce simp: call_cb_def)
qed

lemma invoke_pri_inv:
  assumes "loop_inv 0 (snd us)" "cbs_ok cbs"
  shows "invoke_pri cbs pri us = Inl NullDeref \<or> (\<exists>us'. invoke_pri cbs pri us = Inr us' \<and> loop_inv 0 (snd us') \<and>
    pendingcnt (snd us') = (pendingcnt (snd us))(pri := 0))"
  using assms
proof (induction "pendingcnt (snd us) pri" arbitrary: us)
  case 0
  then show ?case by (simp add: invoke_pri.simps [of cbs pri us] fun_upd_idem)
next
  case (Suc n)
  have pos: "0 < pendingcnt (snd us) pri" using Suc.hyps(2) by simp
  obtain w ev s' where p: "pop_pending pri (snd us) = (Some w, ev, s')" "loop_inv 0 s'"
    "pendingcnt s' = (pendingcnt (snd us))(pri := pendingcnt (snd us) pri - 1)"
    by (rule pop_pending_ok [OF Suc.prems(1) pos]) blast
  have i: "invoke_pri cbs pri us =
      (case call_cb cbs w ev (fst us, s') of Inl e \<Rightarrow> Inl e | Inr us' \<Rightarrow> invoke_pri cbs pri us')"
    using pos p(1) by (simp add: invoke_pri.simps [of cbs pri us])
  consider "call_cb cbs w ev (fst us, s') = Inl NullDeref"
    | us1 where "call_cb cbs w ev (fst us, s') = Inr us1" "loop_inv 0 (snd us1)"
    using call_cb_inv [of "(fst us, s')" cbs w ev] p(2) Suc.prems(2) by auto
  then show ?case
  proof cases
    case 1
    then show ?thesis using i by simp
  next
    case 2
    have c: "pendingcnt (snd us1) = (pendingcnt (snd us))(pri := n)"
      using call_cb_cnt [OF 2(1)] p(3) Suc.hyps(2) [symmetric] by simp
    then show ?thesis using Suc.hyps(1) [of us1] 2 Suc.prems(2) i by simp
  qed
qed

lemma invoke_from_inv:
  assumes "loop_inv 0 (snd us)" "cbs_ok cbs"
  shows "invoke_from cbs ps us = Inl NullDeref \<or> (\<exists>us'. invoke_from cbs ps us = Inr us' \<and> loop_inv 0 (snd us') \<and>
    (\<forall>p. pendingcnt (snd us') p = (if p \<in> set ps then 0 else pendingcnt (snd us) p)))"
  using assms
proof (induction ps arbitrary: us)
  case (Cons p ps)
  show ?case
    using invoke_pri_inv [OF Cons.prems, of p] Cons.IH [OF _ Cons.prems(2)] by fastforce
qed simp

lemma invoke_pendings_inv:
  assumes "loop_inv 0 (snd us)" "cbs_ok cbs"
  shows "invoke_pendings cbs us = Inl NullDeref \<or> (\<exists>us'. invoke_pendings cbs us = Inr us' \<and> loop_inv 0 (snd us') \<and>
    (\<forall>p < NUMPRI. pendingcnt (snd us') p = 0))"
  using invoke_from_inv [OF assms, of "[0..<NUMPRI]"] by (auto simp: invoke_pendings_def)

section \<open>A round of dispatch\<close>

lemma poll_event_inv:
  assumes "loop_inv k s" "\<forall>fd. ischanged (fds s fd) = 0"
  shows "\<exists>s'. poll_event e s = Inr s' \<and> loop_inv k s' \<and> (\<forall>fd. ischanged (fds s' fd) = 0)"
proof -
  define fd where "fd = unat (ucast (snd e) :: uint32)"
  define s1 where "s1 = (\<lambda>p q. (upd_fd fd (\<lambda>f. f\<lparr>previous_evs := p\<rparr>) s)\<lparr>kern := q\<rparr>)"
  have "loop_inv k (s1 p q)" for p q using assms(1) by (simp add: s1_def upd_fd_inv)
  moreover have "\<forall>fd. ischanged (fds (s1 p q) fd) = 0" for p q using assms(2) by (simp add: s1_def upd_fd_def)
  moreover have "\<exists>s'. feed_fd_event fd ev t = Inr s' \<and> loop_inv k s' \<and> (\<forall>fd. ischanged (fds s' fd) = 0)"
    if "loop_inv k t" "\<forall>fd. ischanged (fds t fd) = 0" for t ev
    using feed_fd_event_ok [of k t fd ev] that same_coreD(1) by fastforce
  ultimately show ?thesis
    using assms unfolding poll_event_def fd_def [symmetric] Let_def s1_def by (auto split: prod.splits)
qed

lemma poll_events_inv:
  "loop_inv k s \<Longrightarrow> \<forall>fd. ischanged (fds s fd) = 0 \<Longrightarrow>
   \<exists>s'. poll_events es s = Inr s' \<and> loop_inv k s' \<and> (\<forall>fd. ischanged (fds s' fd) = 0)"
proof (induction es arbitrary: s)
  case (Cons e es)
  show ?case using poll_event_inv [OF Cons.prems, of e] Cons.IH by auto
qed simp

lemma dispatch_round_inv:
  assumes inv: "loop_inv 0 (snd us)" and cbs: "cbs_ok cbs"
  shows "dispatch_round cbs flag r us = Inl NullDeref \<or> (\<exists>us'. dispatch_round cbs flag r us = Inr us' \<and> loop_inv 0 (snd us') \<and>
    (\<forall>p < NUMPRI. pendingcnt (snd us') p = 0))"
proof -
  obtain now waited now' where r: "r = (now, waited, now')" by (cases r)
  obtain s1 where s1: "update_fd (snd us) = Inr s1" "loop_inv 0 s1" "\<forall>d. ischanged (fds s1 d) = 0"
    using update_fd_ok [OF inv] by blast
  let ?s = "s1\<lparr>mn_time_now := now\<rparr>"
  let ?w = "waited (poll_ms (poll_timeout flag ?s))"
  obtain s2 where s2: "backend_poll (poll_timeout flag ?s) waited ?s = Inr s2" "loop_inv 0 s2"
  proof (cases ?w)
    case (Some es)
    then show ?thesis using that poll_events_inv [of 0 ?s es] time_inv [OF s1(2)] s1(3) by (auto simp: backend_poll_def)
  qed (use that time_inv [OF s1(2)] in \<open>simp add: backend_poll_def\<close>)
  consider "timer_notify (s2\<lparr>mn_time_now := now'\<rparr>) = Inl NullDeref"
    | s3 where "timer_notify (s2\<lparr>mn_time_now := now'\<rparr>) = Inr s3" "loop_inv 0 s3"
    using timer_notify_ok [OF time_inv [OF s2(2)]] by blast
  then show ?thesis
  proof cases
    case 1
    then show ?thesis using r s1(1) s2(1) by (simp add: dispatch_round_def Let_def)
  next
    case 2
    then show ?thesis
      using r s1(1) s2(1) invoke_pendings_inv [of "(fst us, s3)" cbs] cbs by (simp add: dispatch_round_def Let_def)
  qed
qed

lemma dispatch_loop_inv:
  assumes "loop_inv 0 (snd us)" "cbs_ok cbs"
  shows "dispatch_loop cbs flag rs us \<in> {Inl NullDeref, Inl NoReturn} \<or>
    (\<exists>us'. dispatch_loop cbs flag rs us = Inr (activecnt (snd us'), us') \<and> loop_inv 0 (snd us') \<and>
       (\<forall>p < NUMPRI. pendingcnt (snd us') p = 0))"
  using assms
proof (induction rs arbitrary: us)
  case (Cons r rs)
  consider "dispatch_round cbs flag r us = Inl NullDeref"
    | us1 where "dispatch_round cbs flag r us = Inr us1" "loop_inv 0 (snd us1)" "\<forall>p < NUMPRI. pendingcnt (snd us1) p = 0"
    using dispatch_round_inv [OF Cons.prems, of flag r] by blast
  then show ?case
  proof cases
    case 2
    then show ?thesis using Cons.IH [OF 2(2) Cons.prems(2)] by (cases us1) auto
  qed simp
qed simp

lemma dispatch_loop_once:
  assumes "loop_inv 0 (snd us)" "cbs_ok cbs" "flag AND (EVRUN_ONCE OR EVRUN_NOWAIT) \<noteq> 0"
  shows "dispatch_loop cbs flag (r # rs) us \<noteq> Inl NoReturn"
  using dispatch_round_inv [OF assms(1,2), of flag r] assms(3) by auto

text \<open>C2. Running the loop keeps its invariant: whatever happens on the descriptors and whatever the
  callbacks call within the interface's rules, \<open>dispatch\<close> does not hit an assertion or leave an array;
  when it returns, the invariant holds, nothing is pending and the result is the number of active
  watchers. Asked for one round, it returns after it. The faults left are the null pointer
  of the timer heap and callbacks that are not set.\<close>

theorem dispatch_keeps_inv:
  assumes "loop_inv 0 s" "cbs_ok cbs"
  shows "(dispatch cbs flag rs (u, s) \<in> {Inl NullDeref, Inl NoReturn} \<or>
     (\<exists>u' s'. dispatch cbs flag rs (u, s) = Inr (activecnt s', u', s') \<and> loop_inv 0 s' \<and>
        (\<forall>p < NUMPRI. pendingcnt s' p = 0))) \<and>
    (flag AND (EVRUN_ONCE OR EVRUN_NOWAIT) \<noteq> 0 \<and> rs \<noteq> [] \<longrightarrow> dispatch cbs flag rs (u, s) \<noteq> Inl NoReturn)"
proof -
  let ?us = "(u, s\<lparr>loop_done := False\<rparr>)"
  have i: "loop_inv 0 (snd ?us)" using assms(1) by (simp add: loop_done_inv)
  have "rs \<noteq> [] \<Longrightarrow> flag AND (EVRUN_ONCE OR EVRUN_NOWAIT) \<noteq> 0 \<Longrightarrow> dispatch cbs flag rs (u, s) \<noteq> Inl NoReturn"
    using dispatch_loop_once [OF i assms(2)] by (cases rs) (simp_all add: dispatch_def)
  then show ?thesis using dispatch_loop_inv [OF i assms(2), of flag rs] by (auto simp: dispatch_def)
qed

theorem dispatch_keeps_inv_witness:
  "dispatch (\<lambda>c w ev us. (fst us + 1, [IoStop 1, LoopBreak])) EVRUN_ONCE [(0, \<lambda>_. None, 1)] (0 :: nat, one_reader) \<noteq> Inl NoReturn"
proof -
  have c: "cbs_ok (\<lambda>c w ev us. (fst us + 1 :: nat, [IoStop 1, LoopBreak]))" by (simp add: cbs_ok_def)
  have "EVRUN_ONCE AND (EVRUN_ONCE OR EVRUN_NOWAIT) \<noteq> 0" by (simp add: EVRUN_ONCE_def EVRUN_NOWAIT_def)
  then show ?thesis
    using dispatch_keeps_inv [OF one_reader_ok(1) c, of EVRUN_ONCE "[(0, \<lambda>_. None, 1)]" 0] by blast
qed

section \<open>Every pending watcher is called once\<close>

text \<open>The pending watchers of a priority in the order of their slots, and of all priorities in the order
  of the calls.\<close>

definition slot_calls :: "nat \<Rightarrow> ev_loop \<Rightarrow> nat \<Rightarrow> (wref \<times> short) list" where
  "slot_calls pri s n =
     concat (map (\<lambda>i. case pw (pendings s pri i) of
                        None \<Rightarrow> [] | Some w \<Rightarrow> if w = Dummy then [] else [(w, pevents (pendings s pri i))]) (rev [0..<n]))"

definition pending_calls :: "ev_loop \<Rightarrow> (wref \<times> short) list" where
  "pending_calls s = concat (map (\<lambda>pri. slot_calls pri s (pendingcnt s pri)) [0..<NUMPRI])"

lemma slot_calls_Suc:
  "slot_calls pri s (Suc n) =
     (case pw (pendings s pri n) of
        None \<Rightarrow> [] | Some w \<Rightarrow> if w = Dummy then [] else [(w, pevents (pendings s pri n))]) @ slot_calls pri s n"
  by (simp add: slot_calls_def)

lemma slot_calls_set:
  assumes "pend_ok s" "n \<le> pendingcnt s pri"
  shows "(w, ev) \<in> set (slot_calls pri s n) \<longleftrightarrow>
    queued s w = Some ev \<and> w \<noteq> Dummy \<and> priority_of w s = pri \<and> pending_of w s \<le> int n"
proof
  note d = pend_okD [OF assms(1)]
  assume "(w, ev) \<in> set (slot_calls pri s n)"
  then obtain i where i: "i < n" "pw (pendings s pri i) = Some w" "w \<noteq> Dummy" "ev = pevents (pendings s pri i)"
    by (auto simp: slot_calls_def split: option.splits if_splits)
  then show "queued s w = Some ev \<and> w \<noteq> Dummy \<and> priority_of w s = pri \<and> pending_of w s \<le> int n"
    using d(2) [of i pri] assms(2) by (auto simp: queued_def)
next
  note d = pend_okD [OF assms(1)]
  assume a: "queued s w = Some ev \<and> w \<noteq> Dummy \<and> priority_of w s = pri \<and> pending_of w s \<le> int n"
  then have "pending_of w s \<noteq> 0" by (auto simp: queued_def)
  then obtain i where i: "pending_of w s = int i + 1" "pw (pendings s pri i) = Some w" using d(3) a by blast
  then have "i < n" "pevents (pendings s pri i) = ev" "pw (pendings s pri i) = Some w"
    using a by (auto simp: queued_def)
  then show "(w, ev) \<in> set (slot_calls pri s n)"
    using a by (force simp: slot_calls_def)
qed

lemma slot_calls_distinct:
  assumes "pend_ok s" "n \<le> pendingcnt s pri"
  shows "distinct (map fst (slot_calls pri s n))"
  using assms(2)
proof (induction n)
  case (Suc n)
  have "(w, ev) \<notin> set (slot_calls pri s n)" if "pw (pendings s pri n) = Some w" "w \<noteq> Dummy" for w ev
    using slot_calls_set [OF assms(1), of n pri w ev] pend_okD(2) [OF assms(1), of n pri] that Suc.prems by auto
  then show ?case using Suc by (auto simp: slot_calls_Suc split: option.splits)
qed (simp add: slot_calls_def)

lemma pending_calls_set:
  assumes "pend_ok s"
  shows "(w, ev) \<in> set (pending_calls s) \<longleftrightarrow> queued s w = Some ev \<and> priority_of w s < NUMPRI"
proof -
  have "pending_of w s \<le> int (pendingcnt s (priority_of w s))" if "queued s w = Some ev"
    using pend_okD(3) [OF assms, of w] that by (fastforce simp: queued_def split: if_splits)
  moreover have "queued s Dummy = None" using pend_okD(1) [OF assms] by (simp add: queued_def)
  ultimately show ?thesis
    using slot_calls_set [OF assms order_refl, of w ev] by (auto simp: pending_calls_def)
qed

lemma pending_calls_distinct:
  assumes "pend_ok s"
  shows "distinct (map fst (pending_calls s))"
proof -
  have "distinct (map fst (concat (map (\<lambda>pri. slot_calls pri s (pendingcnt s pri)) ps)))" if "distinct ps" for ps
    using that
  proof (induction ps)
    case (Cons p ps)
    have "priority_of w s = q" if "(w, ev) \<in> set (slot_calls q s (pendingcnt s q))" for w ev q
      using slot_calls_set [OF assms order_refl, of w ev q] that by simp
    moreover have "priority_of w s \<in> set ps"
      if "(w, ev) \<in> set (concat (map (\<lambda>pri. slot_calls pri s (pendingcnt s pri)) ps))" for w ev
      using that calculation by auto
    ultimately have "priority_of w s = p \<and> p \<in> set ps" if "w \<in> fst ` set (slot_calls p s (pendingcnt s p)) \<inter>
        fst ` set (concat (map (\<lambda>pri. slot_calls pri s (pendingcnt s pri)) ps))" for w
      using that by (metis (no_types, lifting) IntE imageE prod.collapse)
    then have "fst ` set (slot_calls p s (pendingcnt s p)) \<inter>
        fst ` set (concat (map (\<lambda>pri. slot_calls pri s (pendingcnt s pri)) ps)) = {}"
      using Cons.prems by (meson distinct.simps(2) disjoint_iff IntI)
    then show ?case using Cons slot_calls_distinct [OF assms order_refl, of p] by simp
  qed simp
  then show ?thesis by (simp add: pending_calls_def)
qed

text \<open>Callbacks that only compute on their own state.\<close>

definition pure_cbs :: "(nat \<Rightarrow> wref \<Rightarrow> short \<Rightarrow> 'u \<Rightarrow> 'u) \<Rightarrow> 'u callbacks" where
  "pure_cbs f = (\<lambda>c w ev us. (f c w ev (fst us), []))"

definition apply_call :: "(nat \<Rightarrow> wref \<Rightarrow> short \<Rightarrow> 'u \<Rightarrow> 'u) \<Rightarrow> ev_loop \<Rightarrow> wref \<times> short \<Rightarrow> 'u \<Rightarrow> 'u" where
  "apply_call f s c u = f (the (cb_of (fst c) s)) (fst c) (snd c) u"

definition called :: "ev_loop \<Rightarrow> ev_loop \<Rightarrow> bool" where
  "called s s' \<longleftrightarrow> pendings s' = pendings s \<and> same_core s s' \<and>
     (\<forall>w. cb_of w s' = cb_of w s \<and> priority_of w s' = priority_of w s \<and>
        (pending_of w s' \<noteq> 0 \<longrightarrow> pending_of w s' = pending_of w s))"

lemma called_refl [simp]: "called s s" by (simp add: called_def)

lemma called_trans: "called s s1 \<Longrightarrow> called s1 s2 \<Longrightarrow> called s s2"
  using same_core_trans [of s s1 s2] by (auto simp: called_def)

lemma called_slots: "called s s' \<Longrightarrow> slot_calls p s' n = slot_calls p s n"
  unfolding called_def slot_calls_def by (elim conjE) (simp only:)

lemma called_apply: "called s s' \<Longrightarrow> apply_call f s' = apply_call f s"
  by (simp add: called_def apply_call_def fun_eq_iff)

lemma called_set: "called s s' \<Longrightarrow> \<forall>w. pending_of w s \<noteq> 0 \<longrightarrow> cb_of w s \<noteq> None \<Longrightarrow>
    \<forall>w. pending_of w s' \<noteq> 0 \<longrightarrow> cb_of w s' \<noteq> None"
  unfolding called_def by metis

lemma invoke_pri_calls:
  assumes "loop_inv k s" "\<forall>w. pending_of w s \<noteq> 0 \<longrightarrow> cb_of w s \<noteq> None"
  shows "\<exists>s'. invoke_pri (pure_cbs f) pri (u, s) = Inr (fold (apply_call f s) (slot_calls pri s (pendingcnt s pri)) u, s') \<and>
    loop_inv k s' \<and> called s s' \<and> pendingcnt s' = (pendingcnt s)(pri := 0)"
  using assms
proof (induction "pendingcnt s pri" arbitrary: s u)
  case 0
  then show ?case
    by (intro exI [of _ s]) (simp add: invoke_pri.simps [of _ pri "(u, s)"] fun_upd_idem slot_calls_def)
next
  case (Suc n)
  have n: "pendingcnt s pri = Suc n" using Suc.hyps(2) by simp
  obtain w s1 where p: "pop_pending pri s = (Some w, pevents (pendings s pri n), s1)"
    "pw (pendings s pri n) = Some w" "loop_inv k s1" "same_core s s1" "pendings s1 = pendings s"
    "pendingcnt s1 = (pendingcnt s)(pri := n)"
    "\<And>v. pending_of v s1 = (if v = w then 0 else pending_of v s)" "\<And>v. priority_of v s1 = priority_of v s"
    "\<And>v. cb_of v s1 = cb_of v s"
    by (rule pop_pending_ok [OF Suc.prems(1), of pri]) (use n in auto)
  have cl: "called s s1" using p by (simp add: called_def)
  let ?c = "(w, pevents (pendings s pri n))"
  define u1 where "u1 = (if w = Dummy then u else apply_call f s ?c u)"
  have "w \<noteq> Dummy \<Longrightarrow> pending_of w s \<noteq> 0"
    using pend_okD(2) [of s n pri] Suc.prems(1) n p(2) by (auto simp: loop_inv_def)
  then have c: "call_cb (pure_cbs f) w (pevents (pendings s pri n)) (u, s1) = Inr (u1, s1)"
    using Suc.prems(2) p(9) by (auto simp: call_cb_def pure_cbs_def u1_def apply_call_def)
  have step: "invoke_pri (pure_cbs f) pri (u, s) = invoke_pri (pure_cbs f) pri (u1, s1)"
    using n p(1) c by (simp add: invoke_pri.simps [of _ pri "(u, s)"])
  have "n = pendingcnt s1 pri" using p(6) by simp
  then obtain s' where s': "invoke_pri (pure_cbs f) pri (u1, s1) = Inr (fold (apply_call f s1) (slot_calls pri s1 n) u1, s')"
    "loop_inv k s'" "called s1 s'" "pendingcnt s' = (pendingcnt s1)(pri := 0)"
    using Suc.hyps(1) [OF _ p(3) called_set [OF cl Suc.prems(2)], of u1] by auto
  have "fold (apply_call f s) (slot_calls pri s (Suc n)) u = fold (apply_call f s) (slot_calls pri s n) u1"
    using p(2) by (simp add: slot_calls_Suc u1_def)
  then show ?case
    using step s' called_slots [OF cl] called_apply [OF cl, of f] called_trans [OF cl s'(3)] p(6) n by (intro exI [of _ s']) simp
qed

lemma invoke_from_calls:
  assumes "loop_inv k s" "\<forall>w. pending_of w s \<noteq> 0 \<longrightarrow> cb_of w s \<noteq> None" "distinct ps"
  shows "\<exists>s'. invoke_from (pure_cbs f) ps (u, s) =
      Inr (fold (apply_call f s) (concat (map (\<lambda>p. slot_calls p s (pendingcnt s p)) ps)) u, s') \<and>
    loop_inv k s' \<and> called s s' \<and> (\<forall>p. pendingcnt s' p = (if p \<in> set ps then 0 else pendingcnt s p))"
  using assms
proof (induction ps arbitrary: s u)
  case Nil
  then show ?case by auto
next
  case (Cons p ps)
  let ?u = "fold (apply_call f s) (slot_calls p s (pendingcnt s p)) u"
  obtain s1 where s1: "invoke_pri (pure_cbs f) p (u, s) = Inr (?u, s1)"
    "loop_inv k s1" "called s s1" "pendingcnt s1 = (pendingcnt s)(p := 0)"
    using invoke_pri_calls [OF Cons.prems(1,2), of f p u] by blast
  obtain s' where s': "invoke_from (pure_cbs f) ps (?u, s1) =
      Inr (fold (apply_call f s1) (concat (map (\<lambda>p. slot_calls p s1 (pendingcnt s1 p)) ps)) ?u, s')"
    "loop_inv k s'" "called s1 s'" "\<forall>q. pendingcnt s' q = (if q \<in> set ps then 0 else pendingcnt s1 q)"
    using Cons.IH [OF s1(2) called_set [OF s1(3) Cons.prems(2)], of ?u] Cons.prems(3) by auto
  have "map (\<lambda>p. slot_calls p s1 (pendingcnt s1 p)) ps = map (\<lambda>p. slot_calls p s (pendingcnt s p)) ps"
    using Cons.prems(3) called_slots [OF s1(3)] s1(4) by auto
  then have cc: "concat (map (\<lambda>p. slot_calls p s1 (pendingcnt s1 p)) ps) = concat (map (\<lambda>p. slot_calls p s (pendingcnt s p)) ps)"
    by (rule arg_cong)
  then have "invoke_from (pure_cbs f) (p # ps) (u, s) =
      Inr (fold (apply_call f s) (concat (map (\<lambda>p. slot_calls p s (pendingcnt s p)) (p # ps))) u, s')"
    using s1(1) s'(1) [unfolded cc] called_apply [OF s1(3), of f] by simp
  then show ?case using s'(2,4) s1(4) called_trans [OF s1(3) s'(3)] by auto
qed


lemma fed_reader:
  "\<exists>s. loop_inv 0 s \<and> queued s (Io 1) = Some 1 \<and> (\<forall>w. queued s w \<noteq> None \<longrightarrow> w = Io 1) \<and>
     cb_of (Io 1) s = Some 0 \<and> priority_of (Io 1) s < NUMPRI"
proof -
  define f where "f = (\<lambda>w :: nat. if w = 1 then ev_io_new\<lparr>cb := Some 0\<rparr> else ev_io_new)"
  define s where "s = (init_loop 0 (\<lambda>_. True))\<lparr>ios := f\<rparr>"
  have s: "loop_inv 0 s" unfolding s_def by (rule loop_inv_fresh) (simp add: f_def ev_io_new_def)
  then have p: "pend_ok s" by (simp add: loop_inv_def)
  have q: "queued s w = None" for w
    by (cases w) (simp_all add: queued_def s_def f_def init_loop_def ev_io_new_def ev_timer_new_def)
  have "queued (feed_event (Io 1) EV_READ s) = [Io 1 \<mapsto> 1]"
    using queued_feed [OF p, of "Io 1" EV_READ] q by (auto simp: EV_READ_def)
  moreover have "cb_of (Io 1) (feed_event (Io 1) EV_READ s) = Some 0"
    by (simp add: feed_event_def Let_def s_def f_def init_loop_def set_slot_def)
  moreover have "priority_of (Io 1) (feed_event (Io 1) EV_READ s) < NUMPRI"
    by (simp add: feed_event_def Let_def s_def f_def init_loop_def set_slot_def ev_io_new_def NUMPRI_def)
  ultimately show ?thesis
    using feed_event_inv [OF s, of "Io 1" EV_READ] by (intro exI [of _ "feed_event (Io 1) EV_READ s"]) (auto split: if_splits)
qed


section \<open>Timers\<close>

text \<open>The loop of \<open>timer_notify\<close> ends: a timer is rescheduled to a time that is not before now or
  leaves the heap. It keeps the invariant, and its only fault is the null pointer of the heap.\<close>

theorem timer_notify_ends:
  assumes "loop_inv k s"
  shows "timer_notify s = Inl NullDeref \<or> (\<exists>s'. timer_notify s = Inr s' \<and> loop_inv k s')"
  by (rule timer_notify_ok [OF assms])

theorem timer_notify_ends_witness:
  "timer_notify (init_loop 0 (\<lambda>_. True)) = Inl NullDeref \<or>
     (\<exists>s'. timer_notify (init_loop 0 (\<lambda>_. True)) = Inr s' \<and> loop_inv 0 s')"
  by (rule timer_notify_ends [OF loop_inv_init])

text \<open>C32. A repeating timer that is alone and due: its callback is queued with \<open>EV_TIMER\<close>, and its next
  deadline is one period later, or now when that has passed too.\<close>

theorem repeating_timer_fires:
  assumes "loop_inv k s" "expired s" "hsize (timer_heap s) = 1" "wstack s = []"
    "wt (heap_top (timer_heap s)) = Some w" "repeat (tms s w) \<noteq> 0"
  shows "\<exists>s'. timer_notify s = Inr s' \<and> loop_inv k s' \<and> hsize (timer_heap s') = 1 \<and>
    at_t (tms s' w) = max (at_t (tms s w) + repeat (tms s w)) (mn_time_now s) \<and>
    queued s' = feed_map (queued s) (Tm w) EV_TIMER"
proof -
  obtain s1 where s1: "notify_top s = Inr s1" "loop_inv k s1" "mn_time_now s1 = mn_time_now s"
    "hsize (timer_heap s1) = 1" "late_cnt (mn_time_now s) (timer_heap s1) < late_cnt (mn_time_now s) (timer_heap s)"
    "wstack s1 = [Tm w]" "same_pend s s1" "at_t (tms s1 w) = max (at_t (tms s w) + repeat (tms s w)) (mn_time_now s)"
    using reschedule_root [OF assms(1,2,5,6)] assms(3,4) by auto
  have len: "1 \<le> length (heap (timer_heap s1))" "1 \<le> length (heap (timer_heap s))"
    using s1(2,4) assms(1,3) by (simp_all add: loop_inv_def core_ok_def heap_inv_def)
  have t1: "take 1 xs = [xs ! 0]" if "1 \<le> length xs" for xs :: "min_heap_t list" using that by (cases xs) auto
  have "\<not> expired s1"
    using s1(3-5) assms(3) t1 [OF len(1)] t1 [OF len(2)]
    by (auto simp: expired_def late_cnt_def heap_top_def split: if_splits)
  then have "notify_loop s = Some (Inr s1)"
    using assms(2) s1(1) by (simp add: notify_loop.simps [of s] notify_loop.simps [of s1])
  let ?f = "feed_event (Tm w) EV_TIMER s1"
  have n: "timer_notify s = Inr (?f\<lparr>wstack := []\<rparr>)"
    using assms(2) \<open>notify_loop s = Some (Inr s1)\<close> s1(6) by (simp add: timer_notify_def invert_feed_done_def)
  have sp: "same_pend ?f (?f\<lparr>wstack := []\<rparr>)" by (rule same_pendI) simp_all
  have sc: "same_core ?f (?f\<lparr>wstack := []\<rparr>)" by (simp add: same_core_def)
  have "queued ?f = feed_map (queued s) (Tm w) EV_TIMER"
    using queued_feed [of s1 "Tm w" EV_TIMER] s1(2) queued_same [OF s1(7)] by (simp add: loop_inv_def feed_map_def)
  moreover have "loop_inv k (?f\<lparr>wstack := []\<rparr>)"
    using feed_event_inv [OF s1(2), of "Tm w" EV_TIMER] same_pend_ok [OF sp] same_core_ok [OF sc] by (simp add: loop_inv_def)
  ultimately show ?thesis
    using n queued_same [OF sp] s1(4,8) same_coreD [OF feed_event_core [of s1 "Tm w" EV_TIMER]]
    by (intro exI [of _ "?f\<lparr>wstack := []\<rparr>"]) simp
qed

text \<open>A loop whose only timer, number 1, was started at time 0.\<close>

definition lone_timer :: "ev_tstamp \<Rightarrow> ev_tstamp \<Rightarrow> ev_loop" where
  "lone_timer after rep = timer_watcher_init 1 after rep 0 0 (init_loop 0 (\<lambda>_. True))"

lemma timer_init_inv:
  "loop_inv k s \<Longrightarrow> pending (tms s w) = 0 \<Longrightarrow> loop_inv k (timer_watcher_init w a r c d s)"
  by (simp add: timer_watcher_init_def idle_tm_inv)

lemma lone_timer_inv: "loop_inv 0 (lone_timer after rep)"
  unfolding lone_timer_def by (rule timer_init_inv [OF loop_inv_init]) (simp add: init_loop_def ev_timer_new_def)

lemma lone_timer_ok:
  "\<exists>s. timer_watcher_start 1 (lone_timer after rep) = Inr s \<and> loop_inv 0 s \<and> hsize (timer_heap s) = 1 \<and>
     wt (heap_top (timer_heap s)) = Some 1 \<and> cache_at (heap_top (timer_heap s)) = after \<and>
     repeat (tms s 1) = rep \<and> wstack s = [] \<and> members (timer_heap s) = {1}"
proof -
  let ?s = "lone_timer after rep"
  have st: "active (tms ?s 1) = 0" "hsize (timer_heap ?s) = 0" "mn_time_now ?s = 0" "at_t (tms ?s 1) = after"
    "repeat (tms ?s 1) = rep" "wstack ?s = []"
    by (simp_all add: lone_timer_def timer_watcher_init_def init_loop_def ev_timer_new_def quad_minheap_new_def)
  obtain s i q ts where s: "timer_watcher_start 1 ?s = Inr s" "loop_inv 0 s" "hsize (timer_heap s) = 1"
    "\<forall>v. repeat (tms s v) = repeat (tms ?s v)" "i < hsize q" "wt (heap q ! i) = Some 1" "heap_inv q ts"
    "timer_heap s = q\<lparr>heap := (heap q)[i := (heap q ! i)\<lparr>cache_at := after\<rparr>]\<rparr>"
    using timer_watcher_start_inv [OF lone_timer_inv, of after rep 1] st by auto
  have i: "i = 0" "hsize q = 1" "0 < length (heap q)" using s(3,5,7,8) by (auto simp: heap_inv_def)
  have "wstack s = []"
    using s(1) st by (auto simp: timer_watcher_start_def bind_res_Inr_conv Let_def split: if_splits)
  moreover have "members (timer_heap s) = {1}"
    using i s(6,8) by (auto simp: members_def watchers_def)
  ultimately show ?thesis
    using s(1-4,6) i s(8) st(5) by (simp add: heap_top_def)
qed

theorem repeating_timer_fires_witness:
  "\<exists>s s'. repeat (tms s 1) = 3 \<and> timer_notify s = Inr s' \<and> queued s' (Tm 1) \<noteq> None"
proof -
  obtain s where s: "loop_inv 0 s" "hsize (timer_heap s) = 1" "wt (heap_top (timer_heap s)) = Some 1"
    "cache_at (heap_top (timer_heap s)) = 5" "repeat (tms s 1) = 3" "wstack s = []"
    using lone_timer_ok [of 5 3] by blast
  let ?s = "s\<lparr>mn_time_now := 10\<rparr>"
  have "expired ?s" using s(2,4) by (simp add: expired_def isempty_def)
  then obtain s' where "timer_notify ?s = Inr s'" "queued s' = feed_map (queued ?s) (Tm 1) EV_TIMER"
    using repeating_timer_fires [OF time_inv [OF s(1)], of 10 1] s(2,3,5,6) by auto
  then show ?thesis using s(5) by (intro exI [of _ ?s] exI [of _ s']) (simp add: feed_map_def)
qed

lemma one_shots_fault:
  assumes "loop_inv k s" "expired s" "root_least (timer_heap s)" "\<forall>w. repeat (tms s w) = 0"
  shows "notify_loop s = Some (Inl NullDeref)"
  using assms
proof (induction "hsize (timer_heap s)" arbitrary: s)
  case 0
  then show ?case by (simp add: expired_def isempty_def)
next
  case (Suc n)
  obtain w where w: "wt (heap_top (timer_heap s)) = Some w" by (rule root_active [OF Suc.prems(1,2)])
  have rep: "repeat (tms s w) = 0" using Suc.prems(4) by simp
  note one = one_shot_root [OF Suc.prems(1,2) w rep]
  show ?case
  proof (cases "n = 0")
    case True
    then have "notify_top s = Inl NullDeref" using one Suc.hyps(2) by simp
    then show ?thesis using Suc.prems(2) by (simp add: notify_loop.simps [of s])
  next
    case False
    then obtain s1 where s1: "notify_top s = Inr s1" "loop_inv k s1" "mn_time_now s1 = mn_time_now s"
      "hsize (timer_heap s1) = hsize (timer_heap s) - 1" "\<forall>v. repeat (tms s1 v) = repeat (tms s v)"
      "heap (timer_heap s1) = adjustheap by_cache (drop_slot (heap (timer_heap s)) (hsize (timer_heap s) - 1) 0)
        (hsize (timer_heap s) - 1) 0"
      using one Suc.hyps(2) by auto
    have len: "hsize (timer_heap s) \<le> length (heap (timer_heap s))" "1 < hsize (timer_heap s)"
      using Suc.prems(1) Suc.hyps(2) False by (simp_all add: loop_inv_def core_ok_def heap_inv_def)
    note c = remove_root_cache [OF len Suc.prems(3) s1(4,6)]
    have "expired s1" using Suc.prems(2) c(1) s1(3,4) len(2) by (simp add: expired_def isempty_def heap_top_def)
    then have "notify_loop s1 = Some (Inl NullDeref)"
      using Suc.hyps(1) [of s1] s1 c(2) Suc.hyps(2) Suc.prems(4) by simp
    then show ?thesis using Suc.prems(2) s1(1) by (simp add: notify_loop.simps [of s])
  qed
qed

text \<open>C33. One-shot timers take the program down: removing a timer leaves its deadline in the cache of the
  slot, so once the earliest one is due all the others are stopped with it, and removing the last timer
  of the heap reads its watcher pointer after it has been cleared.\<close>

theorem one_shot_timers_fault:
  assumes "loop_inv k s" "expired s" "root_least (timer_heap s)" "\<forall>w. repeat (tms s w) = 0"
  shows "timer_notify s = Inl NullDeref"
  using one_shots_fault [OF assms] assms(2) by (simp add: timer_notify_def)

theorem one_shot_timers_fault_witness:
  "\<exists>s. cache_at (heap_top (timer_heap s)) = 5 \<and> mn_time_now s = 10 \<and> timer_notify s = Inl NullDeref"
proof -
  obtain s where s: "timer_watcher_start 1 (lone_timer 5 0) = Inr s" "loop_inv 0 s" "hsize (timer_heap s) = 1"
    "cache_at (heap_top (timer_heap s)) = 5"
    using lone_timer_ok [of 5 0] by blast
  let ?s = "s\<lparr>mn_time_now := 10\<rparr>"
  have st: "repeat (tms (lone_timer 5 0) v) = 0" "active (tms (lone_timer 5 0) 1) = 0" "hsize (timer_heap (lone_timer 5 0)) = 0" for v
    by (simp_all add: lone_timer_def timer_watcher_init_def init_loop_def ev_timer_new_def quad_minheap_new_def)
  have "\<forall>w. repeat (tms s w) = 0" using timer_watcher_start_inv [OF lone_timer_inv, of 5 0 1] s(1) st by auto
  moreover have "expired ?s" using s(3,4) by (simp add: expired_def isempty_def)
  moreover have "root_least (timer_heap ?s)" using s(3) by (simp add: root_least_def)
  ultimately have "timer_notify ?s = Inl NullDeref" by (intro one_shot_timers_fault [OF time_inv [OF s(2)]]) simp_all
  then show ?thesis using s(4) by (intro exI [of _ ?s]) simp
qed

end
