(* ===== verification/Thread_Pool.thy ===== *)
theory Thread_Pool
  imports Conc_Buf
begin

text \<open>
  The thread pool of \<open>thread_pool.h\<close> as a transition system. Its ring is taken at the level of its
  calls (\<open>Conc_Inv\<close> shows that the accesses behind them keep the same invariant): a producer's call
  claims the next number when the slot is free, a consumer's takes the next published one, and either
  may find nothing because of a stale cache. The sections under \<open>mlock_\<close> are single steps, except
  \<open>shutdown\<close>, which keeps the lock while it waits for slots. Clients and workers are numbered; a
  worker's captured \<open>i\<close> is its \<open>windex\<close>.
\<close>

section \<open>State\<close>

datatype worker_pc = WNone | WGet | WTest int | WRun int | WDone int | WLeave | WGone

datatype 'a client_pc =
    CIdle | CPoll 'a | CGrow 'a | CFill 'a int | CPub 'a int
  | SLock | STake int | SMark int int | SPub int int

record 'a pool =
  corePoolSize :: int
  maxPoolSize :: int
  isStop :: bool
  poolSize :: int
  workers :: nat
  mlock :: "nat option"
  qin :: int
  qout :: int
  qfree :: "nat \<Rightarrow> bool"
  qtask :: "nat \<Rightarrow> 'a"
  qfinish :: "nat \<Rightarrow> bool"
  spawned :: nat
  windex :: "nat \<Rightarrow> int"
  wpcs :: "nat \<Rightarrow> worker_pc"
  cpcs :: "nat \<Rightarrow> 'a client_pc"

text \<open>\<open>addTask\<close> (also \<open>addTaskMove\<close>, and \<open>getTaskObjectAndSeq\<close> with \<open>publish_task\<close>) and \<open>shutdown\<close> are
  begun by a client; the boolean of a step is a cache that is stale or a time that is over.\<close>

datatype 'a pool_act = AddTask nat 'a | Shutdown nat | Client nat bool | Worker nat bool

datatype 'a pool_event = Queued int 'a | Ran nat int 'a | Finishing int

text \<open>The constructor; \<open>hw\<close> is what \<open>hardware_concurrency\<close> returns.\<close>

definition pool_sizes :: "int \<Rightarrow> int \<Rightarrow> nat \<Rightarrow> int \<times> int" where
  "pool_sizes core mx hw =
     (let core = (if core \<le> 0 then (if int hw > 1 then int hw div 1 else 1) else core)
      in (core, if mx \<le> 0 \<or> mx < core then core else mx))"

definition ThreadPool :: "int \<Rightarrow> int \<Rightarrow> nat \<Rightarrow> 'a \<Rightarrow> 'a pool" where
  "ThreadPool core mx hw dflt =
     \<lparr>corePoolSize = fst (pool_sizes core mx hw), maxPoolSize = snd (pool_sizes core mx hw), isStop = False,
      poolSize = 0, workers = 0, mlock = None, qin = - 1, qout = - 1, qfree = (\<lambda>_. True), qtask = (\<lambda>_. dflt),
      qfinish = (\<lambda>_. False), spawned = 0, windex = (\<lambda>_. 0), wpcs = (\<lambda>_. WNone), cpcs = (\<lambda>_. CIdle)\<rparr>"

section \<open>Threads\<close>

definition addThread :: "int \<Rightarrow> 'a pool \<Rightarrow> 'a pool" where
  "addThread i s =
     s\<lparr>workers := workers s + 1, poolSize := poolSize s + 1, spawned := spawned s + 1,
       windex := (windex s)(spawned s := i), wpcs := (wpcs s)(spawned s := WGet)\<rparr>"

fun start_loop :: "nat \<Rightarrow> nat \<Rightarrow> 'a pool \<Rightarrow> 'a pool" where
  "start_loop i 0 s = s"
| "start_loop i (Suc n) s = start_loop (i + 1) n (addThread (int i) s)"

definition start :: "'a pool \<Rightarrow> 'a pool" where
  "start s = start_loop 0 (nat (corePoolSize s)) s"

text \<open>\<open>workers_.size() - 1\<close> is unsigned; as an \<open>int\<close> it is \<open>-1\<close> for an empty vector.\<close>

definition addIfUnderMaxPoolSize :: "'a pool \<Rightarrow> 'a pool" where
  "addIfUnderMaxPoolSize s =
     (if poolSize s < maxPoolSize s \<and> isStop s = False then addThread (int (workers s) - 1) s else s)"

text \<open>\<open>erase\<close> needs an iterator into the vector.\<close>

definition rmThread :: "int \<Rightarrow> 'a pool \<Rightarrow> 'a pool res" where
  "rmThread i s =
     (if 0 \<le> i \<and> i < int (workers s) then Inr (s\<lparr>workers := workers s - 1, poolSize := poolSize s - 1\<rparr>)
      else Inl OutOfBounds)"

section \<open>Calls of the ring\<close>

definition can_put :: "nat \<Rightarrow> 'a pool \<Rightarrow> bool" where
  "can_put sz s \<longleftrightarrow> qin s + 1 - int sz \<le> qout s \<and> qfree s (slot_of sz (qin s + 1))"

definition can_get :: "nat \<Rightarrow> 'a pool \<Rightarrow> bool" where
  "can_get sz s \<longleftrightarrow> qout s + 1 \<le> qin s \<and> \<not> qfree s (slot_of sz (qout s + 1))"

definition publish :: "nat \<Rightarrow> int \<Rightarrow> 'a pool \<Rightarrow> 'a pool res" where
  "publish sz n s =
     (if qfree s (slot_of sz n) then Inr (s\<lparr>qfree := (qfree s)(slot_of sz n := False)\<rparr>) else Inl AssertFail)"

definition consumer_done :: "nat \<Rightarrow> int \<Rightarrow> 'a pool \<Rightarrow> 'a pool res" where
  "consumer_done sz n s =
     (if qfree s (slot_of sz n) then Inl AssertFail else Inr (s\<lparr>qfree := (qfree s)(slot_of sz n := True)\<rparr>))"

section \<open>Steps\<close>

definition cgoto :: "nat \<Rightarrow> 'a client_pc \<Rightarrow> 'a pool \<Rightarrow> 'a pool" where
  "cgoto c p s = s\<lparr>cpcs := (cpcs s)(c := p)\<rparr>"

definition wgoto :: "nat \<Rightarrow> worker_pc \<Rightarrow> 'a pool \<Rightarrow> 'a pool" where
  "wgoto t p s = s\<lparr>wpcs := (wpcs s)(t := p)\<rparr>"

definition client_step :: "nat \<Rightarrow> nat \<Rightarrow> bool \<Rightarrow> 'a pool \<Rightarrow> ('a pool \<times> 'a pool_event list) res" where
  "client_step sz c miss s =
     (case cpcs s c of
        CIdle \<Rightarrow> Inr (s, [])
      | CPoll v \<Rightarrow>
          if can_put sz s \<and> \<not> miss then Inr (cgoto c (CFill v (qin s + 1)) (s\<lparr>qin := qin s + 1\<rparr>), [])
          else Inr (cgoto c (CGrow v) s, [])
      | CGrow v \<Rightarrow>
          (case mlock s of
             Some _ \<Rightarrow> Inr (s, [])
           | None \<Rightarrow> Inr (cgoto c (CPoll v) (addIfUnderMaxPoolSize s), []))
      | CFill v n \<Rightarrow>
          Inr (cgoto c (CPub v n) (s\<lparr>qtask := (qtask s)(slot_of sz n := v), qfinish := (qfinish s)(slot_of sz n := False)\<rparr>), [])
      | CPub v n \<Rightarrow> bind_res (publish sz n s) (\<lambda>s. Inr (cgoto c CIdle s, [Queued n v]))
      | SLock \<Rightarrow>
          (case mlock s of
             Some _ \<Rightarrow> Inr (s, [])
           | None \<Rightarrow>
               if isStop s then Inr (cgoto c CIdle s, [])
               else Inr (cgoto c (STake 0) (s\<lparr>mlock := Some c, isStop := True\<rparr>), []))
      | STake i \<Rightarrow>
          if i < poolSize s
          then (if can_put sz s \<and> \<not> miss then Inr (cgoto c (SMark i (qin s + 1)) (s\<lparr>qin := qin s + 1\<rparr>), [])
                else Inr (s, []))
          else Inr (cgoto c CIdle (s\<lparr>mlock := None\<rparr>), [])
      | SMark i n \<Rightarrow> Inr (cgoto c (SPub i n) (s\<lparr>qfinish := (qfinish s)(slot_of sz n := True)\<rparr>), [])
      | SPub i n \<Rightarrow> bind_res (publish sz n s) (\<lambda>s. Inr (cgoto c (STake (i + 1)) s, [Finishing n])))"

definition worker_step :: "nat \<Rightarrow> nat \<Rightarrow> bool \<Rightarrow> 'a pool \<Rightarrow> ('a pool \<times> 'a pool_event list) res" where
  "worker_step sz t miss s =
     (case wpcs s t of
        WNone \<Rightarrow> Inr (s, [])
      | WGet \<Rightarrow>
          if can_get sz s \<and> \<not> miss then Inr (wgoto t (WTest (qout s + 1)) (s\<lparr>qout := qout s + 1\<rparr>), [])
          else if miss \<and> \<not> windex s t < corePoolSize s then Inr (wgoto t WLeave s, [])
          else Inr (s, [])
      | WTest n \<Rightarrow> Inr (wgoto t (if qfinish s (slot_of sz n) then WLeave else WRun n) s, [])
      | WRun n \<Rightarrow> Inr (wgoto t (WDone n) s, [Ran t n (qtask s (slot_of sz n))])
      | WDone n \<Rightarrow> bind_res (consumer_done sz n s) (\<lambda>s. Inr (wgoto t WGet s, []))
      | WLeave \<Rightarrow>
          (case mlock s of
             Some _ \<Rightarrow> Inr (s, [])
           | None \<Rightarrow> bind_res (rmThread (windex s t) s) (\<lambda>s. Inr (wgoto t WGone s, [])))
      | WGone \<Rightarrow> Inr (s, []))"

definition pool_step :: "nat \<Rightarrow> 'a pool_act \<Rightarrow> 'a pool \<Rightarrow> ('a pool \<times> 'a pool_event list) res" where
  "pool_step sz a s =
     (case a of
        AddTask c v \<Rightarrow> Inr (case cpcs s c of CIdle \<Rightarrow> cgoto c (CPoll v) s | _ \<Rightarrow> s, [])
      | Shutdown c \<Rightarrow> Inr (case cpcs s c of CIdle \<Rightarrow> cgoto c SLock s | _ \<Rightarrow> s, [])
      | Client c miss \<Rightarrow> client_step sz c miss s
      | Worker t miss \<Rightarrow> worker_step sz t miss s)"

fun pool_run :: "nat \<Rightarrow> 'a pool_act list \<Rightarrow> 'a pool \<Rightarrow> ('a pool \<times> 'a pool_event list) res" where
  "pool_run sz [] s = Inr (s, [])"
| "pool_run sz (a # as) s =
     bind_res (pool_step sz a s) (\<lambda>(s, es).
     bind_res (pool_run sz as s) (\<lambda>(s, es'). Inr (s, es @ es')))"

interpretation pool_machine: machine "pool_step sz" "pool_run sz" for sz
  by unfold_locales simp_all

lemmas pool_step_defs [step_defs] = pool_step_def client_step_def worker_step_def cgoto_def wgoto_def can_put_def
  can_get_def publish_def consumer_done_def rmThread_def

end
