(* ===== verification/Pool_Inv.thy ===== *)
theory Pool_Inv
  imports Thread_Pool
begin

text \<open>
  What holds of the thread pool in every schedule: the ring's ownership invariant with clients as
  producers and workers as consumers, the contents of the published slots, and the number of threads.
  A worker that leaves because of a finish marker keeps its slot for ever: it never calls
  \<open>consumer_done\<close>.
\<close>

section \<open>Ownership\<close>

definition chold :: "'a client_pc \<Rightarrow> int option" where
  "chold p = (case p of CFill v n \<Rightarrow> Some n | CPub v n \<Rightarrow> Some n | SMark i n \<Rightarrow> Some n | SPub i n \<Rightarrow> Some n | _ \<Rightarrow> None)"

definition whold :: "worker_pc \<Rightarrow> int option" where
  "whold p = (case p of WTest n \<Rightarrow> Some n | WRun n \<Rightarrow> Some n | WDone n \<Rightarrow> Some n | _ \<Rightarrow> None)"

lemma chold_simps [simp]:
  "chold CIdle = None" "chold (CPoll v) = None" "chold (CGrow v) = None" "chold (CFill v n) = Some n"
  "chold (CPub v n) = Some n" "chold SLock = None" "chold (STake i) = None" "chold (SMark i n) = Some n"
  "chold (SPub i n) = Some n"
  by (simp_all add: chold_def)

lemma whold_simps [simp]:
  "whold WNone = None" "whold WGet = None" "whold (WTest n) = Some n" "whold (WRun n) = Some n"
  "whold (WDone n) = Some n" "whold WLeave = None" "whold WGone = None"
  by (simp_all add: whold_def)

definition choice_holder :: "(nat \<Rightarrow> 'a client_pc) \<Rightarrow> holder" where
  "choice_holder C = (\<lambda>c. chold (C c))"

lemma choice_holder_upd [simp]: "choice_holder (C(c := p)) = (choice_holder C)(c := chold p)"
  by (auto simp: choice_holder_def)

definition workers_hold :: "(nat \<Rightarrow> worker_pc) \<Rightarrow> holder \<Rightarrow> bool" where
  "workers_hold W hg \<longleftrightarrow> (\<forall>t. W t \<noteq> WLeave \<and> W t \<noteq> WGone \<longrightarrow> hg t = whold (W t))"

section \<open>Contents\<close>

definition pubs :: "'a pool_event list \<Rightarrow> int list" where
  "pubs es = concat (map (\<lambda>e. case e of Queued n v \<Rightarrow> [n] | Finishing n \<Rightarrow> [n] | _ \<Rightarrow> []) es)"

definition rans :: "'a pool_event list \<Rightarrow> int list" where
  "rans es = concat (map (\<lambda>e. case e of Ran t n v \<Rightarrow> [n] | _ \<Rightarrow> []) es)"

lemma pubs_simps [simp]: "pubs [] = []" "pubs (es @ es') = pubs es @ pubs es'" "pubs [Queued n v] = [n]"
  "pubs [Finishing n] = [n]" "pubs [Ran t n v] = []"
  by (simp_all add: pubs_def)

lemma rans_simps [simp]: "rans [] = []" "rans (es @ es') = rans es @ rans es'" "rans [Queued n v] = []"
  "rans [Finishing n] = []" "rans [Ran t n v] = [n]"
  by (simp_all add: rans_def)

lemma pubs_iff: "n \<in> set (pubs es) \<longleftrightarrow> Finishing n \<in> set es \<or> (\<exists>v. Queued n v \<in> set es)"
  by (induction es) (auto simp: pubs_def split: pool_event.splits)

lemma rans_iff: "n \<in> set (rans es) \<longleftrightarrow> (\<exists>t v. Ran t n v \<in> set es)"
  by (induction es) (auto simp: rans_def split: pool_event.splits)

definition live :: "int \<Rightarrow> int \<Rightarrow> holder \<Rightarrow> holder \<Rightarrow> int \<Rightarrow> bool" where
  "live I Out hp hg n \<longleftrightarrow> Out < n \<and> n \<le> I \<and> \<not> held hp n \<or> held hg n"

definition content_ok :: "nat \<Rightarrow> (nat \<Rightarrow> 'a) \<Rightarrow> (nat \<Rightarrow> bool) \<Rightarrow> 'a pool_event list \<Rightarrow> int \<Rightarrow> bool" where
  "content_ok sz T G es n \<longleftrightarrow>
     (if G (slot_of sz n) then Finishing n \<in> set es else Queued n (T (slot_of sz n)) \<in> set es)"

definition client_ok :: "nat \<Rightarrow> (nat \<Rightarrow> 'a) \<Rightarrow> (nat \<Rightarrow> bool) \<Rightarrow> 'a client_pc \<Rightarrow> bool" where
  "client_ok sz T G p \<longleftrightarrow>
     (case p of
        CPub v n \<Rightarrow> T (slot_of sz n) = v \<and> \<not> G (slot_of sz n)
      | SPub i n \<Rightarrow> G (slot_of sz n)
      | _ \<Rightarrow> True)"

text \<open>The number a worker has taken and not run yet.\<close>

definition wbusy :: "worker_pc \<Rightarrow> int option" where
  "wbusy p = (case p of WTest n \<Rightarrow> Some n | WRun n \<Rightarrow> Some n | _ \<Rightarrow> None)"

lemma wbusy_simps [simp]:
  "wbusy WNone = None" "wbusy WGet = None" "wbusy (WTest n) = Some n" "wbusy (WRun n) = Some n"
  "wbusy (WDone n) = None" "wbusy WLeave = None" "wbusy WGone = None"
  by (simp_all add: wbusy_def)

definition busy :: "(nat \<Rightarrow> worker_pc) \<Rightarrow> int \<Rightarrow> bool" where
  "busy W n \<longleftrightarrow> (\<exists>t. wbusy (W t) = Some n)"

lemma busy_upd: "wbusy (W t) = None \<Longrightarrow> busy (W(t := p)) m \<longleftrightarrow> wbusy p = Some m \<or> busy W m"
  unfolding busy_def fun_upd_apply by (metis option.distinct(1))

lemma busy_keep: "wbusy p = wbusy (W t) \<Longrightarrow> busy (W(t := p)) m = busy W m"
  by (auto simp: busy_def)

definition runs_ok :: "int \<Rightarrow> (nat \<Rightarrow> worker_pc) \<Rightarrow> 'a pool_event list \<Rightarrow> bool" where
  "runs_ok Out W es \<longleftrightarrow> distinct (rans es) \<and>
     (\<forall>t n v. Ran t n v \<in> set es \<longrightarrow> Queued n v \<in> set es \<and> n \<le> Out \<and> \<not> busy W n) \<and>
     (\<forall>n v. Queued n v \<in> set es \<longrightarrow> n \<le> Out \<longrightarrow> n \<in> set (rans es) \<or> busy W n) \<and>
     (\<forall>t n. W t = WRun n \<longrightarrow> Finishing n \<notin> set es)"

definition pubs_ok :: "int \<Rightarrow> holder \<Rightarrow> 'a pool_event list \<Rightarrow> bool" where
  "pubs_ok I hp es \<longleftrightarrow> distinct (pubs es) \<and> (\<forall>n \<in> set (pubs es). n \<le> I \<and> \<not> held hp n)"

definition pool_ok :: "nat \<Rightarrow> holder \<Rightarrow> 'a pool_event list \<Rightarrow> 'a pool \<Rightarrow> bool" where
  "pool_ok sz hg es s \<longleftrightarrow>
     ring_inv sz (qin s) (qout s) (qfree s) (choice_holder (cpcs s)) hg \<and> workers_hold (wpcs s) hg \<and>
     (\<forall>n. live (qin s) (qout s) (choice_holder (cpcs s)) hg n \<longrightarrow> content_ok sz (qtask s) (qfinish s) es n) \<and>
     (\<forall>c. client_ok sz (qtask s) (qfinish s) (cpcs s c)) \<and>
     pubs_ok (qin s) (choice_holder (cpcs s)) es \<and> runs_ok (qout s) (wpcs s) es"

lemma pool_okD:
  assumes "pool_ok sz hg es s"
  shows "ring_inv sz (qin s) (qout s) (qfree s) (choice_holder (cpcs s)) hg" "workers_hold (wpcs s) hg"
    "\<And>n. live (qin s) (qout s) (choice_holder (cpcs s)) hg n \<Longrightarrow> content_ok sz (qtask s) (qfinish s) es n"
    "\<And>c. client_ok sz (qtask s) (qfinish s) (cpcs s c)"
    "pubs_ok (qin s) (choice_holder (cpcs s)) es" "runs_ok (qout s) (wpcs s) es"
  using assms by (simp_all add: pool_ok_def)

lemma busy_hold: "workers_hold W hg \<Longrightarrow> wbusy (W t) = Some n \<Longrightarrow> hg t = Some n"
  unfolding workers_hold_def by (cases "W t") (auto dest: spec [of _ t])

lemma busy_leave:
  assumes "workers_hold W hg" "unique_holder hg" "wbusy (W t) = Some n" "wbusy p = None"
  shows "busy (W(t := p)) m \<longleftrightarrow> m \<noteq> n \<and> busy W m"
proof -
  have "u = t" if "wbusy (W u) = Some n" for u
    using busy_hold [OF assms(1) that] busy_hold [OF assms(1,3)] assms(2) unfolding unique_holder_def by blast
  then show ?thesis using assms(3,4) unfolding busy_def fun_upd_apply by (metis option.distinct(1) option.inject)
qed

text \<open>A slot that is being filled is not one whose contents matter.\<close>

lemma live_range:
  assumes "ring_inv sz I Out F hp hg" "live I Out hp hg n"
  shows "I - int sz < n" "n \<le> I" "\<not> held hp n"
proof -
  note d = ring_invD [OF assms(1)]
  show "I - int sz < n" "n \<le> I" using assms(2) d(3,4) d(8) [of n] by (auto simp: live_def)
  show "\<not> held hp n" using assms(2) d(7) [of n] d(8) [of n] by (auto simp: live_def)
qed

lemma held_range:
  assumes "ring_inv sz I Out F hp hg" "held hp n"
  shows "I - int sz < n" "n \<le> I" "Out < n" "F (slot_of sz n)"
proof -
  note d = ring_invD [OF assms(1)]
  show r: "I - int sz < n" "n \<le> I" "Out < n" using assms(2) d(4) d(7) [of n] by auto
  show "F (slot_of sz n)" using r assms(2) d(9) [of n] by simp
qed

lemma fill_slot:
  assumes "ring_inv sz I Out F hp hg" "held hp n" "live I Out hp hg m"
  shows "slot_of sz m \<noteq> slot_of sz n"
proof
  assume "slot_of sz m = slot_of sz n"
  then have "m = n"
    using slot_of_inj [OF ring_invD(1) [OF assms(1)]] live_range [OF assms(1,3)] held_range [OF assms(1,2)] by simp
  then show False using live_range(3) [OF assms(1,3)] assms(2) by simp
qed

lemma fill_other:
  assumes "ring_inv sz I Out F hp hg" "hp c = Some n" "hp d = Some m" "d \<noteq> c"
  shows "slot_of sz m \<noteq> slot_of sz n"
proof
  assume "slot_of sz m = slot_of sz n"
  then have "m = n"
    using slot_of_inj [OF ring_invD(1) [OF assms(1)]] held_range [OF assms(1) heldI [of hp c n, OF assms(2)]]
      held_range [OF assms(1) heldI [of hp d m, OF assms(3)]] by simp
  then show False using ring_invD(5) [OF assms(1)] assms(2-4) by (auto simp: unique_holder_def)
qed

section \<open>Steps of clients\<close>

lemma workers_hold_keep: "workers_hold W hg \<Longrightarrow> W' = W \<Longrightarrow> workers_hold W' hg" by simp

text \<open>A step that only moves a client between counters that own nothing.\<close>

lemma pool_ok_client:
  assumes ok: "pool_ok sz hg es s" and c: "chold p = chold (cpcs s c)" "client_ok sz (qtask s) (qfinish s) p"
    and s': "s' = cgoto c p (s\<lparr>mlock := l, isStop := b\<rparr>)"
  shows "pool_ok sz hg es s'"
proof -
  have h: "choice_holder ((cpcs s)(c := p)) = choice_holder (cpcs s)" using c(1) by (auto simp: choice_holder_def)
  show ?thesis using ok c(2) unfolding s' pool_ok_def by (simp add: cgoto_def h del: choice_holder_upd)
qed

lemma pool_ok_lock: "pool_ok sz hg es (s\<lparr>mlock := l, isStop := b\<rparr>) = pool_ok sz hg es s"
  by (simp add: pool_ok_def)

lemma pool_ok_claim:
  assumes ok: "pool_ok sz hg es s" and c: "chold (cpcs s c) = None" and put: "can_put sz s"
    and p: "chold p = Some (qin s + 1)" "client_ok sz (qtask s) (qfinish s) p"
  shows "pool_ok sz hg es (cgoto c p (s\<lparr>qin := qin s + 1\<rparr>))"
proof -
  note d = pool_okD [OF ok]
  let ?hp = "choice_holder (cpcs s)" and ?hp' = "choice_holder ((cpcs s)(c := p))"
  have n: "?hp c = None" using c by (simp add: choice_holder_def)
  have h: "held ?hp' m \<longleftrightarrow> m = qin s + 1 \<or> held ?hp m" for m
    using n p(1) held_upd_Some [of ?hp c "qin s + 1" m] by simp
  have "ring_inv sz (qin s + 1) (qout s) (qfree s) ?hp' hg"
    using ring_claim_put [OF d(1) n] put p(1) by (simp add: can_put_def)
  moreover have "live (qin s + 1) (qout s) ?hp' hg m \<Longrightarrow> live (qin s) (qout s) ?hp hg m" for m
    unfolding live_def h by auto
  moreover have "pubs_ok (qin s + 1) ?hp' es" using d(5) unfolding pubs_ok_def h by fastforce
  ultimately show ?thesis using d p(2) by (simp add: pool_ok_def cgoto_def del: choice_holder_upd)
qed

lemma pool_ok_fill:
  assumes ok: "pool_ok sz hg es s" and c: "chold (cpcs s c) = Some n" "chold p = Some n"
    and p: "client_ok sz ((qtask s)(slot_of sz n := v)) ((qfinish s)(slot_of sz n := b)) p"
  shows "pool_ok sz hg es (cgoto c p (s\<lparr>qtask := (qtask s)(slot_of sz n := v), qfinish := (qfinish s)(slot_of sz n := b)\<rparr>))"
proof -
  note d = pool_okD [OF ok]
  let ?hp = "choice_holder (cpcs s)"
  have h: "choice_holder ((cpcs s)(c := p)) = ?hp" using c by (auto simp: choice_holder_def)
  have hc: "?hp c = Some n" using c by (simp add: choice_holder_def)
  have "content_ok sz ((qtask s)(slot_of sz n := v)) ((qfinish s)(slot_of sz n := b)) es m"
    if "live (qin s) (qout s) ?hp hg m" for m
    using d(3) [OF that] fill_slot [OF d(1) heldI [of ?hp c n, OF hc] that] by (simp add: content_ok_def)
  moreover have "client_ok sz ((qtask s)(slot_of sz n := v)) ((qfinish s)(slot_of sz n := b)) (cpcs s e)" if "e \<noteq> c" for e
  proof -
    have "slot_of sz m \<noteq> slot_of sz n" if "chold (cpcs s e) = Some m" for m
      using fill_other [OF d(1) hc _ \<open>e \<noteq> c\<close>] that by (simp add: choice_holder_def)
    then show ?thesis using d(4) [of e] by (cases "cpcs s e") (simp_all add: client_ok_def)
  qed
  ultimately show ?thesis using d p by (simp add: pool_ok_def cgoto_def h del: choice_holder_upd)
qed

lemma content_mono: "content_ok sz T G es n \<Longrightarrow> content_ok sz T G (es @ es') n"
  by (auto simp: content_ok_def)

lemma runs_pub:
  assumes "runs_ok Out W es" "Out < n" "\<And>t. W t \<noteq> WRun n" "e = Queued n v \<or> e = Finishing n"
  shows "runs_ok Out W (es @ [e])"
  using assms unfolding runs_ok_def by (elim disjE) auto

lemma pool_ok_publish:
  assumes ok: "pool_ok sz hg es s" and c: "chold (cpcs s c) = Some n" "chold p = None" "client_ok sz (qtask s) (qfinish s) p"
    and e: "e = (if qfinish s (slot_of sz n) then Finishing n else Queued n (qtask s (slot_of sz n)))"
  shows "\<exists>s1. publish sz n s = Inr s1 \<and> pool_ok sz hg (es @ [e]) (cgoto c p s1)"
proof -
  note d = pool_okD [OF ok]
  let ?hp = "choice_holder (cpcs s)" and ?hp' = "choice_holder ((cpcs s)(c := p))" and ?F = "(qfree s)(slot_of sz n := False)"
  have hc: "?hp c = Some n" using c by (simp add: choice_holder_def)
  note r = held_range [OF d(1) heldI [of ?hp c n, OF hc]]
  have pub: "publish sz n s = Inr (s\<lparr>qfree := ?F\<rparr>)" using r(4) by (simp add: publish_def)
  have h: "held ?hp' m \<longleftrightarrow> m \<noteq> n \<and> held ?hp m" for m
    using held_upd_None [OF ring_invD(5) [OF d(1)] hc] c(2) by simp
  have "ring_inv sz (qin s) (qout s) ?F ?hp' hg" using ring_publish [OF d(1) hc] c(2) by simp
  moreover have "content_ok sz (qtask s) (qfinish s) (es @ [e]) m" if "live (qin s) (qout s) ?hp' hg m" for m
  proof (cases "m = n")
    case False
    then have "live (qin s) (qout s) ?hp hg m" using that unfolding live_def h by auto
    then show ?thesis using d(3) content_mono by blast
  qed (simp add: e content_ok_def)
  moreover have "n \<notin> set (pubs es)" using d(5) heldI [of ?hp c n, OF hc] by (auto simp: pubs_ok_def)
  then have "pubs_ok (qin s) ?hp' (es @ [e])" using d(5) r(2) unfolding pubs_ok_def h by (auto simp: e)
  moreover have "wpcs s t \<noteq> WRun n" for t
  proof
    assume "wpcs s t = WRun n"
    then have "hg t = Some n" using d(2) by (simp add: workers_hold_def)
    then show False using ring_invD(8) [OF d(1) heldI [of hg t n]] r(3) by simp
  qed
  then have "runs_ok (qout s) (wpcs s) (es @ [e])" using runs_pub [OF d(6) r(3)] e by (metis (full_types))
  ultimately show ?thesis
    using pub d c(3) by (simp add: pool_ok_def cgoto_def del: choice_holder_upd)
qed

section \<open>Steps of workers\<close>

lemma pool_ok_worker:
  assumes ok: "pool_ok sz hg es s"
    and t: "wpcs s t \<noteq> WLeave \<and> wpcs s t \<noteq> WGone \<and> whold p = whold (wpcs s t) \<or> p = WLeave \<or> p = WGone"
    and r: "runs_ok (qout s) ((wpcs s)(t := p)) (es @ es')" and e: "pubs es' = []"
  shows "pool_ok sz hg (es @ es') (wgoto t p s)"
proof -
  note d = pool_okD [OF ok]
  have "workers_hold ((wpcs s)(t := p)) hg" using d(2) t by (auto simp: workers_hold_def)
  moreover have "pubs_ok (qin s) (choice_holder (cpcs s)) (es @ es')" using d(5) e by (simp add: pubs_ok_def)
  moreover have "\<forall>n. live (qin s) (qout s) (choice_holder (cpcs s)) hg n \<longrightarrow> content_ok sz (qtask s) (qfinish s) (es @ es') n"
    using d(3) content_mono by blast
  ultimately show ?thesis using d r by (simp add: pool_ok_def wgoto_def)
qed

lemma pool_ok_take:
  assumes ok: "pool_ok sz hg es s" and t: "wpcs s t = WGet" and g: "can_get sz s"
  shows "pool_ok sz (hg(t := Some (qout s + 1))) es (wgoto t (WTest (qout s + 1)) (s\<lparr>qout := qout s + 1\<rparr>))"
proof -
  note d = pool_okD [OF ok]
  let ?hp = "choice_holder (cpcs s)" and ?n = "qout s + 1" and ?W = "(wpcs s)(t := WTest (qout s + 1))"
  have ht: "hg t = None" using d(2) t by (simp add: workers_hold_def)
  have h: "held (hg(t := Some ?n)) m \<longleftrightarrow> m = ?n \<or> held hg m" for m
    using held_upd_Some [of hg t ?n m, OF ht] .
  have np: "\<not> held ?hp ?n" using held_range(4) [OF d(1), of ?n] g by (auto simp: can_get_def)
  have "ring_inv sz (qin s) ?n (qfree s) ?hp (hg(t := Some ?n))"
    using ring_claim_get [OF d(1) ht] g by (simp add: can_get_def)
  moreover have "workers_hold ?W (hg(t := Some ?n))" using d(2) by (simp add: workers_hold_def)
  moreover have "live (qin s) ?n ?hp (hg(t := Some ?n)) m \<Longrightarrow> live (qin s) (qout s) ?hp hg m" for m
    using np g unfolding live_def h can_get_def by auto
  moreover have "runs_ok ?n ?W es"
  proof -
    have b: "busy ?W m \<longleftrightarrow> m = ?n \<or> busy (wpcs s) m" for m using t by (auto simp: busy_upd)
    have le: "n \<le> ?n \<longleftrightarrow> n = ?n \<or> n \<le> qout s" for n by auto
    have "Ran u ?n v \<notin> set es" for u v
    proof
      assume "Ran u ?n v \<in> set es"
      then have "?n \<le> qout s" using d(6) unfolding runs_ok_def by blast
      then show False by simp
    qed
    then show ?thesis using d(6) unfolding runs_ok_def b le by (auto split: if_splits)
  qed
  ultimately show ?thesis using d by (auto simp: pool_ok_def wgoto_def)
qed

lemma pool_ok_done:
  assumes ok: "pool_ok sz hg es s" and t: "wpcs s t = WDone n"
  shows "\<exists>s1. consumer_done sz n s = Inr s1 \<and> pool_ok sz (hg(t := None)) es (wgoto t WGet s1)"
proof -
  note d = pool_okD [OF ok]
  let ?hp = "choice_holder (cpcs s)" and ?F = "(qfree s)(slot_of sz n := True)"
  have ht: "hg t = Some n" using d(2) t by (simp add: workers_hold_def)
  have n: "qin s - int sz < n" "n \<le> qout s" using ring_invD(8) [OF d(1) heldI [of hg t n, OF ht]] by auto
  have "\<not> qfree s (slot_of sz n)"
    using ring_invD(9) [OF d(1), of n] n ring_invD(3) [OF d(1)] heldI [of hg t n, OF ht] by simp
  then have c: "consumer_done sz n s = Inr (s\<lparr>qfree := ?F\<rparr>)" by (simp add: consumer_done_def)
  have h: "held (hg(t := None)) m \<longleftrightarrow> m \<noteq> n \<and> held hg m" for m
    using held_upd_None [OF ring_invD(6) [OF d(1)] ht] .
  have "ring_inv sz (qin s) (qout s) ?F ?hp (hg(t := None))" using ring_done [OF d(1) ht] .
  moreover have "workers_hold ((wpcs s)(t := WGet)) (hg(t := None))" using d(2) by (simp add: workers_hold_def)
  moreover have "live (qin s) (qout s) ?hp (hg(t := None)) m \<Longrightarrow> live (qin s) (qout s) ?hp hg m" for m
    unfolding live_def h by auto
  moreover have "busy ((wpcs s)(t := WGet)) m = busy (wpcs s) m" for m using t by (simp add: busy_keep)
  then have "runs_ok (qout s) ((wpcs s)(t := WGet)) es" using d(6) unfolding runs_ok_def by auto
  ultimately show ?thesis using c d by (auto simp: pool_ok_def wgoto_def)
qed

text \<open>A number is published once, as a task or as a finish marker.\<close>

lemma pubs_excl: "distinct (pubs es) \<Longrightarrow> \<not> (Finishing n \<in> set es \<and> Queued n v \<in> set es)"
proof (induction es)
  case (Cons e es)
  have p: "pubs (e # es) = pubs [e] @ pubs es" by (simp add: pubs_def)
  then show ?case using Cons p by (cases e) (auto simp: pubs_iff)
qed simp

lemma pool_ok_test:
  assumes ok: "pool_ok sz hg es s" and t: "wpcs s t = WTest n"
  shows "pool_ok sz hg es (wgoto t (if qfinish s (slot_of sz n) then WLeave else WRun n) s)"
proof -
  note d = pool_okD [OF ok]
  let ?p = "if qfinish s (slot_of sz n) then WLeave else WRun n"
  have ht: "hg t = Some n" using d(2) t by (simp add: workers_hold_def)
  then have "live (qin s) (qout s) (choice_holder (cpcs s)) hg n" by (simp add: live_def heldI [of hg t])
  then have cn: "content_ok sz (qtask s) (qfinish s) es n" by (rule d(3))
  have ex: "\<not> (Finishing n \<in> set es \<and> Queued n v \<in> set es)" for v
    using pubs_excl [of es n v] d(5) by (simp add: pubs_ok_def)
  have "runs_ok (qout s) ((wpcs s)(t := ?p)) es"
  proof (cases "qfinish s (slot_of sz n)")
    case True
    have b: "busy ((wpcs s)(t := WLeave)) m \<longleftrightarrow> m \<noteq> n \<and> busy (wpcs s) m" for m
      by (rule busy_leave [OF d(2) ring_invD(6) [OF d(1)]]) (simp_all add: t)
    have "Queued n v \<notin> set es" for v using cn True ex by (auto simp: content_ok_def)
    then show ?thesis using d(6) True unfolding runs_ok_def by (simp add: b) blast
  next
    case False
    have b: "busy ((wpcs s)(t := WRun n)) m = busy (wpcs s) m" for m by (rule busy_keep) (simp add: t)
    have "Finishing n \<notin> set es" using cn False ex by (auto simp: content_ok_def)
    then show ?thesis using d(6) False unfolding runs_ok_def by (simp add: b)
  qed
  then show ?thesis using pool_ok_worker [OF ok, of t ?p "[]"] t by simp
qed

lemma pool_ok_run:
  assumes ok: "pool_ok sz hg es s" and t: "wpcs s t = WRun n"
  shows "pool_ok sz hg (es @ [Ran t n (qtask s (slot_of sz n))]) (wgoto t (WDone n) s)"
proof -
  note d = pool_okD [OF ok]
  let ?v = "qtask s (slot_of sz n)"
  have ht: "hg t = Some n" using d(2) t by (simp add: workers_hold_def)
  then have "live (qin s) (qout s) (choice_holder (cpcs s)) hg n" by (simp add: live_def heldI [of hg t])
  then have cn: "content_ok sz (qtask s) (qfinish s) es n" by (rule d(3))
  have b: "busy ((wpcs s)(t := WDone n)) m \<longleftrightarrow> m \<noteq> n \<and> busy (wpcs s) m" for m
    by (rule busy_leave [OF d(2) ring_invD(6) [OF d(1)]]) (simp_all add: t)
  have q: "Queued n ?v \<in> set es" using cn d(6) t by (auto simp: content_ok_def runs_ok_def split: if_splits)
  have le: "n \<le> qout s" using ring_invD(8) [OF d(1) heldI [of hg t n, OF ht]] by simp
  have bn: "busy (wpcs s) n" using t by (auto simp: busy_def intro: exI [of _ t])
  then have "n \<notin> set (rans es)" using d(6) by (auto simp: rans_iff runs_ok_def)
  then have "runs_ok (qout s) ((wpcs s)(t := WDone n)) (es @ [Ran t n ?v])"
    using d(6) q le unfolding runs_ok_def by (simp add: b) blast
  then show ?thesis using pool_ok_worker [OF ok, of t "WDone n" "[Ran t n ?v]"] t by simp
qed

lemma pool_ok_leave:
  assumes ok: "pool_ok sz hg es s" and t: "wpcs s t = WGet \<or> wpcs s t = WLeave" and p: "p = WLeave \<or> p = WGone"
  shows "pool_ok sz hg es (wgoto t p s)"
proof -
  have b: "busy ((wpcs s)(t := p)) m = busy (wpcs s) m" for m by (rule busy_keep) (use t p in auto)
  have "runs_ok (qout s) ((wpcs s)(t := p)) es"
    using pool_okD(6) [OF ok] p unfolding runs_ok_def by (auto simp: b)
  then show ?thesis using pool_ok_worker [OF ok, of t p "[]"] p by auto
qed

section \<open>The number of threads\<close>

definition live_threads :: "'a pool \<Rightarrow> nat set" where
  "live_threads s = {t. t < spawned s \<and> wpcs s t \<noteq> WGone}"

definition count_ok :: "'a pool \<Rightarrow> bool" where
  "count_ok s \<longleftrightarrow> (\<forall>t. spawned s \<le> t \<longleftrightarrow> wpcs s t = WNone) \<and> poolSize s = int (workers s) \<and>
     workers s = card (live_threads s) \<and> poolSize s \<le> maxPoolSize s"

lemma finite_live [simp]: "finite (live_threads s)" by (simp add: live_threads_def)

lemma live_threads_cong:
  "wpcs s' = wpcs s \<Longrightarrow> spawned s' = spawned s \<Longrightarrow> live_threads s' = live_threads s"
  by (simp add: live_threads_def)

lemma count_ok_cong:
  "wpcs s' = wpcs s \<Longrightarrow> spawned s' = spawned s \<Longrightarrow> poolSize s' = poolSize s \<Longrightarrow> workers s' = workers s \<Longrightarrow>
   maxPoolSize s' = maxPoolSize s \<Longrightarrow> count_ok s' = count_ok s"
  using live_threads_cong [of s' s] by (simp add: count_ok_def)

lemma count_ok_move:
  assumes "count_ok s" "wpcs s t \<noteq> WNone" "p \<noteq> WNone" "p \<noteq> WGone" "wpcs s t \<noteq> WGone"
  shows "count_ok (wgoto t p s)"
proof -
  have "live_threads (wgoto t p s) = live_threads s" using assms by (auto simp: live_threads_def wgoto_def)
  then show ?thesis using assms by (auto simp: count_ok_def wgoto_def)
qed

lemma count_ok_add:
  assumes "count_ok s" "poolSize s < maxPoolSize s"
  shows "count_ok (addThread i s)"
proof -
  have n: "wpcs s (spawned s) = WNone" using assms(1) by (auto simp: count_ok_def)
  have "live_threads (addThread i s) = insert (spawned s) (live_threads s)"
    by (auto simp: live_threads_def addThread_def less_Suc_eq)
  moreover have "spawned s \<notin> live_threads s" by (simp add: live_threads_def)
  moreover have "(spawned s + 1 \<le> t) = (((wpcs s)(spawned s := WGet)) t = WNone)" for t
    using assms(1) by (cases "t = spawned s") (auto simp: count_ok_def Suc_le_eq order_less_le)
  ultimately show ?thesis using assms by (simp add: count_ok_def addThread_def)
qed

lemma count_ok_remove:
  assumes "count_ok s" "wpcs s t = WLeave" "rmThread i s = Inr s1"
  shows "count_ok (wgoto t WGone s1)"
proof -
  have s1: "s1 = s\<lparr>workers := workers s - 1, poolSize := poolSize s - 1\<rparr>" "0 < workers s"
    using assms(3) by (auto simp: rmThread_def split: if_splits)
  have t: "t < spawned s" using assms(1,2) unfolding count_ok_def by (metis not_le worker_pc.distinct(9))
  then have "t \<in> live_threads s" using assms(2) by (simp add: live_threads_def)
  moreover have "live_threads (wgoto t WGone s1) = live_threads s - {t}"
    by (auto simp: live_threads_def wgoto_def s1)
  moreover have "wpcs (wgoto t WGone s1) = (wpcs s)(t := WGone)" by (simp add: wgoto_def s1)
  ultimately show ?thesis using assms(1,2) s1(2) t by (auto simp: count_ok_def wgoto_def s1)
qed

lemma pool_ok_add:
  assumes "pool_ok sz hg es s" "count_ok s"
  shows "pool_ok sz hg es (addThread i s)"
proof -
  note d = pool_okD [OF assms(1)]
  have n: "wpcs s (spawned s) = WNone" using assms(2) by (auto simp: count_ok_def)
  have "busy ((wpcs s)(spawned s := WGet)) m = busy (wpcs s) m" for m by (rule busy_keep) (simp add: n)
  then have "runs_ok (qout s) ((wpcs s)(spawned s := WGet)) es" using d(6) unfolding runs_ok_def by auto
  moreover have "workers_hold ((wpcs s)(spawned s := WGet)) hg" using d(2) n by (auto simp: workers_hold_def)
  ultimately show ?thesis using d by (simp add: pool_ok_def addThread_def)
qed

section \<open>Every step keeps the invariant\<close>

definition pool_inv :: "nat \<Rightarrow> 'a pool_event list \<Rightarrow> 'a pool \<Rightarrow> bool" where
  "pool_inv sz es s \<longleftrightarrow> (\<exists>hg. pool_ok sz hg es s) \<and> count_ok s"

lemma pool_invE:
  assumes "pool_inv sz es s"
  obtains hg where "pool_ok sz hg es s" "count_ok s"
  using assms by (auto simp: pool_inv_def)

lemma pool_inv_grow: "pool_inv sz es s \<Longrightarrow> pool_inv sz es (addIfUnderMaxPoolSize s)"
  by (auto simp: pool_inv_def addIfUnderMaxPoolSize_def count_ok_add intro: pool_ok_add)

lemma count_ok_cgoto [simp]: "count_ok (cgoto c p s) = count_ok s"
  by (rule count_ok_cong) (simp_all add: cgoto_def)

lemma pool_inv_client:
  assumes "pool_inv sz es s" "chold p = chold (cpcs s c)" "client_ok sz (qtask s) (qfinish s) p"
  shows "pool_inv sz es (cgoto c p (s\<lparr>mlock := l, isStop := b\<rparr>))"
proof -
  obtain hg where hg: "pool_ok sz hg es s" "count_ok s" using assms(1) by (rule pool_invE)
  have "count_ok (s\<lparr>mlock := l, isStop := b\<rparr>) = count_ok s" by (rule count_ok_cong) simp_all
  then show ?thesis using pool_ok_client [OF hg(1) assms(2,3) refl] hg(2) by (auto simp: pool_inv_def)
qed

lemma pool_inv_goto:
  "pool_inv sz es s \<Longrightarrow> chold p = chold (cpcs s c) \<Longrightarrow> client_ok sz (qtask s) (qfinish s) p \<Longrightarrow> pool_inv sz es (cgoto c p s)"
  using pool_inv_client [where l = "mlock s" and b = "isStop s" and s = s] by simp

lemma pool_inv_claim:
  assumes "pool_inv sz es s" "chold (cpcs s c) = None" "can_put sz s" "p = CFill v (qin s + 1) \<or> p = SMark i (qin s + 1)"
  shows "pool_inv sz es (cgoto c p (s\<lparr>qin := qin s + 1\<rparr>))"
proof -
  obtain hg where hg: "pool_ok sz hg es s" "count_ok s" using assms(1) by (rule pool_invE)
  have "count_ok (s\<lparr>qin := qin s + 1\<rparr>) = count_ok s" by (rule count_ok_cong) simp_all
  moreover have "chold p = Some (qin s + 1)" "client_ok sz (qtask s) (qfinish s) p"
    using assms(4) by (auto simp: client_ok_def)
  ultimately show ?thesis using pool_ok_claim [OF hg(1) assms(2,3)] hg(2) by (auto simp: pool_inv_def)
qed

lemma pool_inv_fill:
  assumes "pool_inv sz es s" "chold (cpcs s c) = Some n" "chold p = Some n"
    "client_ok sz ((qtask s)(slot_of sz n := v)) ((qfinish s)(slot_of sz n := b)) p"
  shows "pool_inv sz es (cgoto c p (s\<lparr>qtask := (qtask s)(slot_of sz n := v), qfinish := (qfinish s)(slot_of sz n := b)\<rparr>))"
proof -
  obtain hg where hg: "pool_ok sz hg es s" "count_ok s" using assms(1) by (rule pool_invE)
  have "count_ok (s\<lparr>qtask := T, qfinish := G\<rparr>) = count_ok s" for T G by (rule count_ok_cong) simp_all
  then show ?thesis using pool_ok_fill [OF hg(1) assms(2-4)] hg(2) by (auto simp: pool_inv_def)
qed

lemma pool_inv_publish:
  assumes "pool_inv sz es s" "chold (cpcs s c) = Some n" "chold p = None" "client_ok sz (qtask s) (qfinish s) p"
    "e = (if qfinish s (slot_of sz n) then Finishing n else Queued n (qtask s (slot_of sz n)))"
  shows "\<exists>s1. publish sz n s = Inr s1 \<and> pool_inv sz (es @ [e]) (cgoto c p s1)"
proof -
  obtain hg where hg: "pool_ok sz hg es s" "count_ok s" using assms(1) by (rule pool_invE)
  obtain s1 where s1: "publish sz n s = Inr s1" "pool_ok sz hg (es @ [e]) (cgoto c p s1)"
    using pool_ok_publish [OF hg(1) assms(2-5)] by blast
  have "count_ok s1 = count_ok s"
    using s1(1) by (intro count_ok_cong) (auto simp: publish_def split: if_splits)
  then show ?thesis using s1 hg(2) by (auto simp: pool_inv_def)
qed

lemma pub_client:
  assumes "pool_inv sz es s"
  shows "cpcs s c = CPub v n \<Longrightarrow> \<exists>s1. publish sz n s = Inr s1 \<and> pool_inv sz (es @ [Queued n v]) (cgoto c CIdle s1)"
    "cpcs s c = SPub i n \<Longrightarrow> \<exists>s1. publish sz n s = Inr s1 \<and> pool_inv sz (es @ [Finishing n]) (cgoto c (STake (i + 1)) s1)"
proof -
  have c: "client_ok sz (qtask s) (qfinish s) (cpcs s c)" using assms pool_okD(4) by (auto simp: pool_inv_def)
  show "cpcs s c = CPub v n \<Longrightarrow> \<exists>s1. publish sz n s = Inr s1 \<and> pool_inv sz (es @ [Queued n v]) (cgoto c CIdle s1)"
    using c by (intro pool_inv_publish [OF assms]) (auto simp: client_ok_def)
  show "cpcs s c = SPub i n \<Longrightarrow> \<exists>s1. publish sz n s = Inr s1 \<and> pool_inv sz (es @ [Finishing n]) (cgoto c (STake (i + 1)) s1)"
    using c by (intro pool_inv_publish [OF assms]) (auto simp: client_ok_def)
qed

lemma client_step_ok:
  assumes inv: "pool_inv sz es s"
  shows "\<exists>s' e. client_step sz c miss s = Inr (s', e) \<and> pool_inv sz (es @ e) s'"
proof (cases "cpcs s c")
  case (CPoll v)
  then show ?thesis
    using pool_inv_claim [OF inv, of c] pool_inv_goto [OF inv, of "CGrow v" c]
    by (auto simp: client_step_def client_ok_def)
next
  case (CGrow v)
  then have "cpcs (addIfUnderMaxPoolSize s) c = CGrow v" by (simp add: addIfUnderMaxPoolSize_def addThread_def)
  then have "pool_inv sz es (cgoto c (CPoll v) (addIfUnderMaxPoolSize s))"
    by (intro pool_inv_goto pool_inv_grow inv) (simp_all add: client_ok_def)
  then show ?thesis using CGrow inv by (simp add: client_step_def split: option.splits)
next
  case (CFill v n)
  then show ?thesis using pool_inv_fill [OF inv, of c n "CPub v n" v False] by (simp add: client_step_def client_ok_def)
next
  case (CPub v n)
  then show ?thesis using pub_client(1) [OF inv CPub] by (auto simp: client_step_def)
next
  case SLock
  then show ?thesis
    using inv pool_inv_goto [OF inv, of CIdle c] pool_inv_client [OF inv, of "STake 0" c True "Some c"]
    by (auto simp: client_step_def client_ok_def split: option.splits)
next
  case (STake i)
  then show ?thesis
    using inv pool_inv_claim [OF inv, of c] pool_inv_client [OF inv, of CIdle c "isStop s" None]
    by (auto simp: client_step_def client_ok_def)
next
  case (SMark i n)
  then show ?thesis
    using pool_inv_fill [OF inv, of c n "SPub i n" "qtask s (slot_of sz n)" True] by (simp add: client_step_def client_ok_def)
next
  case (SPub i n)
  then show ?thesis using pub_client(2) [OF inv SPub] by (auto simp: client_step_def)
qed (use inv in \<open>simp add: client_step_def\<close>)

lemma worker_step_ok:
  assumes inv: "pool_inv sz es s"
  shows "worker_step sz t miss s = Inl OutOfBounds \<or>
    (\<exists>s' e. worker_step sz t miss s = Inr (s', e) \<and> pool_inv sz (es @ e) s')"
proof -
  obtain hg where hg: "pool_ok sz hg es s" "count_ok s" using inv by (rule pool_invE)
  show ?thesis
  proof (cases "wpcs s t")
    case WGet
    have "count_ok (s\<lparr>qout := qout s + 1\<rparr>) = count_ok s" by (rule count_ok_cong) simp_all
    then have "count_ok (wgoto t (WTest (qout s + 1)) (s\<lparr>qout := qout s + 1\<rparr>))" "count_ok (wgoto t WLeave s)"
      using hg(2) WGet by (auto intro!: count_ok_move)
    then show ?thesis
      using WGet inv pool_ok_take [OF hg(1) WGet] pool_ok_leave [OF hg(1), of t WLeave]
      by (auto simp: worker_step_def pool_inv_def)
  next
    case (WTest n)
    have "count_ok (wgoto t (if qfinish s (slot_of sz n) then WLeave else WRun n) s)"
      by (rule count_ok_move [OF hg(2)]) (simp_all add: WTest)
    then show ?thesis using WTest pool_ok_test [OF hg(1) WTest] by (auto simp: worker_step_def pool_inv_def)
  next
    case (WRun n)
    have "count_ok (wgoto t (WDone n) s)" by (rule count_ok_move [OF hg(2)]) (simp_all add: WRun)
    then show ?thesis using WRun pool_ok_run [OF hg(1) WRun] by (auto simp: worker_step_def pool_inv_def)
  next
    case (WDone n)
    obtain s1 where s1: "consumer_done sz n s = Inr s1" "pool_ok sz (hg(t := None)) es (wgoto t WGet s1)"
      using pool_ok_done [OF hg(1) WDone] by blast
    then obtain F where F: "s1 = s\<lparr>qfree := F\<rparr>" by (auto simp: consumer_done_def split: if_splits)
    have c: "count_ok s1 = count_ok s" by (rule count_ok_cong) (simp_all add: F)
    have "count_ok (wgoto t WGet s1)" by (rule count_ok_move) (use c hg(2) WDone in \<open>simp_all add: F\<close>)
    then show ?thesis using WDone s1 by (auto simp: worker_step_def pool_inv_def)
  next
    case WLeave
    show ?thesis
    proof (cases "mlock s = None \<and> rmThread (windex s t) s \<noteq> Inl OutOfBounds")
      case True
      then obtain s1 where s1: "rmThread (windex s t) s = Inr s1" by (auto simp: rmThread_def split: if_splits)
      then have w: "wgoto t WGone s1 = (wgoto t WGone s)\<lparr>workers := workers s1, poolSize := poolSize s1\<rparr>"
        by (auto simp: rmThread_def wgoto_def split: if_splits)
      have "pool_ok sz hg es (wgoto t WGone s1)"
        using pool_ok_leave [OF hg(1), of t WGone] WLeave unfolding w by (simp add: pool_ok_def)
      then show ?thesis
        using True s1 WLeave count_ok_remove [OF hg(2) WLeave s1] by (auto simp: worker_step_def pool_inv_def)
    qed (use WLeave inv in \<open>auto simp: worker_step_def split: option.splits\<close>)
  qed (use inv in \<open>simp_all add: worker_step_def\<close>)
qed

lemma pool_step_ok:
  assumes inv: "pool_inv sz es s"
  shows "pool_step sz a s = Inl OutOfBounds \<or> (\<exists>s' e. pool_step sz a s = Inr (s', e) \<and> pool_inv sz (es @ e) s')"
proof (cases a)
  case (AddTask c v)
  then show ?thesis using inv pool_inv_goto [OF inv, of "CPoll v" c]
    by (auto simp: pool_step_def client_ok_def split: client_pc.splits)
next
  case (Shutdown c)
  then show ?thesis using inv pool_inv_goto [OF inv, of SLock c]
    by (auto simp: pool_step_def client_ok_def split: client_pc.splits)
qed (use client_step_ok [OF inv] worker_step_ok [OF inv] in \<open>simp_all add: pool_step_def\<close>)

lemma pool_run_ok:
  "pool_inv sz es s \<Longrightarrow> pool_run sz as s = Inl OutOfBounds \<or>
     (\<exists>s' e. pool_run sz as s = Inr (s', e) \<and> pool_inv sz (es @ e) s')"
proof -
  assume inv: "pool_inv sz es s"
  have "(\<exists>f \<in> {OutOfBounds}. pool_run sz as s = Inl f) \<or> (\<exists>s' e. pool_run sz as s = Inr (s', e) \<and> pool_inv sz (es @ e) s')"
    by (rule pool_machine.run_safe [where I = "\<lambda>s es. pool_inv sz es s" and ok = "\<lambda>_. True"])
      (use pool_step_ok inv in \<open>simp_all add: list_all_iff\<close>)
  then show ?thesis by simp
qed

end
