(* ===== verification/Pool_Props.thy ===== *)
theory Pool_Props
  imports Pool_Inv
begin

text \<open>
  What the thread pool guarantees from its constructor on: tasks are run at most once and none is
  lost, the number of threads is bounded; and what goes wrong when it is shut down.
\<close>

section \<open>Starting\<close>

lemma pool_sizes_bounds: "1 \<le> fst (pool_sizes core mx hw)" "fst (pool_sizes core mx hw) \<le> snd (pool_sizes core mx hw)"
  by (auto simp: pool_sizes_def Let_def)

lemma pool_inv_new: "pow2_size sz \<Longrightarrow> pool_inv sz [] (ThreadPool core mx hw dflt)"
proof -
  assume sz: "pow2_size sz"
  have "choice_holder (\<lambda>_. CIdle :: 'a client_pc) = (\<lambda>_. None)" by (simp add: choice_holder_def)
  then have "pool_ok sz (\<lambda>_. None) [] (ThreadPool core mx hw dflt)"
    using ring_inv_start [OF sz]
    by (auto simp: pool_ok_def ThreadPool_def workers_hold_def live_def held_def client_ok_def pubs_ok_def runs_ok_def)
  moreover have "count_ok (ThreadPool core mx hw dflt)"
    using pool_sizes_bounds [of core mx hw] by (simp add: count_ok_def ThreadPool_def live_threads_def)
  ultimately show ?thesis by (auto simp: pool_inv_def)
qed

lemma start_loop_ok:
  "pool_inv sz es s \<Longrightarrow> poolSize s + int n \<le> maxPoolSize s \<Longrightarrow> pool_inv sz es (start_loop i n s)"
proof (induction n arbitrary: i s)
  case (Suc n)
  have "pool_inv sz es (addThread (int i) s)"
    using Suc.prems by (auto simp: pool_inv_def intro!: count_ok_add intro: pool_ok_add)
  then show ?case using Suc by (simp add: addThread_def)
qed simp

lemma start_ok: "pow2_size sz \<Longrightarrow> pool_inv sz [] (start (ThreadPool core mx hw dflt))"
  using pool_sizes_bounds [of core mx hw]
  by (auto simp: start_def ThreadPool_def intro!: start_loop_ok pool_inv_new [unfolded ThreadPool_def])

section \<open>The limit\<close>

lemma step_limit: "pool_step sz a s = Inr (s', e) \<Longrightarrow> maxPoolSize s' = maxPoolSize s"
  by (cases a)
    (auto simp: pool_step_def client_step_def worker_step_def cgoto_def wgoto_def publish_def consumer_done_def rmThread_def
      addIfUnderMaxPoolSize_def addThread_def bind_res_Inr_conv split: client_pc.splits worker_pc.splits option.splits if_splits)

lemma run_limit: "pool_run sz as s = Inr (s', e) \<Longrightarrow> maxPoolSize s' = maxPoolSize s"
  by (rule pool_machine.run_unchanged [where ok = "\<lambda>_. True"]) (simp_all add: step_limit list_all_iff)

lemma start_limit: "maxPoolSize (start_loop i n s) = maxPoolSize s"
  by (induction i n s rule: start_loop.induct) (simp_all add: addThread_def)


section \<open>Shutting down\<close>

text \<open>The end of a shutdown with more workers than the ring has slots: every slot holds a finish marker,
  and the workers that took one wait for the lock.\<close>

definition stuck :: "nat \<Rightarrow> nat \<Rightarrow> 'a pool \<Rightarrow> bool" where
  "stuck sz c s \<longleftrightarrow> mlock s = Some c \<and> (\<exists>i. cpcs s c = STake i \<and> i < poolSize s) \<and>
     (\<forall>k < sz. \<not> qfree s k \<and> qfinish s k) \<and> (\<forall>d. chold (cpcs s d) = None) \<and>
     (\<forall>d i. cpcs s d = STake i \<longrightarrow> d = c) \<and> (\<forall>t n. wpcs s t \<noteq> WRun n \<and> wpcs s t \<noteq> WDone n)"

lemma stuck_client:
  assumes "stuck sz c s" "pow2_size sz"
  shows "\<exists>s' e. client_step sz d miss s = Inr (s', e) \<and> stuck sz c s' \<and> cpcs s' c = cpcs s c"
proof -
  have np: "\<not> can_put sz s" using assms slot_of_less [OF assms(2)] by (auto simp: stuck_def can_put_def)
  have h: "chold (cpcs s d) = None" using assms(1) by (simp add: stuck_def)
  obtain i where i: "cpcs s c = STake i" "i < poolSize s" "mlock s = Some c" using assms(1) by (auto simp: stuck_def)
  show ?thesis
  proof (cases "cpcs s d")
    case (CPoll v)
    then have "d \<noteq> c" using i by auto
    then show ?thesis using CPoll np assms(1) by (auto simp: client_step_def stuck_def cgoto_def)
  next
    case (STake j)
    then have "d = c" using assms(1) by (auto simp: stuck_def)
    then show ?thesis using STake np assms(1) i by (auto simp: client_step_def)
  qed (use i h np assms(1) in \<open>auto simp: client_step_def\<close>)
qed

lemma stuck_worker:
  assumes "stuck sz c s" "pow2_size sz"
  shows "\<exists>s' e. worker_step sz t miss s = Inr (s', e) \<and> stuck sz c s' \<and> cpcs s' c = cpcs s c"
proof -
  have "qfinish s (slot_of sz n)" for n using assms slot_of_less [OF assms(2)] by (auto simp: stuck_def)
  moreover have "mlock s = Some c" "wpcs s t \<noteq> WRun n" "wpcs s t \<noteq> WDone n" for n using assms(1) by (auto simp: stuck_def)
  ultimately show ?thesis
    using assms(1) by (cases "wpcs s t") (auto simp: worker_step_def stuck_def wgoto_def)
qed

lemma stuck_step:
  assumes "stuck sz c s" "pow2_size sz"
  shows "\<exists>s' e. pool_step sz a s = Inr (s', e) \<and> stuck sz c s' \<and> cpcs s' c = cpcs s c"
proof (cases a)
  case (AddTask d v)
  then show ?thesis using assms(1)
    by (cases "cpcs s d") (auto simp: pool_step_def stuck_def cgoto_def)
next
  case (Shutdown d)
  then show ?thesis using assms(1)
    by (cases "cpcs s d") (auto simp: pool_step_def stuck_def cgoto_def)
qed (use stuck_client [OF assms] stuck_worker [OF assms] in \<open>simp_all add: pool_step_def\<close>)

lemma stuck_run:
  "stuck sz c s \<Longrightarrow> pow2_size sz \<Longrightarrow> \<exists>s' e. pool_run sz as s = Inr (s', e) \<and> stuck sz c s' \<and> cpcs s' c = cpcs s c"
  by (rule pool_machine.run_faultless [where I = "\<lambda>t _. stuck sz c t \<and> cpcs t c = cpcs s c" and ok = "\<lambda>_. True"])
    (use stuck_step in \<open>fastforce simp: list_all_iff\<close>)+

text \<open>Three workers and a ring of two slots.\<close>

lemma ring_of_two: "csize (CircBuf_cfg 2 ps ws) = 2"
  by (simp add: CircBuf_cfg_def CircBuf_size_def Let_def is_power_of_2_def)

lemma three_workers:
  "start (ThreadPool 3 3 hw dflt) =
     (ThreadPool 3 3 hw dflt)\<lparr>poolSize := 3, workers := 3, spawned := 3,
       windex := (\<lambda>_. 0)(0 := 0, 1 := 1, 2 := 2), wpcs := (\<lambda>_. WNone)(0 := WGet, 1 := WGet, 2 := WGet)\<rparr>"
  by (simp add: start_def ThreadPool_def pool_sizes_def numeral_3_eq_3 numeral_2_eq_2 addThread_def)

lemma slot_two: "slot_of (Suc (Suc 0)) 0 = 0" "slot_of (Suc (Suc 0)) 1 = 1"
  by (simp_all add: slot_of_def)

lemmas pool_eval = step_defs slot_two


text \<open>Workers erase themselves by the index they were given at their start: when the first of two
  core threads finishes before the second, the second erases beyond the end of the vector.\<close>

theorem finish_erases_out_of_range:
  "\<exists>as. pool_run (csize (CircBuf_cfg 2 ps ws)) as (start (ThreadPool 2 2 hw dflt)) = Inl OutOfBounds"
proof -
  let ?as = "Shutdown 0 # replicate 8 (Client 0 False) @ replicate 3 (Worker 0 False) @ replicate 3 (Worker 1 False)"
  have "pool_run 2 ?as (start (ThreadPool 2 2 hw dflt)) = Inl OutOfBounds"
    by (simp add: start_def addThread_def ThreadPool_def pool_sizes_def pool_eval numeral_eq_Suc)
  then show ?thesis unfolding ring_of_two by blast
qed

end
