(* ===== verification/Server_Io.thy ===== *)
theory Server_Io
  imports Ev_Dispatch Service Output_Buffer Net_Order
begin

text \<open>
  The server's side of a connection: the three callbacks of \<open>network_event_handler.cpp\<close> on the state
  of \<open>server.h\<close>, as callbacks of the event loop of \<open>Ev_Run\<close>. What arrives on a socket and what \<open>write\<close>
  accepts are scripts in the state; protobuf, the allocator, the registered methods and \<open>new ev_io\<close> are
  in the environment. The queues to and from the other threads are lists here: \<open>Notifier\<close>, \<open>Conc_Fifo\<close>
  and \<open>Pool_Props\<close> are about their insides.
\<close>

section \<open>State\<close>

definition RECEIVE_BUF_SIZE :: uint32 where "RECEIVE_BUF_SIZE = 128"

record socket_state =
  task_count :: uint32
  is_finish :: bool
  packet_length :: uint32
  unread_length :: uint32
  receive_buf :: "byte option list"
  receive_buf_offset :: nat
  receive_buf_size :: uint32
  obuffer :: output_buffer

text \<open>\<open>task_count\<close> and \<open>is_finish\<close> are not set by the constructor; \<open>AcceptFdCb\<close> sets them.\<close>

definition SocketState :: "(ull \<Rightarrow> bool) \<Rightarrow> uint32 \<Rightarrow> bool \<Rightarrow> socket_state" where
  "SocketState alloc tc fin =
     \<lparr>task_count = tc, is_finish = fin, packet_length = 0, unread_length = 0,
      receive_buf = realloc_bytes alloc [] RECEIVE_BUF_SIZE, receive_buf_offset = 0,
      receive_buf_size = RECEIVE_BUF_SIZE, obuffer = OutputBuffer alloc 128\<rparr>"

definition ResetReceiveBufState :: "socket_state \<Rightarrow> socket_state" where
  "ResetReceiveBufState ss = ss\<lparr>packet_length := 0, unread_length := 0, receive_buf_offset := 0\<rparr>"

text \<open>A socket is non-blocking: with nothing there, \<open>read\<close> fails with \<open>EAGAIN\<close>.\<close>

datatype net_in = Chunk "byte list" | Eof | Net_error int

definition EAGAIN :: int where "EAGAIN = 11"
definition EFAULT :: int where "EFAULT = 14"

record 'ctx server =
  socket_states :: "nat \<Rightarrow> socket_state"
  net_ins :: "nat \<Rightarrow> net_in list"
  write_results :: "int list"
  last_errno :: int
  fd_queue :: "nat list"
  response_queue :: "response list"
  submitted :: "'ctx task_rec list"
  written :: "(nat \<times> byte list) list"

record 'ctx server_env =
  alloc_ok :: "ull \<Rightarrow> bool"
  ParseRequest :: "byte option list \<Rightarrow> request_msg option"
  SerializeResponse :: "response_msg \<Rightarrow> byte list"
  service_methods :: "'ctx methods"
  context_of :: 'ctx
  old_task :: "'ctx task_rec"
  new_io :: "ev_loop \<Rightarrow> nat \<Rightarrow> nat option"

section \<open>Reading\<close>

definition read_net :: "nat \<Rightarrow> nat \<Rightarrow> 'ctx server \<Rightarrow> int \<times> byte list \<times> 'ctx server" where
  "read_net fd n sv =
     (case net_ins sv fd of
        [] \<Rightarrow> (- 1, [], sv\<lparr>last_errno := EAGAIN\<rparr>)
      | Eof # es \<Rightarrow> (0, [], sv)
      | Net_error e # es \<Rightarrow> (- 1, [], sv\<lparr>last_errno := e, net_ins := (net_ins sv)(fd := es)\<rparr>)
      | Chunk bs # es \<Rightarrow>
          (let k = min n (length bs);
               es = (if k = length bs then es else Chunk (drop k bs) # es)
           in (int k, take k bs, sv\<lparr>net_ins := (net_ins sv)(fd := es)\<rparr>)))"

definition upd_sock :: "nat \<Rightarrow> (socket_state \<Rightarrow> socket_state) \<Rightarrow> 'ctx server \<Rightarrow> 'ctx server" where
  "upd_sock fd f sv = sv\<lparr>socket_states := (socket_states sv)(fd := f (socket_states sv fd))\<rparr>"

text \<open>Stopping a watcher and closing its descriptor: the calls that are made on the loop.\<close>

definition close_ops :: "nat \<Rightarrow> nat \<Rightarrow> 'ctx server \<Rightarrow> ev_op list" where
  "close_ops w fd sv = IoStop w # (if task_count (socket_states sv fd) = 0 then [CloseFd fd] else [])"

definition StopWatcherAndCloseSocket :: "nat \<Rightarrow> nat \<Rightarrow> 'ctx server \<Rightarrow> 'ctx server \<times> ev_op list" where
  "StopWatcherAndCloseSocket w fd sv =
     (upd_sock fd (\<lambda>ss. ss\<lparr>is_finish := True\<rparr>) sv, close_ops w fd sv)"

text \<open>The packet length: \<open>Inl\<close> is the end of the callback. A short read leaves the other bytes 0.\<close>

definition read_header ::
  "'ctx server_env \<Rightarrow> nat \<Rightarrow> nat \<Rightarrow> 'ctx server \<Rightarrow> ('ctx server \<times> ev_op list) + 'ctx server" where
  "read_header E w fd sv =
     (if packet_length (socket_states sv fd) = 0
      then
        (case read_net fd 4 sv of (got, bs, sv) \<Rightarrow>
           if got \<le> 0 then Inl (StopWatcherAndCloseSocket w fd sv)
           else
             let len = be_word (bs @ replicate (4 - length bs) 0);
                 sv = upd_sock fd (\<lambda>ss. ss\<lparr>packet_length := len, unread_length := len\<rparr>) sv;
                 ss = socket_states sv fd
             in if len > receive_buf_size ss
                then
                  if len > push_bit 13 2
                  then Inl (StopWatcherAndCloseSocket w fd (upd_sock fd (\<lambda>ss. ss\<lparr>packet_length := 0\<rparr>) sv))
                  else
                    let n = ucast (rounddown_pow_of_two (ucast len))
                    in Inr (upd_sock fd (\<lambda>ss. ss\<lparr>receive_buf_size := n,
                              receive_buf := realloc_bytes (alloc_ok E) (receive_buf ss) n, receive_buf_offset := 0\<rparr>) sv)
                else Inr sv)
      else Inr sv)"

text \<open>\<open>read\<close> into the receive buffer: the bytes go to the offset, wherever the block ends.\<close>

definition store_at :: "nat \<Rightarrow> byte list \<Rightarrow> byte option list \<Rightarrow> byte option list res" where
  "store_at p bs buf =
     (if p + length bs > length buf then Inl OutOfBounds
      else Inr (take p buf @ map Some bs @ drop (p + length bs) buf))"

definition read_into :: "nat \<Rightarrow> 'ctx server \<Rightarrow> (int \<times> 'ctx server) res" where
  "read_into fd sv =
     (let ss = socket_states sv fd in
      if receive_buf ss = [] then Inr (- 1, sv\<lparr>last_errno := EFAULT\<rparr>)
      else
        (case read_net fd (unat (unread_length ss)) sv of (got, bs, sv) \<Rightarrow>
           bind_res (store_at (receive_buf_offset ss) bs (receive_buf ss)) (\<lambda>buf.
           Inr (got, upd_sock fd (\<lambda>ss. ss\<lparr>receive_buf := buf\<rparr>) sv))))"

text \<open>The whole packet is there: a task for the thread pool.\<close>

definition submit_packet ::
  "'ctx server_env \<Rightarrow> nat \<Rightarrow> nat \<Rightarrow> 'ctx server \<Rightarrow> ('ctx server \<times> ev_op list) res" where
  "submit_packet E w fd sv =
     (let ss = socket_states sv fd in
      if unat (packet_length ss) > length (receive_buf ss) then Inl OutOfBounds
      else
        case ParseRequest E (take (unat (packet_length ss)) (receive_buf ss)) of
          None \<Rightarrow>
            (case StopWatcherAndCloseSocket w fd (sv\<lparr>submitted := submitted sv @ [(old_task E)\<lparr>tfd := - 1\<rparr>]\<rparr>) of
               (sv, ops) \<Rightarrow> Inr (upd_sock fd ResetReceiveBufState sv, ops))
        | Some req \<Rightarrow>
            let sv = upd_sock fd ResetReceiveBufState sv;
                t = InitCall (Some (context_of E)) (GetMethod (service_methods E) (method_id req)) (Some (contents req))
                      ((old_task E)\<lparr>request_content := req\<rparr>)
            in Inr (sv\<lparr>submitted := submitted sv @ [t\<lparr>tfd := int fd\<rparr>]\<rparr>, []))"

definition read_body ::
  "'ctx server_env \<Rightarrow> nat \<Rightarrow> nat \<Rightarrow> 'ctx server \<Rightarrow> ('ctx server \<times> ev_op list) res" where
  "read_body E w fd sv =
     bind_res (read_into fd sv) (\<lambda>(got, sv).
       if got \<le> 0
       then if last_errno sv = EAGAIN then Inr (sv, []) else Inr (StopWatcherAndCloseSocket w fd sv)
       else if word_of_int got < packet_length (socket_states sv fd)
       then Inr (upd_sock fd (\<lambda>ss. ss\<lparr>receive_buf_offset := nat got,
                   unread_length := packet_length ss - word_of_int got\<rparr>) sv, [])
       else submit_packet E w fd sv)"

definition ReadCb ::
  "'ctx server_env \<Rightarrow> nat \<Rightarrow> nat \<Rightarrow> short \<Rightarrow> 'ctx server \<Rightarrow> ('ctx server \<times> ev_op list) res" where
  "ReadCb E w fd ev sv =
     (if ucast ev AND EV_READ \<noteq> 0
      then (case read_header E w fd sv of Inl r \<Rightarrow> Inr r | Inr sv \<Rightarrow> read_body E w fd sv)
      else Inr (sv, []))"

section \<open>Writing\<close>

text \<open>\<open>size\<close> is unsigned: a failing \<open>write\<close> is taken for a huge count.\<close>

definition respond ::
  "'ctx server_env \<Rightarrow> response \<Rightarrow> 'ctx server \<Rightarrow> 'ctx server res" where
  "respond E r sv =
     (let fd = nat (rfd r);
          data = SerializeResponse E (response_content r)
      in bind_res (put_bytes (alloc_ok E) (be_bytes (of_nat (length data))) (obuffer (socket_states sv fd))) (\<lambda>ob.
         bind_res (put_bytes (alloc_ok E) data ob) (\<lambda>ob.
         bind_res (contents_bytes ob) (\<lambda>out.
         let got = (case write_results sv of [] \<Rightarrow> int (length out) | k # ks \<Rightarrow> min k (int (length out)));
             sv = sv\<lparr>write_results := tl (write_results sv), written := written sv @ [(fd, map the (take (nat got) out))]\<rparr>;
             ob = Consume (word_of_int got) ob
         in bind_res (AdjustBuffer ob) (\<lambda>ob. Inr (upd_sock fd (\<lambda>ss. ss\<lparr>obuffer := ob\<rparr>) sv))))))"

fun respond_all :: "'ctx server_env \<Rightarrow> response list \<Rightarrow> 'ctx server \<Rightarrow> 'ctx server res" where
  "respond_all E [] sv = Inr sv"
| "respond_all E (r # rs) sv = bind_res (respond E r sv) (respond_all E rs)"

definition ResponseCb :: "'ctx server_env \<Rightarrow> 'ctx server \<Rightarrow> ('ctx server \<times> ev_op list) res" where
  "ResponseCb E sv =
     bind_res (respond_all E (response_queue sv) (sv\<lparr>response_queue := []\<rparr>)) (\<lambda>sv. Inr (sv, []))"

section \<open>Accepting\<close>

definition READ_CB :: nat where "READ_CB = 1"

fun accept_all ::
  "'ctx server_env \<Rightarrow> ev_loop \<Rightarrow> nat \<Rightarrow> nat list \<Rightarrow> 'ctx server \<Rightarrow> ('ctx server \<times> ev_op list) res" where
  "accept_all E s k [] sv = Inr (sv, [])"
| "accept_all E s k (fd # rest) sv =
     (let sv = upd_sock fd (\<lambda>ss. ss\<lparr>task_count := 0, packet_length := 0, unread_length := 0, is_finish := False\<rparr>) sv
      in case new_io E s k of
           None \<Rightarrow> Inl Abort
         | Some w \<Rightarrow>
             bind_res (accept_all E s (k + 1) rest sv) (\<lambda>(sv, ops).
             Inr (sv, IoInit w (int fd) EV_READ READ_CB 0 2 # IoStart w # ops)))"

definition AcceptFdCb :: "'ctx server_env \<Rightarrow> ev_loop \<Rightarrow> 'ctx server \<Rightarrow> ('ctx server \<times> ev_op list) res" where
  "AcceptFdCb E s sv = accept_all E s 0 (fd_queue sv) (sv\<lparr>fd_queue := []\<rparr>)"

section \<open>The callbacks of a server's loop\<close>

text \<open>The callbacks are told apart by number: 0 is \<open>AcceptFdCb\<close>, 1 \<open>ReadCb\<close>, 2 \<open>ResponseCb\<close>. A fault ends
  the process.\<close>

definition server_cbs :: "'ctx server_env \<Rightarrow> 'ctx server res callbacks" where
  "server_cbs E c w ev us =
     (case us of
        (Inl f, s) \<Rightarrow> (Inl f, [])
      | (Inr sv, s) \<Rightarrow>
          (case w of
             Io i \<Rightarrow>
               (case (if c = 0 then AcceptFdCb E s sv
                      else if c = READ_CB then ReadCb E i (nat (io_fd (ios s i))) ev sv
                      else ResponseCb E sv) of
                  Inl f \<Rightarrow> (Inl f, [])
                | Inr (sv, ops) \<Rightarrow> (Inr sv, ops))
           | _ \<Rightarrow> (Inr sv, [])))"

end
