(* ===== verification/Server_Props.thy ===== *)
theory Server_Props
  imports Server_Io
begin

text \<open>
  What the server's callbacks do: a packet that arrives whole becomes one task, one that arrives in
  pieces never does, responses are framed like requests, and the callbacks follow the rules of the
  event loop, so that its invariant holds in a running server.
\<close>

section \<open>The loop of a server\<close>

text \<open>\<open>new\<close> returns memory that no living object uses: watchers that are neither active nor pending,
  all different.\<close>

definition new_io_ok :: "'ctx server_env \<Rightarrow> bool" where
  "new_io_ok E \<longleftrightarrow> (\<forall>s k w. new_io E s k = Some w \<longrightarrow>
     active (ios s w) = 0 \<and> pending (ios s w) = 0 \<and> (\<forall>j. new_io E s j = Some w \<longrightarrow> j = k))"

lemma init_start_others:
  assumes "do_op (IoInit w (int fd) EV_READ c d p) s = Inr s1" "do_op (IoStart w) s1 = Inr s2" "v \<noteq> w"
  shows "ios s2 v = ios s v"
  using assms
  by (auto simp: io_watcher_init_def io_watcher_start_def watcher_list_add_def upd_fd_def Let_def split: if_splits)

lemma init_fd:
  assumes "do_op (IoInit w (int fd) EV_READ c d p) s = Inr s1" "active (ios s w) = 0"
  shows "io_fd (ios s1 w) = int fd"
  using assms by (auto simp: io_watcher_init_def split: if_splits)

lemma accept_ops_ok:
  assumes E: "new_io_ok E" and "accept_all E s k xs sv = Inr (sv', ops)" "loop_inv 0 t"
    "\<And>w j. k \<le> j \<Longrightarrow> new_io E s j = Some w \<Longrightarrow> ios t w = ios s w"
  shows "ops_ok ops t"
  using assms(2-4)
proof (induction xs arbitrary: k sv sv' ops t)
  case (Cons fd xs)
  obtain w where w: "new_io E s k = Some w"
    using Cons.prems(1) by (auto simp: Let_def split: option.splits)
  then obtain sv1 ops1 where o: "accept_all E s (k + 1) xs sv1 = Inr (sv', ops1)"
    "ops = IoInit w (int fd) EV_READ READ_CB 0 2 # IoStart w # ops1"
    using Cons.prems(1) by (auto simp: Let_def bind_res_Inr_conv)
  have f: "active (ios t w) = 0" "pending (ios t w) = 0"
    using Cons.prems(3) [OF order_refl w] E w by (auto simp: new_io_ok_def)
  have p: "op_ok (IoInit w (int fd) EV_READ READ_CB 0 2) t" using f by (simp add: EV_READ_def EV_WRITE_def)
  have "ops_ok ops1 t2" if t: "do_op (IoInit w (int fd) EV_READ READ_CB 0 2) t = Inr t1" "do_op (IoStart w) t1 = Inr t2" for t1 t2
  proof -
    have "loop_inv 0 t1" using do_op_inv [OF Cons.prems(2) p] t(1) by auto
    then have "loop_inv 0 t2" using do_op_inv [of 0 t1 "IoStart w"] init_fd [OF t(1) f(1)] t(2) by auto
    moreover have "ios t2 v = ios s v" if "k + 1 \<le> j" "new_io E s j = Some v" for v j
    proof -
      have "v \<noteq> w" using E w that unfolding new_io_ok_def by (metis Suc_eq_plus1 Suc_n_not_le_n)
      then show ?thesis using init_start_others [OF t] Cons.prems(3) [of j v] that by simp
    qed
    ultimately show ?thesis using Cons.IH [OF o(1)] by blast
  qed
  then show ?case unfolding o(2) using p init_fd [OF _ f(1)] by auto
qed simp

lemma close_ops_ok: "ops_ok (close_ops w fd sv) s"
  by (simp add: close_ops_def)

lemma ReadCb_ops: "ReadCb E w fd ev sv = Inr (sv', ops) \<Longrightarrow> ops_ok ops s"
  by (auto simp: ReadCb_def read_header_def read_body_def submit_packet_def StopWatcherAndCloseSocket_def Let_def
      bind_res_Inr_conv close_ops_ok split: if_splits sum.splits prod.splits option.splits)

lemma server_cbs_ok:
  assumes "new_io_ok E"
  shows "cbs_ok (server_cbs E)"
  unfolding cbs_ok_def
proof (intro allI impI)
  fix c w ev u s assume inv: "loop_inv 0 s"
  show "ops_ok (snd (server_cbs E c w ev (u, s))) s"
  proof (cases u)
    case (Inr sv)
    have "ops_ok ops s" if "AcceptFdCb E s sv = Inr (sv', ops)" for sv' ops
      using accept_ops_ok [OF assms _ inv] that by (auto simp: AcceptFdCb_def)
    moreover have "ops_ok ops s" if "ReadCb E i (nat (io_fd (ios s i))) ev sv = Inr (sv', ops)" for sv' ops i
      using ReadCb_ops [OF that] .
    moreover have "ops = []" if "ResponseCb E sv = Inr (sv', ops)" for sv' ops
      using that by (auto simp: ResponseCb_def bind_res_Inr_conv)
    ultimately show ?thesis using Inr
      by (auto simp: server_cbs_def split: wref.splits sum.splits)
  qed (simp add: server_cbs_def)
qed


section \<open>A packet that arrives whole\<close>

text \<open>A connection between two packets.\<close>

definition between_packets :: "'ctx server \<Rightarrow> nat \<Rightarrow> bool" where
  "between_packets sv fd \<longleftrightarrow>
     (let ss = socket_states sv fd in
      packet_length ss = 0 \<and> receive_buf_offset ss = 0 \<and> length (receive_buf ss) = unat (receive_buf_size ss) \<and>
      0 < receive_buf_size ss)"

definition packet_task :: "'ctx server_env \<Rightarrow> nat \<Rightarrow> request_msg \<Rightarrow> 'ctx task_rec" where
  "packet_task E fd req =
     \<lparr>tfd = int fd,
      tcall = \<lparr>server_context = Some (context_of E), service_method = GetMethod (service_methods E) (method_id req),
               params = Some (contents req)\<rparr>,
      request_content = req, store_response = store_response (old_task E)\<rparr>"

lemma upd_sock_simps [simp]:
  "socket_states (upd_sock fd f sv) = (socket_states sv)(fd := f (socket_states sv fd))"
  "net_ins (upd_sock fd f sv) = net_ins sv" "submitted (upd_sock fd f sv) = submitted sv"
  "written (upd_sock fd f sv) = written sv" "last_errno (upd_sock fd f sv) = last_errno sv"
  "write_results (upd_sock fd f sv) = write_results sv"
  by (simp_all add: upd_sock_def)

lemma realloc_length: "\<forall>k. alloc k \<Longrightarrow> length (realloc_bytes alloc b n) = unat n"
  by (simp add: realloc_bytes_def mm_realloc_def)

lemma unat_len: "length bs < 2 ^ 32 \<Longrightarrow> unat (of_nat (length bs) :: uint32) = length bs"
  by (simp add: unat_of_nat take_bit_nat_eq_self)

text \<open>The size the buffer gets for a long packet.\<close>

lemma long_packet:
  assumes "0 < n" "n \<le> 16384"
  defines "r \<equiv> (ucast (rounddown_pow_of_two (ucast (of_nat n :: uint32))) :: uint32)"
  shows "unat r \<le> n" "0 < unat r" "n \<le> unat r \<longleftrightarrow> is_power_of_2 (of_nat n)"
proof -
  have u: "(ucast (of_nat n :: uint32) :: ull) = of_nat n"
    using assms(2) by (intro word_unat_eq_iff [THEN iffD2]) (simp add: unsigned_ucast_eq unat_of_nat take_bit_nat_eq_self)
  have n: "unat (of_nat n :: ull) = n" using assms(2) by (simp add: unat_of_nat take_bit_nat_eq_self)
  have nz: "(of_nat n :: ull) \<noteq> 0" using assms(1) n by (metis gr_implies_not_zero unat_0)
  note b = rounddown_pow_of_two_below [OF nz]
  have e: "unat r = unat (rounddown_pow_of_two (of_nat n))"
    unfolding r_def u using b n assms(2) by (simp add: unsigned_ucast_eq take_bit_nat_eq_self)
  show "unat r \<le> n" "0 < unat r" "n \<le> unat r \<longleftrightarrow> is_power_of_2 (of_nat n)"
    using b n e assms(1) by auto
qed

lemma take_whole: "take (length xs) (xs @ ys) = xs" by simp

lemma read_header_ok:
  assumes "between_packets sv fd" "net_ins sv fd = Chunk (frame bytes) # es" "0 < length bytes" "length bytes \<le> 16384"
    "\<forall>k. alloc_ok E k"
  shows "\<exists>sv'. read_header E w fd sv = Inr sv' \<and> net_ins sv' = (net_ins sv)(fd := Chunk bytes # es) \<and>
    submitted sv' = submitted sv \<and>
    unat (packet_length (socket_states sv' fd)) = length bytes \<and>
    unread_length (socket_states sv' fd) = packet_length (socket_states sv' fd) \<and>
    receive_buf_offset (socket_states sv' fd) = 0 \<and> 0 < length (receive_buf (socket_states sv' fd)) \<and>
    length (receive_buf (socket_states sv' fd)) = (if length bytes \<le> unat (receive_buf_size (socket_states sv fd))
       then unat (receive_buf_size (socket_states sv fd))
       else unat (ucast (rounddown_pow_of_two (ucast (of_nat (length bytes) :: uint32))) :: uint32))"
proof -
  let ?n = "of_nat (length bytes) :: uint32" and ?sz = "receive_buf_size (socket_states sv fd)"
  have u: "unat ?n = length bytes" using assms(4) by (intro unat_len) simp
  have r: "read_net fd 4 sv = (4, be_bytes ?n, sv\<lparr>net_ins := (net_ins sv)(fd := Chunk bytes # es)\<rparr>)"
    using assms(2,3) by (simp add: read_net_def frame_def Let_def)
  have p: "packet_length (socket_states sv fd) = 0" using assms(1) by (simp add: between_packets_def Let_def)
  have big: "\<not> ?n > push_bit 13 2" using assms(4) u by (simp add: word_less_nat_alt)
  have gt: "?n > ?sz \<longleftrightarrow> \<not> length bytes \<le> unat ?sz" using u by (auto simp: word_less_nat_alt)
  have l: "0 < unat (ucast (rounddown_pow_of_two (ucast ?n)) :: uint32)" using long_packet(2) [OF assms(3,4)] .
  have ne: "realloc_bytes (alloc_ok E) b (ucast (rounddown_pow_of_two (ucast ?n))) \<noteq> []" for b
    using realloc_length [OF assms(5), of b "ucast (rounddown_pow_of_two (ucast ?n))"] l by (metis less_irrefl list.size(3))
  show ?thesis
    using assms(1) p r big gt u l ne realloc_length [OF assms(5)] unfolding read_header_def
    by (auto simp: Let_def between_packets_def word_less_nat_alt)
qed

lemma read_body_whole:
  assumes "net_ins sv fd = Chunk bytes # es" "unat (packet_length (socket_states sv fd)) = length bytes"
    "unread_length (socket_states sv fd) = packet_length (socket_states sv fd)" "0 < length bytes"
    "receive_buf_offset (socket_states sv fd) = 0" "0 < length (receive_buf (socket_states sv fd))"
    "ParseRequest E (map Some bytes) = Some req"
  shows "if length bytes \<le> length (receive_buf (socket_states sv fd))
    then \<exists>sv'. read_body E w fd sv = Inr (sv', []) \<and> net_ins sv' fd = es \<and>
      submitted sv' = submitted sv @ [packet_task E fd req] \<and>
      (let ss = socket_states sv' fd in packet_length ss = 0 \<and> receive_buf_offset ss = 0 \<and>
         length (receive_buf ss) = length (receive_buf (socket_states sv fd)) \<and>
         receive_buf_size ss = receive_buf_size (socket_states sv fd))
    else read_body E w fd sv = Inl OutOfBounds"
proof -
  let ?ss = "socket_states sv fd"
  have r: "read_net fd (length bytes) sv = (int (length bytes), bytes, sv\<lparr>net_ins := (net_ins sv)(fd := es)\<rparr>)"
    using assms(1) by (simp add: read_net_def)
  have lt: "length bytes < 2 ^ 32" using assms(2) unat_lt_power [of "packet_length ?ss"] by simp
  have w: "\<not> word_of_int (int (length bytes)) < packet_length ?ss"
    using assms(2) unat_len [OF lt] by (simp add: word_less_nat_alt)
  show ?thesis
    using assms(2-7) r w
    by (auto simp: read_body_def read_into_def store_at_def submit_packet_def Let_def packet_task_def InitCall_def
        ResetReceiveBufState_def)
qed

lemma whole_packet:
  assumes "between_packets sv fd" "net_ins sv fd = Chunk (frame bytes) # es" "0 < length bytes" "length bytes \<le> 16384"
    "\<forall>k. alloc_ok E k" "ParseRequest E (map Some bytes) = Some req" "ucast ev AND EV_READ \<noteq> 0"
  shows "if length bytes \<le> unat (receive_buf_size (socket_states sv fd)) \<or> is_power_of_2 (of_nat (length bytes))
    then \<exists>sv'. ReadCb E w fd ev sv = Inr (sv', []) \<and> submitted sv' = submitted sv @ [packet_task E fd req] \<and>
      net_ins sv' fd = es \<and> packet_length (socket_states sv' fd) = 0 \<and> receive_buf_offset (socket_states sv' fd) = 0
    else ReadCb E w fd ev sv = Inl OutOfBounds"
proof -
  let ?sz = "receive_buf_size (socket_states sv fd)"
  obtain sv1 where h: "read_header E w fd sv = Inr sv1" "net_ins sv1 = (net_ins sv)(fd := Chunk bytes # es)"
    "submitted sv1 = submitted sv" "unat (packet_length (socket_states sv1 fd)) = length bytes"
    "unread_length (socket_states sv1 fd) = packet_length (socket_states sv1 fd)"
    "receive_buf_offset (socket_states sv1 fd) = 0" "0 < length (receive_buf (socket_states sv1 fd))"
    "length (receive_buf (socket_states sv1 fd)) = (if length bytes \<le> unat ?sz then unat ?sz
       else unat (ucast (rounddown_pow_of_two (ucast (of_nat (length bytes) :: uint32))) :: uint32))"
    using read_header_ok [OF assms(1-5), of w] by blast
  have fits: "length bytes \<le> length (receive_buf (socket_states sv1 fd)) \<longleftrightarrow>
      length bytes \<le> unat ?sz \<or> is_power_of_2 (of_nat (length bytes))"
    using h(8) long_packet(3) [OF assms(3,4)] by auto
  have "ReadCb E w fd ev sv = read_body E w fd sv1" using h(1) assms(7) by (simp add: ReadCb_def)
  then show ?thesis
    using read_body_whole [OF _ h(4,5) assms(3) h(6,7) assms(6), of es w] h(2,3) fits
    by (auto simp: Let_def split: if_splits)
qed

text \<open>C12. A framed request that has arrived whole becomes exactly one task, with its descriptor, its
  method and its parameters, and the connection is ready for the next packet; but when the packet is
  longer than the receive buffer, up to 16384 bytes, the buffer is resized to the power of two below
  its length, and unless the length is a power of two itself the bytes are written beyond its end.\<close>

theorem whole_packet_submitted:
  assumes "between_packets sv fd" "net_ins sv fd = Chunk (frame bytes) # es" "0 < length bytes" "length bytes \<le> 16384"
    "\<forall>k. alloc_ok E k" "ParseRequest E (map Some bytes) = Some req" "ucast ev AND EV_READ \<noteq> 0"
  shows "if length bytes \<le> unat (receive_buf_size (socket_states sv fd)) \<or> is_power_of_2 (of_nat (length bytes))
    then \<exists>sv'. ReadCb E w fd ev sv = Inr (sv', []) \<and> submitted sv' = submitted sv @ [packet_task E fd req] \<and>
      net_ins sv' fd = es \<and> packet_length (socket_states sv' fd) = 0 \<and> receive_buf_offset (socket_states sv' fd) = 0
    else ReadCb E w fd ev sv = Inl OutOfBounds"
  by (rule whole_packet; fact assms)

section \<open>A packet that arrives in pieces\<close>

text \<open>Events on a connection one after the other.\<close>

fun read_calls ::
  "'ctx server_env \<Rightarrow> nat \<Rightarrow> nat \<Rightarrow> short \<Rightarrow> nat \<Rightarrow> 'ctx server \<Rightarrow> ('ctx server \<times> ev_op list) res" where
  "read_calls E w fd ev 0 sv = Inr (sv, [])"
| "read_calls E w fd ev (Suc m) sv =
     bind_res (ReadCb E w fd ev sv) (\<lambda>(sv, ops).
     bind_res (read_calls E w fd ev m sv) (\<lambda>(sv, ops'). Inr (sv, ops @ ops')))"

definition only_bytes :: "net_in list \<Rightarrow> bool" where
  "only_bytes es \<longleftrightarrow> (\<forall>e \<in> set es. \<exists>b bs. e = Chunk (b # bs))"

text \<open>In the middle of a packet: some of it was read and some is missing.\<close>

definition mid_packet :: "'ctx server \<Rightarrow> nat \<Rightarrow> bool" where
  "mid_packet sv fd \<longleftrightarrow>
     (let ss = socket_states sv fd; n = unat (packet_length ss) in
      receive_buf_offset ss + unat (unread_length ss) = n \<and> 0 < receive_buf_offset ss \<and> receive_buf_offset ss < n \<and>
      n \<le> length (receive_buf ss))"

lemma partial_read:
  assumes "0 < k" "k < unat (packet_length (socket_states sv fd))" "k \<le> unat (unread_length (socket_states sv fd))"
    "receive_buf_offset (socket_states sv fd) + unat (unread_length (socket_states sv fd)) \<le> length (receive_buf (socket_states sv fd))"
    "unat (packet_length (socket_states sv fd)) \<le> length (receive_buf (socket_states sv fd))"
    "net_ins sv fd = Chunk bs # es" "only_bytes (Chunk bs # es)" "k = min (unat (unread_length (socket_states sv fd))) (length bs)"
  shows "\<exists>sv'. read_body E w fd sv = Inr (sv', []) \<and> mid_packet sv' fd \<and> only_bytes (net_ins sv' fd) \<and>
    submitted sv' = submitted sv"
proof -
  let ?ss = "socket_states sv fd" and ?es = "if k = length bs then es else Chunk (drop k bs) # es"
  have r: "read_net fd (unat (unread_length ?ss)) sv = (int k, take k bs, sv\<lparr>net_ins := (net_ins sv)(fd := ?es)\<rparr>)"
    using assms(6,8) by (simp add: read_net_def Let_def)
  have ob: "only_bytes ?es"
  proof (cases "k = length bs")
    case True
    then show ?thesis using assms(7) by (simp add: only_bytes_def)
  next
    case False
    then obtain b cs where "drop k bs = b # cs" using assms(8) by (cases "drop k bs") auto
    then show ?thesis using assms(7) False by (simp add: only_bytes_def)
  qed
  have lt: "k < 2 ^ 32" using assms(2) unat_lt_power [of "packet_length ?ss"] by simp
  have w: "unat (word_of_int (int k) :: uint32) = k" using lt by (simp add: unat_of_nat take_bit_nat_eq_self)
  then have le: "(word_of_int (int k) :: uint32) < packet_length ?ss" using assms(2) by (simp add: word_less_nat_alt)
  then have sub: "unat (packet_length ?ss - word_of_int (int k)) = unat (packet_length ?ss) - k"
    using w by (simp add: unat_sub word_less_nat_alt word_le_nat_alt)
  have len: "length (take k bs) = k" using assms(8) by simp
  have st: "store_at (receive_buf_offset ?ss) (take k bs) (receive_buf ?ss) =
      Inr (take (receive_buf_offset ?ss) (receive_buf ?ss) @ map Some (take k bs) @ drop (receive_buf_offset ?ss + k) (receive_buf ?ss))"
    using assms(3,4) len by (simp add: store_at_def)
  have ne: "receive_buf ?ss \<noteq> []" using assms(2,5) by auto
  have l2: "length (take (receive_buf_offset ?ss) (receive_buf ?ss) @ map Some (take k bs) @ drop (receive_buf_offset ?ss + k) (receive_buf ?ss)) =
      length (receive_buf ?ss)"
    using assms(3,4) len by simp
  show ?thesis
    using assms(1,2,5) r st ne le sub ob l2 w
    by (simp add: read_body_def read_into_def Let_def mid_packet_def)
qed

lemma mid_step:
  assumes "mid_packet sv fd" "only_bytes (net_ins sv fd)" "ucast ev AND EV_READ \<noteq> 0"
  shows "\<exists>sv'. ReadCb E w fd ev sv = Inr (sv', []) \<and> mid_packet sv' fd \<and> only_bytes (net_ins sv' fd) \<and>
    submitted sv' = submitted sv"
proof -
  let ?ss = "socket_states sv fd"
  have m: "receive_buf_offset ?ss + unat (unread_length ?ss) = unat (packet_length ?ss)" "0 < receive_buf_offset ?ss"
    "receive_buf_offset ?ss < unat (packet_length ?ss)" "unat (packet_length ?ss) \<le> length (receive_buf ?ss)"
    using assms(1) by (simp_all add: mid_packet_def Let_def)
  then have "packet_length ?ss \<noteq> 0" by auto
  then have r: "ReadCb E w fd ev sv = read_body E w fd sv" using assms(3) by (simp add: ReadCb_def read_header_def)
  show ?thesis
  proof (cases "net_ins sv fd")
    case Nil
    have ne: "receive_buf ?ss \<noteq> []" using m by auto
    have "store_at (receive_buf_offset ?ss) [] (receive_buf ?ss) = Inr (receive_buf ?ss)"
      using m by (simp add: store_at_def)
    then have "read_body E w fd sv = Inr (upd_sock fd (\<lambda>ss. ss\<lparr>receive_buf := receive_buf ?ss\<rparr>) (sv\<lparr>last_errno := EAGAIN\<rparr>), [])"
      using ne Nil by (simp add: read_body_def read_into_def Let_def read_net_def)
    then show ?thesis using r m Nil by (simp add: mid_packet_def only_bytes_def)
  next
    case (Cons e es)
    then obtain bs where e: "e = Chunk bs" "bs \<noteq> []" using assms(2) by (auto simp: only_bytes_def)
    let ?k = "min (unat (unread_length ?ss)) (length bs)"
    have "0 < ?k" "?k < unat (packet_length ?ss)" using m e(2) by auto
    then show ?thesis
      unfolding r using m assms(2) Cons e by (intro partial_read [where k = ?k and bs = bs and es = es]) simp_all
  qed
qed

lemma mid_calls:
  "mid_packet sv fd \<Longrightarrow> only_bytes (net_ins sv fd) \<Longrightarrow> ucast ev AND EV_READ \<noteq> 0 \<Longrightarrow>
   \<exists>sv'. read_calls E w fd ev m sv = Inr (sv', []) \<and> submitted sv' = submitted sv \<and> mid_packet sv' fd"
proof (induction m arbitrary: sv)
  case (Suc m)
  obtain sv1 where "ReadCb E w fd ev sv = Inr (sv1, [])" "mid_packet sv1 fd" "only_bytes (net_ins sv1 fd)"
    "submitted sv1 = submitted sv"
    using mid_step [OF Suc.prems] by blast
  then show ?case using Suc.IH [of sv1] Suc.prems(3) by auto
qed simp

text \<open>C35. When only a part of a packet is there at the first read, the packet is lost: the length of each
  later read is compared with the length of the whole packet, so no read completes it; whatever bytes
  follow, no task is made and the connection is not closed.\<close>

theorem split_packet_never_completes:
  assumes "between_packets sv fd" "unat n \<le> unat (receive_buf_size (socket_states sv fd))"
    "net_ins sv fd = Chunk (be_bytes n @ bytes) # es" "0 < length bytes" "length bytes < unat n" "only_bytes es"
    "ucast ev AND EV_READ \<noteq> 0"
  shows "\<exists>sv'. read_calls E w fd ev m sv = Inr (sv', []) \<and> submitted sv' = submitted sv"
proof (cases m)
  case (Suc j)
  let ?sv1 = "upd_sock fd (\<lambda>ss. ss\<lparr>packet_length := n, unread_length := n\<rparr>) (sv\<lparr>net_ins := (net_ins sv)(fd := Chunk bytes # es)\<rparr>)"
  have b: "packet_length (socket_states sv fd) = 0" "receive_buf_offset (socket_states sv fd) = 0"
    "length (receive_buf (socket_states sv fd)) = unat (receive_buf_size (socket_states sv fd))"
    using assms(1) by (simp_all add: between_packets_def Let_def)
  have r: "read_net fd 4 sv = (4, be_bytes n, sv\<lparr>net_ins := (net_ins sv)(fd := Chunk bytes # es)\<rparr>)"
    using assms(3,4) by (simp add: read_net_def Let_def)
  have "\<not> n > receive_buf_size (socket_states sv fd)" using assms(2) by (simp add: word_less_nat_alt)
  then have "read_header E w fd sv = Inr ?sv1" using b r by (simp add: read_header_def Let_def)
  then have c: "ReadCb E w fd ev sv = read_body E w fd ?sv1" using assms(7) by (simp add: ReadCb_def)
  have "only_bytes (Chunk bytes # es)" using assms(4,6) by (cases bytes) (auto simp: only_bytes_def)
  then obtain sv2 where sv2: "read_body E w fd ?sv1 = Inr (sv2, [])" "mid_packet sv2 fd" "only_bytes (net_ins sv2 fd)"
    "submitted sv2 = submitted ?sv1"
    using partial_read [of "length bytes" ?sv1 fd bytes es E w] assms(2,4,5) b by auto
  obtain sv' where "read_calls E w fd ev j sv2 = Inr (sv', [])" "submitted sv' = submitted sv2"
    using mid_calls [OF sv2(2,3) assms(7)] by blast
  then show ?thesis using Suc c sv2 by auto
qed simp

section \<open>Responses\<close>

definition buffers_empty :: "'ctx server \<Rightarrow> bool" where
  "buffers_empty sv \<longleftrightarrow> (\<forall>fd. let ob = obuffer (socket_states sv fd) in
     ob_ok ob \<and> unsent ob = [] \<and> used_buffer_size ob = 0)"

lemma unsent_consumed:
  assumes "ob_ok ob" "unsent ob = []" "AdjustBuffer ob = Inr ob'"
  shows "used_buffer_size ob' = 0"
proof -
  have "unat (BufferContentsSize ob) = 0" using length_unsent [OF assms(1)] assms(2) by simp
  then have "used_buffer_size ob = consume_offset ob" by (simp add: BufferContentsSize_def unat_eq_0)
  then show ?thesis using assms(3) by (auto simp: AdjustBuffer_def)
qed

lemma respond_whole:
  assumes "buffers_empty sv" "write_results sv = []" "\<forall>k. alloc_ok E k"
    "length (SerializeResponse E (response_content r)) + 4 \<le> 2 ^ 31"
  shows "\<exists>sv'. respond E r sv = Inr sv' \<and> buffers_empty sv' \<and> write_results sv' = [] \<and>
    written sv' = written sv @ [(nat (rfd r), frame (SerializeResponse E (response_content r)))]"
proof -
  let ?fd = "nat (rfd r)" and ?bs = "SerializeResponse E (response_content r)"
  let ?ob = "obuffer (socket_states sv ?fd)" and ?h = "be_bytes (of_nat (length ?bs))"
  have ok: "ob_ok ?ob" "unsent ?ob = []" "used_buffer_size ?ob = 0"
    using assms(1) by (simp_all add: buffers_empty_def Let_def)
  obtain ob1 where o1: "put_bytes (alloc_ok E) ?h ?ob = Inr ob1" "ob_ok ob1" "unsent ob1 = ?h"
    "unat (used_buffer_size ob1) = 4"
    using put_bytes_ok [of ?ob "alloc_ok E" ?h] ok assms(3) by auto
  obtain ob2 where o2: "put_bytes (alloc_ok E) ?bs ob1 = Inr ob2" "ob_ok ob2" "unsent ob2 = frame ?bs"
    using put_bytes_ok [of ob1 "alloc_ok E" ?bs] o1 assms(3,4) by (auto simp: frame_def)
  have c: "contents_bytes ob2 = Inr (map Some (frame ?bs))" using contents_bytes_ok [OF o2(2)] o2(3) by simp
  let ?n = "word_of_int (int (length (frame ?bs))) :: uint32"
  have "unat (of_nat (length (frame ?bs)) :: uint32) = length (frame ?bs)"
    by (rule unat_len) (use assms(4) in \<open>simp add: frame_def\<close>)
  then have n: "unat ?n = length (frame ?bs)" by simp
  have o3: "ob_ok (Consume ?n ob2)" "unsent (Consume ?n ob2) = []"
    using Consume_ok [OF o2(2), of ?n] n o2(3) by simp_all
  obtain ob4 where o4: "AdjustBuffer (Consume ?n ob2) = Inr ob4" "ob_ok ob4" "unsent ob4 = []"
    using AdjustBuffer_ok [OF o3(1)] o3(2) by auto
  have u: "used_buffer_size ob4 = 0" using unsent_consumed [OF o3 o4(1)] .
  show ?thesis
    using assms(1,2) o1(1) o2(1) c o4 u by (simp add: respond_def Let_def buffers_empty_def o_def)
qed

lemma respond_all_whole:
  assumes "\<forall>k. alloc_ok E k"
  shows "buffers_empty sv \<Longrightarrow> write_results sv = [] \<Longrightarrow>
    \<forall>r \<in> set rs. length (SerializeResponse E (response_content r)) + 4 \<le> 2 ^ 31 \<Longrightarrow>
    \<exists>sv'. respond_all E rs sv = Inr sv' \<and> buffers_empty sv' \<and>
      written sv' = written sv @ map (\<lambda>r. (nat (rfd r), frame (SerializeResponse E (response_content r)))) rs"
proof (induction rs arbitrary: sv)
  case (Cons r rs)
  obtain sv1 where "respond E r sv = Inr sv1" "buffers_empty sv1" "write_results sv1 = []"
    "written sv1 = written sv @ [(nat (rfd r), frame (SerializeResponse E (response_content r)))]"
    using respond_whole [OF Cons.prems(1,2) assms] Cons.prems(3) by auto
  then show ?case using Cons.IH [of sv1] Cons.prems(3) by auto
qed simp


section \<open>Examples\<close>

definition demo_env :: "unit server_env" where
  "demo_env =
     \<lparr>alloc_ok = (\<lambda>_. True), ParseRequest = (\<lambda>bs. Some \<lparr>method_id = 7, contents = map (\<lambda>b. char_of (unat (the b))) bs\<rparr>),
      SerializeResponse = (\<lambda>r. c_bytes (response_contents r)), service_methods = (\<lambda>_. None), context_of = (),
      old_task = \<lparr>tfd = 0, tcall = Call, request_content = \<lparr>method_id = 0, contents = []\<rparr>, store_response = []\<rparr>,
      new_io = (\<lambda>s k. if active (ios s (k + 100)) = 0 \<and> pending (ios s (k + 100)) = 0 then Some (k + 100) else None)\<rparr>"

definition demo_server :: "(nat \<Rightarrow> net_in list) \<Rightarrow> response list \<Rightarrow> unit server" where
  "demo_server ins rs =
     \<lparr>socket_states = (\<lambda>_. SocketState (\<lambda>_. True) 0 False), net_ins = ins, write_results = [], last_errno = 0,
      fd_queue = [5], response_queue = rs, submitted = [], written = []\<rparr>"

lemma demo_between: "between_packets (demo_server ins rs) fd"
  by (simp add: between_packets_def demo_server_def SocketState_def RECEIVE_BUF_SIZE_def realloc_bytes_def mm_realloc_def)

lemma demo_read: "(ucast (1 :: short) :: uint32) AND EV_READ \<noteq> 0" by code_simp


theorem whole_packet_submitted_witness:
  "\<exists>sv'. ReadCb demo_env 3 5 1 (demo_server ((\<lambda>_. [])(5 := [Chunk (frame [104, 105])])) []) = Inr (sv', []) \<and>
     submitted sv' = [packet_task demo_env 5 \<lparr>method_id = 7, contents = ''hi''\<rparr>]"
proof -
  let ?sv = "demo_server ((\<lambda>_. [])(5 := [Chunk (frame [104, 105])])) []"
  have sz: "receive_buf_size (socket_states ?sv 5) = 128" "submitted ?sv = []"
    by (simp_all add: demo_server_def SocketState_def RECEIVE_BUF_SIZE_def)
  have p: "ParseRequest demo_env (map Some [104, 105]) = Some \<lparr>method_id = 7, contents = ''hi''\<rparr>"
  proof -
    have "map (\<lambda>b :: byte option. char_of (unat (the b)) :: char) (map Some [104, 105]) = ''hi''" by code_simp
    then show ?thesis by (simp add: demo_env_def)
  qed
  have n: "net_ins ?sv 5 = Chunk (frame [104, 105]) # []" by (simp add: demo_server_def)
  have "\<forall>k. alloc_ok demo_env k" by (simp add: demo_env_def)
  then show ?thesis
    using whole_packet_submitted [OF demo_between n _ _ _ p demo_read, of 3] sz by auto
qed

theorem split_packet_never_completes_witness:
  "\<exists>sv'. read_calls demo_env 3 5 1 9 (demo_server ((\<lambda>_. [])(5 := [Chunk (be_bytes 4 @ [1, 2]), Chunk [3, 4]])) []) = Inr (sv', []) \<and>
     submitted sv' = []"
proof -
  let ?sv = "demo_server ((\<lambda>_. [])(5 := [Chunk (be_bytes 4 @ [1, 2]), Chunk [3, 4]])) []"
  have n: "net_ins ?sv 5 = Chunk (be_bytes 4 @ [1, 2]) # [Chunk [3, 4]]" by (simp add: demo_server_def)
  have "receive_buf_size (socket_states ?sv 5) = 128" "submitted ?sv = []"
    by (simp_all add: demo_server_def SocketState_def RECEIVE_BUF_SIZE_def)
  moreover have "only_bytes [Chunk [3, 4]]" by (simp add: only_bytes_def)
  ultimately show ?thesis
    using split_packet_never_completes [OF demo_between _ n _ _ _ demo_read, of demo_env 3 9] by auto
qed


end
