(* ===== verification/Sockets.thy ===== *)
theory Sockets
  imports Logger
begin

text \<open>
  The helpers of \<open>util.cpp\<close> and \<open>util.h\<close> that talk to the operating system: opening sockets, reading a
  file, leaving the terminal. The kernel is a table of descriptors, the files there are and a script
  of what the next system calls answer; a call beyond the script succeeds. \<open>getaddrinfo\<close>,
  \<open>inet_pton\<close> and \<open>getenv\<close> are arguments.
\<close>

section \<open>The operating system\<close>

datatype kkind = Socket | Regular string | DevNull | EventFd | EpollInstance

record kobj =
  kkind :: kkind
  status_flags :: int
  descriptor_flags :: int
  reuse_addr :: bool
  bound :: "(string \<times> int) option"
  peer :: "(string \<times> int) option"
  is_listening :: bool

definition new_obj :: "kkind \<Rightarrow> kobj" where
  "new_obj k = \<lparr>kkind = k, status_flags = 2, descriptor_flags = 0, reuse_addr = False, bound = None,
     peer = None, is_listening = False\<rparr>"

text \<open>Answers: success with a number (the \<open>n\<close> of \<open>fork\<close>, of \<open>select\<close> or of \<open>SO_ERROR\<close>), failure with an
  \<open>errno\<close>, a \<open>read\<close> that stops early, a \<open>select\<close> that reports bits of which the socket's is one or not.\<close>

datatype sys = Done int | Fail int | Short nat | Selected int bool

record os =
  fd_table :: "kobj option list"
  answers :: "sys list"
  os_errno :: int
  files :: "string \<Rightarrow> string option"
  session_leader :: bool

definition EINTR_nr :: int where "EINTR_nr = 4"
definition EBADF_nr :: int where "EBADF_nr = 9"
definition EINVAL_nr :: int where "EINVAL_nr = 22"
definition ENOENT_nr :: int where "ENOENT_nr = 2"
definition ETIMEDOUT :: int where "ETIMEDOUT = 110"
definition EINPROGRESS :: int where "EINPROGRESS = 115"
definition O_NONBLOCK :: int where "O_NONBLOCK = 2048"
definition FD_CLOEXEC :: int where "FD_CLOEXEC = 1"

definition next_answer :: "os \<Rightarrow> sys \<times> os" where
  "next_answer s = (case answers s of [] \<Rightarrow> (Done 0, s) | a # rest \<Rightarrow> (a, s\<lparr>answers := rest\<rparr>))"

definition fail_with :: "int \<Rightarrow> os \<Rightarrow> int \<times> os" where
  "fail_with e s = (- 1, s\<lparr>os_errno := e\<rparr>)"

text \<open>What a descriptor stands for. A new one is the lowest that is free.\<close>

definition obj_of :: "os \<Rightarrow> nat \<Rightarrow> kobj option" where
  "obj_of s d = (if d < length (fd_table s) then fd_table s ! d else None)"

definition set_obj :: "nat \<Rightarrow> kobj option \<Rightarrow> os \<Rightarrow> os" where
  "set_obj d ob s =
     s\<lparr>fd_table := (fd_table s @ replicate (Suc d - length (fd_table s)) None)[d := ob]\<rparr>"

definition lowest_free :: "os \<Rightarrow> nat" where
  "lowest_free s = length (takeWhile (\<lambda>ob. ob \<noteq> None) (fd_table s))"

definition new_fd :: "kobj \<Rightarrow> os \<Rightarrow> int \<times> os" where
  "new_fd ob s = (let d = lowest_free s in (int d, set_obj d (Some ob) s))"

definition upd_obj :: "int \<Rightarrow> (kobj \<Rightarrow> kobj) \<Rightarrow> os \<Rightarrow> os" where
  "upd_obj d f s =
     (case obj_of s (nat d) of None \<Rightarrow> s | Some ob \<Rightarrow> set_obj (nat d) (Some (f ob)) s)"

section \<open>System calls\<close>

definition sys_close :: "int \<Rightarrow> os \<Rightarrow> os" where
  "sys_close d s = set_obj (nat d) None s"

definition sys_socket :: "os \<Rightarrow> int \<times> os" where
  "sys_socket s =
     (case next_answer s of (Fail e, s) \<Rightarrow> fail_with e s | (_, s) \<Rightarrow> new_fd (new_obj Socket) s)"

text \<open>A call on a descriptor that changes its object when it succeeds.\<close>

definition sys_on :: "int \<Rightarrow> (kobj \<Rightarrow> kobj) \<Rightarrow> os \<Rightarrow> int \<times> os" where
  "sys_on d f s =
     (case next_answer s of (Fail e, s) \<Rightarrow> fail_with e s | (_, s) \<Rightarrow> (0, upd_obj d f s))"

definition fcntl_getfl :: "int \<Rightarrow> os \<Rightarrow> int \<times> os" where
  "fcntl_getfl d s =
     (case obj_of s (nat d) of None \<Rightarrow> fail_with EBADF_nr s | Some ob \<Rightarrow> (status_flags ob, s))"

definition fcntl_getfd :: "int \<Rightarrow> os \<Rightarrow> int \<times> os" where
  "fcntl_getfd d s =
     (case obj_of s (nat d) of None \<Rightarrow> fail_with EBADF_nr s | Some ob \<Rightarrow> (descriptor_flags ob, s))"

definition fcntl_setfl :: "int \<Rightarrow> int \<Rightarrow> os \<Rightarrow> int \<times> os" where
  "fcntl_setfl d fl s =
     (if obj_of s (nat d) = None then fail_with EBADF_nr s else (0, upd_obj d (\<lambda>ob. ob\<lparr>status_flags := fl\<rparr>) s))"

definition fcntl_setfd :: "int \<Rightarrow> int \<Rightarrow> os \<Rightarrow> int \<times> os" where
  "fcntl_setfd d fl s =
     (if obj_of s (nat d) = None then fail_with EBADF_nr s else (0, upd_obj d (\<lambda>ob. ob\<lparr>descriptor_flags := fl\<rparr>) s))"

definition sys_select :: "os \<Rightarrow> int \<times> bool \<times> os" where
  "sys_select s =
     (case next_answer s of
        (Fail e, s) \<Rightarrow> (- 1, True, s\<lparr>os_errno := e\<rparr>)
      | (Selected n b, s) \<Rightarrow> (n, b, s)
      | (Done n, s) \<Rightarrow> (n, n > 0, s)
      | (Short n, s) \<Rightarrow> (int n, n > 0, s))"

text \<open>\<open>SO_ERROR\<close>: 0 when the connection has been made.\<close>

definition get_so_error :: "int \<Rightarrow> (string \<times> int) \<Rightarrow> os \<Rightarrow> int \<times> int \<times> os" where
  "get_so_error d addr s =
     (case next_answer s of
        (Fail e, s) \<Rightarrow> (- 1, 0, s\<lparr>os_errno := e\<rparr>)
      | (Done n, s) \<Rightarrow> (0, n, if n = 0 then upd_obj d (\<lambda>ob. ob\<lparr>peer := Some addr\<rparr>) s else s)
      | (_, s) \<Rightarrow> (0, 0, upd_obj d (\<lambda>ob. ob\<lparr>peer := Some addr\<rparr>) s))"

section \<open>Descriptors\<close>

definition CreateEventFd :: "os \<Rightarrow> int \<times> os" where
  "CreateEventFd s =
     (let open_event = (\<lambda>fl dfl s. case next_answer s of (Fail e, s) \<Rightarrow> fail_with e s
            | (_, s) \<Rightarrow> new_fd ((new_obj EventFd)\<lparr>status_flags := fl, descriptor_flags := dfl\<rparr>) s);
          (d, s) = open_event (2 OR O_NONBLOCK) FD_CLOEXEC s
      in if d < 0 \<and> os_errno s = EINVAL_nr then open_event 2 0 s else (d, s))"

definition MakeSocketNonblocking :: "int \<Rightarrow> os \<Rightarrow> int \<times> os" where
  "MakeSocketNonblocking d s =
     (case fcntl_getfl d s of (flags, s) \<Rightarrow>
        if flags < 0 then (- 1, s)
        else case fcntl_setfl d (flags OR O_NONBLOCK) s of (r, s) \<Rightarrow> if r = - 1 then (- 1, s) else (0, s))"

definition MakeSocketCloseonexec :: "int \<Rightarrow> os \<Rightarrow> int \<times> os" where
  "MakeSocketCloseonexec d s =
     (case fcntl_getfd d s of (flags, s) \<Rightarrow>
        if flags < 0 then (- 1, s)
        else case fcntl_setfd d (flags OR FD_CLOEXEC) s of (r, s) \<Rightarrow> if r = - 1 then (- 1, s) else (0, s))"

section \<open>CreateSocketAndListen\<close>

record addrinfo =
  ai_addr :: "string \<times> int"
  ai_addrlen :: uint32

text \<open>The loop over the addresses; \<open>None\<close> is the null pointer at the end of the list.\<close>

fun try_addresses :: "addrinfo list \<Rightarrow> os \<Rightarrow> (int \<times> addrinfo) option \<times> os" where
  "try_addresses [] s = (None, s)"
| "try_addresses (a # rest) s =
     (case sys_socket s of (listenfd, s) \<Rightarrow>
        if listenfd < 0 then try_addresses rest s
        else
          (case sys_on listenfd (\<lambda>ob. ob\<lparr>reuse_addr := True\<rparr>) s of (_, s) \<Rightarrow>
             (case sys_on listenfd (\<lambda>ob. ob\<lparr>bound := Some (ai_addr a)\<rparr>) s of (r, s) \<Rightarrow>
                if r = 0 then (Some (listenfd, a), s)
                else try_addresses rest (sys_close listenfd s))))"

text \<open>\<open>gai\<close> is the result of \<open>getaddrinfo\<close>; when it fails, \<open>res\<close> has never been set.\<close>

definition CreateSocketAndListen :: "int \<times> addrinfo list \<Rightarrow> bool \<Rightarrow> os \<Rightarrow> (int \<times> uint32 option \<times> os) res" where
  "CreateSocketAndListen gai want_len s =
     (if fst gai \<noteq> 0 then Inl Dangling
      else if snd gai = [] then Inl NullDeref
      else
        case try_addresses (snd gai) s of
          (None, s) \<Rightarrow> Inr (- 1, None, s)
        | (Some (listenfd, a), s) \<Rightarrow>
            (case sys_on listenfd (\<lambda>ob. ob\<lparr>is_listening := True\<rparr>) s of (_, s) \<Rightarrow>
               Inr (listenfd, if want_len then Some (ai_addrlen a) else None, s)))"

section \<open>CreateSocketAndConnect\<close>

fun select_loop :: "nat \<Rightarrow> int \<Rightarrow> bool \<Rightarrow> os \<Rightarrow> int \<times> bool \<times> os" where
  "select_loop 0 ret isset s = (ret, isset, s)"
| "select_loop (Suc i) ret isset s =
     (case sys_select s of (ret, isset, s) \<Rightarrow>
        if ret = - 1 \<and> os_errno s = EINTR_nr then select_loop i ret isset s else (ret, isset, s))"

text \<open>Waiting for a connection under way: \<open>Inl\<close> is the return with -1, \<open>Inr\<close> the \<open>error\<close> found.\<close>

definition wait_connected :: "int \<Rightarrow> (string \<times> int) \<Rightarrow> os \<Rightarrow> os + int \<times> os" where
  "wait_connected d addr s =
     (case select_loop 3 (- 1) True s of (ret, isset, s) \<Rightarrow>
        if ret = 0 then Inl ((sys_close d s)\<lparr>os_errno := ETIMEDOUT\<rparr>)
        else if ret < 0 then Inl (sys_close d s)
        else if isset
        then (case get_so_error d addr s of (r, error, s) \<Rightarrow> if r < 0 then Inr (- 1, s) else Inr (error, s))
        else Inr (- 1, s))"

text \<open>The part of \<open>CreateSocketAndConnect\<close> after \<open>socket\<close> and \<open>bind\<close>.\<close>

definition connect_from :: "string \<Rightarrow> int \<Rightarrow> int \<Rightarrow> os \<Rightarrow> int \<times> os" where
  "connect_from ip prt d s =
     (let (flags, s) = fcntl_getfl d s;
          (_, s) = fcntl_setfl d (flags OR O_NONBLOCK) s;
          (ret, s) = sys_on d (\<lambda>ob. ob\<lparr>peer := Some (ip, prt)\<rparr>) s
      in if ret < 0 \<and> os_errno s \<noteq> EINPROGRESS then (- 1, sys_close d s)
         else
           case (if ret \<noteq> 0 then wait_connected d (ip, prt) s else Inr (0, s)) of
             Inl s \<Rightarrow> (- 1, s)
           | Inr (error, s) \<Rightarrow>
               (case fcntl_setfl d flags s of (_, s) \<Rightarrow>
                  if error \<noteq> 0
                  then (let s = sys_close d s in (- 1, if error \<noteq> - 1 then s\<lparr>os_errno := error\<rparr> else s))
                  else (d, s)))"

definition CreateSocketAndConnect ::
  "(string \<Rightarrow> bool) \<Rightarrow> string \<Rightarrow> int \<Rightarrow> (string \<times> int) option \<Rightarrow> os \<Rightarrow> int \<times> os" where
  "CreateSocketAndConnect inet_pton ip prt bind_to s =
     (if \<not> inet_pton ip then (- 1, s)
      else if (case bind_to of None \<Rightarrow> False | Some (bip, _) \<Rightarrow> \<not> inet_pton bip) then (- 1, s)
      else
        let (d, s) = sys_socket s in
        if d < 0 then (d, s)
        else connect_from ip prt d
               (case bind_to of None \<Rightarrow> s | Some a \<Rightarrow> snd (sys_on d (\<lambda>ob. ob\<lparr>bound := Some a\<rparr>) s)))"

section \<open>ReadFile\<close>

definition sys_open :: "string \<Rightarrow> os \<Rightarrow> int \<times> os" where
  "sys_open path s =
     (case next_answer s of
        (Fail e, s) \<Rightarrow> fail_with e s
      | (_, s) \<Rightarrow>
          (case files s path of
             None \<Rightarrow> fail_with ENOENT_nr s
           | Some c \<Rightarrow> new_fd (new_obj (if path = ''/dev/null'' then DevNull else Regular c)) s))"

definition file_of :: "os \<Rightarrow> int \<Rightarrow> string" where
  "file_of s d = (case obj_of s (nat d) of Some ob \<Rightarrow> (case kkind ob of Regular c \<Rightarrow> c | _ \<Rightarrow> []) | None \<Rightarrow> [])"

definition sys_fstat :: "int \<Rightarrow> os \<Rightarrow> int \<times> nat \<times> os" where
  "sys_fstat d s =
     (case next_answer s of (Fail e, s) \<Rightarrow> (- 1, 0, s\<lparr>os_errno := e\<rparr>) | (_, s) \<Rightarrow> (0, length (file_of s d), s))"

definition sys_read :: "int \<Rightarrow> nat \<Rightarrow> os \<Rightarrow> int \<times> string \<times> os" where
  "sys_read d n s =
     (case next_answer s of
        (Fail e, s) \<Rightarrow> (- 1, [], s\<lparr>os_errno := e\<rparr>)
      | (Short k, s) \<Rightarrow> (let bs = take (min k n) (file_of s d) in (int (length bs), bs, s))
      | (_, s) \<Rightarrow> (let bs = take n (file_of s d) in (int (length bs), bs, s)))"

definition expand_path :: "string option \<Rightarrow> string \<Rightarrow> string res" where
  "expand_path HOME path =
     (case path of
        CHR ''~'' # rest \<Rightarrow> (case HOME of None \<Rightarrow> Inl NullDeref | Some h \<Rightarrow> Inr (take 255 (h @ rest)))
      | _ \<Rightarrow> Inr (take 255 path))"

text \<open>\<open>contents->resize\<close> keeps what the string held and fills up with NUL.\<close>

definition resize :: "nat \<Rightarrow> string \<Rightarrow> string" where
  "resize n c = take n c @ replicate (n - length c) (CHR 0x00)"

definition ReadFile :: "string option \<Rightarrow> string \<Rightarrow> string \<Rightarrow> os \<Rightarrow> (bool \<times> string \<times> os) res" where
  "ReadFile HOME path contents s =
     bind_res (expand_path HOME path) (\<lambda>name.
     case sys_open name s of (d, s) \<Rightarrow>
       if d > 0
       then
         (case sys_fstat d s of (r, n, s) \<Rightarrow>
            if r = 0
            then
              (case sys_read d n s of (k, bs, s) \<Rightarrow>
                 Inr (k = int n, bs @ drop (length bs) (resize n contents), sys_close d s))
            else Inr (False, contents, sys_close d s))
       else Inr (False, contents, s))"

section \<open>Daemonize\<close>

definition dup2 :: "int \<Rightarrow> nat \<Rightarrow> os \<Rightarrow> os" where
  "dup2 d n s = (case obj_of s (nat d) of None \<Rightarrow> s | Some ob \<Rightarrow> set_obj n (Some ob) s)"

definition Daemonize :: "os \<Rightarrow> os res" where
  "Daemonize s =
     (let (a, s) = next_answer s in
      if a \<noteq> Done 0 then Inl (ProcessExit 0)
      else
        let (d, s) = sys_open ''/dev/null'' (s\<lparr>session_leader := True\<rparr>)
        in if d \<noteq> - 1
           then (let s = dup2 d 2 (dup2 d 1 (dup2 d 0 s)) in Inr (if d > 2 then sys_close d s else s))
           else Inr s)"

section \<open>Descriptors come and go\<close>

lemma obj_of_fields [simp]:
  "obj_of (s\<lparr>os_errno := e\<rparr>) = obj_of s" "obj_of (s\<lparr>answers := a\<rparr>) = obj_of s" "obj_of (s\<lparr>session_leader := b\<rparr>) = obj_of s"
  by (auto simp: obj_of_def fun_eq_iff)

lemma obj_of_set [simp]: "obj_of (set_obj d ob s) = (obj_of s)(d := ob)"
  by (auto simp: obj_of_def set_obj_def fun_eq_iff nth_list_update nth_append)

lemma obj_of_lowest: "obj_of s (lowest_free s) = None"
  using nth_length_takeWhile [of "\<lambda>ob. ob \<noteq> None" "fd_table s"] by (auto simp: obj_of_def lowest_free_def)

lemma new_fd_cases:
  obtains n where "new_fd ob s = (int n, set_obj n (Some ob) s)" "obj_of s n = None"
  using obj_of_lowest [of s] by (auto simp: new_fd_def Let_def)

lemma next_answer_obj: "next_answer s = (a, s') \<Longrightarrow> obj_of s' = obj_of s"
  by (auto simp: next_answer_def split: list.splits)

lemma obj_of_upd:
  "obj_of s n = Some ob \<Longrightarrow> obj_of (upd_obj (int n) f s) = (obj_of s)(n := Some (f ob))"
  by (simp add: upd_obj_def)

lemma obj_of_close [simp]: "obj_of (sys_close (int n) s) = (obj_of s)(n := None)"
  by (simp add: sys_close_def)

lemma sys_socket_cases:
  obtains (failed) e s' where "sys_socket s = (- 1, s'\<lparr>os_errno := e\<rparr>)" "obj_of s' = obj_of s"
  | (made) n s' where "sys_socket s = (int n, s')" "obj_of s n = None" "obj_of s' = (obj_of s)(n := Some (new_obj Socket))"
proof (cases "next_answer s")
  case (Pair a s1)
  note o = next_answer_obj [OF Pair]
  show thesis
  proof (cases "\<exists>e. a = Fail e")
    case True
    then obtain e where "a = Fail e" by auto
    then show thesis using Pair o by (intro failed [where s' = s1 and e = e]) (auto simp: sys_socket_def fail_with_def)
  next
    case False
    obtain n where "new_fd (new_obj Socket) s1 = (int n, set_obj n (Some (new_obj Socket)) s1)" "obj_of s1 n = None"
      by (rule new_fd_cases)
    then show thesis using False Pair o
      by (intro made [where n = n and s' = "set_obj n (Some (new_obj Socket)) s1"]) (auto simp: sys_socket_def split: sys.splits)
  qed
qed

lemma sys_on_cases:
  assumes "obj_of s n = Some ob"
  obtains (failed) e s' where "sys_on (int n) f s = (- 1, s'\<lparr>os_errno := e\<rparr>)" "obj_of s' = obj_of s"
  | (succeeded) s' where "sys_on (int n) f s = (0, s')" "obj_of s' = (obj_of s)(n := Some (f ob))"
proof (cases "next_answer s")
  case (Pair a s1)
  note o = next_answer_obj [OF Pair]
  show thesis
  proof (cases "\<exists>e. a = Fail e")
    case True
    then obtain e where "a = Fail e" by auto
    then show thesis using Pair o by (intro failed [where s' = s1 and e = e]) (auto simp: sys_on_def fail_with_def)
  next
    case False
    then show thesis using Pair o assms obj_of_upd [of s1 n ob f]
      by (intro succeeded [where s' = "upd_obj (int n) f s1"]) (auto simp: sys_on_def split: sys.splits)
  qed
qed

section \<open>Listening\<close>

text \<open>A socket that \<open>try_addresses\<close> keeps is bound to one of the addresses; all others are closed.\<close>

lemma try_addresses_objs:
  "case try_addresses addrs s of
     (None, s') \<Rightarrow> obj_of s' = obj_of s
   | (Some (d, a), s') \<Rightarrow> \<exists>n ob. d = int n \<and> a \<in> set addrs \<and> obj_of s n = None \<and>
       obj_of s' = (obj_of s)(n := Some ob) \<and> kkind ob = Socket \<and> bound ob = Some (ai_addr a)"
proof (induction addrs arbitrary: s)
  case (Cons a rest)
  have keep: ?case
    if "try_addresses (a # rest) s = try_addresses rest s1" "obj_of s1 = obj_of s" for s1
    using Cons.IH [of s1] unfolding that(1) that(2) by (fastforce simp: fun_upd_def simp del: try_addresses.simps split: prod.splits option.splits)
  show ?case
  proof (cases s rule: sys_socket_cases)
    case (failed e s1)
    then show ?thesis by (intro keep [of "s1\<lparr>os_errno := e\<rparr>"]) auto
  next
    case (made n s1)
    obtain r2 s2 ob2 where s2: "sys_on (int n) (\<lambda>ob. ob\<lparr>reuse_addr := True\<rparr>) s1 = (r2, s2)"
      "obj_of s2 = (obj_of s)(n := Some ob2)" "kkind ob2 = Socket"
      using sys_on_cases [of s1 n "new_obj Socket" "\<lambda>ob. ob\<lparr>reuse_addr := True\<rparr>"] made
      by (metis fun_upd_same fun_upd_upd kobj.select_convs(1) kobj.update_convs(4) new_obj_def obj_of_fields(1))
    have o2: "obj_of s2 n = Some ob2" using s2 by simp
    show ?thesis
    proof (cases rule: sys_on_cases [OF o2, of "\<lambda>ob. ob\<lparr>bound := Some (ai_addr a)\<rparr>"])
      case (1 e s3)
      then show ?thesis using made s2
        by (intro keep [of "sys_close (int n) (s3\<lparr>os_errno := e\<rparr>)"]) (auto simp: fun_upd_idem)
    next
      case (2 s3)
      then show ?thesis using made s2 by auto
    qed
  qed
qed simp

text \<open>\<open>CreateSocketAndListen\<close> leaves no descriptor behind when it fails.\<close>

lemma listen_objs:
  assumes "fst gai = 0" "snd gai \<noteq> []"
  obtains (failed) s' where "CreateSocketAndListen gai want s = Inr (- 1, None, s')" "obj_of s' = obj_of s"
  | (bound) n ob a len s' where "CreateSocketAndListen gai want s = Inr (int n, len, s')" "a \<in> set (snd gai)"
    "obj_of s n = None" "obj_of s' = (obj_of s)(n := Some ob)" "kkind ob = Socket" "bound ob = Some (ai_addr a)"
proof (cases "try_addresses (snd gai) s")
  case (Pair r s1)
  show thesis
  proof (cases r)
    case None
    then show thesis using Pair assms try_addresses_objs [where addrs = "snd gai" and s = s]
      by (intro failed [where s' = s1]) (simp_all add: CreateSocketAndListen_def)
  next
    case (Some da)
    then obtain d a where da: "r = Some (d, a)" by (cases da) auto
    then obtain n ob where n: "d = int n" "a \<in> set (snd gai)" "obj_of s n = None"
      "obj_of s1 = (obj_of s)(n := Some ob)" "kkind ob = Socket" "bound ob = Some (ai_addr a)"
      using try_addresses_objs [where addrs = "snd gai" and s = s] Pair by auto
    have o: "obj_of s1 n = Some ob" using n by simp
    show thesis
    proof (cases rule: sys_on_cases [OF o, of "\<lambda>ob. ob\<lparr>is_listening := True\<rparr>"])
      case (1 e s2)
      then show thesis using Pair da n assms
        by (intro bound [where n = n and len = "if want then Some (ai_addrlen a) else None" and s' = "s2\<lparr>os_errno := e\<rparr>" and a = a and ob = ob])
          (simp_all add: CreateSocketAndListen_def)
    next
      case (2 s2)
      then show thesis using Pair da n assms
        by (intro bound [where n = n and len = "if want then Some (ai_addrlen a) else None" and s' = s2 and a = a and ob = "ob\<lparr>is_listening := True\<rparr>"])
          (simp_all add: CreateSocketAndListen_def)
    qed
  qed
qed

section \<open>Connecting\<close>

lemma select_loop_obj: "select_loop k r b s = (r', b', s') \<Longrightarrow> obj_of s' = obj_of s"
proof (induction k arbitrary: r b s)
  case (Suc k)
  obtain r1 b1 s1 where s: "sys_select s = (r1, b1, s1)" by (cases "sys_select s")
  then have "obj_of s1 = obj_of s"
    by (auto simp: sys_select_def dest!: next_answer_obj split: prod.splits sys.splits)
  then show ?case using Suc.IH [of r1 b1 s1] Suc.prems s by (auto split: if_splits)
qed simp

lemma so_error_obj:
  assumes "obj_of s n = Some ob" "get_so_error (int n) addr s = (r, e, s')"
  shows "obj_of s' = (obj_of s)(n := Some (if 0 \<le> r \<and> e = 0 then ob\<lparr>peer := Some addr\<rparr> else ob))"
proof (cases "next_answer s")
  case (Pair a s1)
  note o = next_answer_obj [OF Pair]
  then have "obj_of s1 n = Some ob" using assms(1) by simp
  from obj_of_upd [OF this, of "\<lambda>ob. ob\<lparr>peer := Some addr\<rparr>"] show ?thesis
    using assms(2) Pair o assms(1)
    by (cases a) (auto simp: get_so_error_def fun_upd_idem split: if_splits)
qed

lemma wait_connected_obj:
  assumes "obj_of s n = Some ob"
  shows "case wait_connected (int n) addr s of
     Inl s' \<Rightarrow> obj_of s' = (obj_of s)(n := None)
   | Inr (e, s') \<Rightarrow> obj_of s' = (obj_of s)(n := Some (if e = 0 then ob\<lparr>peer := Some addr\<rparr> else ob))"
proof (cases "select_loop 3 (- 1) True s")
  case (fields r b s1)
  note o = select_loop_obj [OF fields]
  show ?thesis
  proof (cases "r > 0 \<and> b")
    case True
    obtain r2 e s2 where g: "get_so_error (int n) addr s1 = (r2, e, s2)" by (cases "get_so_error (int n) addr s1")
    show ?thesis using so_error_obj [of s1 n ob addr r2 e s2] g True fields o assms
      by (auto simp: wait_connected_def)
  next
    case False
    then show ?thesis using fields o assms by (auto simp: wait_connected_def fun_upd_idem)
  qed
qed

text \<open>A descriptor keeps its flags through \<open>F_GETFL\<close>, \<open>F_SETFL\<close> and back.\<close>

lemma fcntl_obj:
  assumes "obj_of s n = Some ob"
  shows "fcntl_getfl (int n) s = (status_flags ob, s)"
    "fcntl_setfl (int n) fl s = (0, upd_obj (int n) (\<lambda>ob. ob\<lparr>status_flags := fl\<rparr>) s)"
    "obj_of (upd_obj (int n) (\<lambda>ob. ob\<lparr>status_flags := fl\<rparr>) s) = (obj_of s)(n := Some (ob\<lparr>status_flags := fl\<rparr>))"
  using assms obj_of_upd [OF assms] by (simp_all add: fcntl_getfl_def fcntl_setfl_def)

lemma connect_from_obj:
  assumes ob: "obj_of s n = Some ob"
  shows "case connect_from ip prt (int n) s of (d, s') \<Rightarrow>
     (d = - 1 \<and> obj_of s' = (obj_of s)(n := None)) \<or>
     (d = int n \<and> obj_of s' = (obj_of s)(n := Some (ob\<lparr>peer := Some (ip, prt)\<rparr>)))"
proof -
  let ?fl = "status_flags ob"
  let ?s1 = "upd_obj (int n) (\<lambda>ob. ob\<lparr>status_flags := ?fl OR O_NONBLOCK\<rparr>) s"
  let ?ob1 = "ob\<lparr>status_flags := ?fl OR O_NONBLOCK\<rparr>"
  have s1: "obj_of ?s1 = (obj_of s)(n := Some ?ob1)" using fcntl_obj(3) [OF ob] .
  then have o1: "obj_of ?s1 n = Some ?ob1" by simp
  have fin: "case (case fcntl_setfl (int n) ?fl s3 of (_, s) \<Rightarrow> if e \<noteq> 0
        then (let s = sys_close (int n) s in (- 1, if e \<noteq> - 1 then s\<lparr>os_errno := e\<rparr> else s)) else (int n, s)) of (d, s') \<Rightarrow>
      (d = - 1 \<and> obj_of s' = (obj_of s)(n := None)) \<or>
      (d = int n \<and> obj_of s' = (obj_of s)(n := Some (ob\<lparr>peer := Some (ip, prt)\<rparr>)))"
    if "obj_of s3 = (obj_of s)(n := Some ob3)" "e = 0 \<Longrightarrow> ob3 = ?ob1\<lparr>peer := Some (ip, prt)\<rparr>" for s3 ob3 e
  proof -
    have "obj_of s3 n = Some ob3" using that by simp
    from fcntl_obj(2,3) [OF this] show ?thesis using that by (auto simp: Let_def)
  qed
  show ?thesis
  proof (cases rule: sys_on_cases [OF o1, of "\<lambda>ob. ob\<lparr>peer := Some (ip, prt)\<rparr>"])
    case (1 e s2)
    then have o2: "obj_of (s2\<lparr>os_errno := e\<rparr>) n = Some ?ob1" using s1 by simp
    show ?thesis
    proof (cases "wait_connected (int n) (ip, prt) (s2\<lparr>os_errno := e\<rparr>)")
      case (Inl s3)
      then show ?thesis using wait_connected_obj [OF o2, of "(ip, prt)"] 1 s1
        by (auto simp: connect_from_def fcntl_obj [OF ob])
    next
      case (Inr q)
      obtain e3 s3 where q: "q = (e3, s3)" by (cases q)
      show ?thesis
      proof (cases "e = EINPROGRESS")
        case True
        then show ?thesis using fin [of s3 _ e3] wait_connected_obj [OF o2, of "(ip, prt)"] 1 s1 Inr q
          by (simp add: connect_from_def fcntl_obj [OF ob])
      next
        case False
        then show ?thesis using 1 s1 by (simp add: connect_from_def fcntl_obj [OF ob])
      qed
    qed
  next
    case (2 s2)
    then show ?thesis using fin [of s2 "?ob1\<lparr>peer := Some (ip, prt)\<rparr>" 0] s1
      by (simp add: connect_from_def fcntl_obj [OF ob])
  qed
qed

lemma connect_outcome:
  shows "case CreateSocketAndConnect pton ip prt bind_to s of (d, s') \<Rightarrow>
     (d = - 1 \<and> obj_of s' = obj_of s) \<or>
     (\<exists>n b. d = int n \<and> obj_of s n = None \<and> b \<in> {None, bind_to} \<and>
        obj_of s' = (obj_of s)(n := Some ((new_obj Socket)\<lparr>bound := b, peer := Some (ip, prt)\<rparr>)))"
proof (cases "\<not> pton ip \<or> (case bind_to of None \<Rightarrow> False | Some (bip, _) \<Rightarrow> \<not> pton bip)")
  case False
  show ?thesis
  proof (cases s rule: sys_socket_cases)
    case (failed e s1)
    then show ?thesis using False by (simp add: CreateSocketAndConnect_def)
  next
    case (made n s1)
    define s2 where "s2 = (case bind_to of None \<Rightarrow> s1 | Some a \<Rightarrow> snd (sys_on (int n) (\<lambda>ob. ob\<lparr>bound := Some a\<rparr>) s1))"
    have o1: "obj_of s1 n = Some (new_obj Socket)" using made by simp
    obtain b where b: "b \<in> {None, bind_to}" "obj_of s2 = (obj_of s)(n := Some ((new_obj Socket)\<lparr>bound := b\<rparr>))"
    proof (cases bind_to)
      case None
      then show thesis using made that [of None] by (simp add: s2_def new_obj_def)
    next
      case (Some a)
      show thesis
        by (rule sys_on_cases [OF o1, of "\<lambda>ob. ob\<lparr>bound := Some a\<rparr>"])
          (use made Some that [of None] that [of "Some a"] in \<open>auto simp: s2_def new_obj_def\<close>)
    qed
    then have "obj_of s2 n = Some ((new_obj Socket)\<lparr>bound := b\<rparr>)" by simp
    from connect_from_obj [OF this, of ip prt] show ?thesis
      using False made b by (auto simp: CreateSocketAndConnect_def s2_def [symmetric] fun_upd_idem split: prod.splits)
  qed
qed (auto simp: CreateSocketAndConnect_def)

text \<open>C13. \<open>CreateSocketAndConnect\<close> does all or nothing, whatever the system calls answer: either it
  returns a new descriptor, a connected socket in the mode it was created in (blocking), bound to
  \<open>bind_ip\<close> or not, or it returns -1 and every descriptor of the process is as it was.\<close>

theorem connect_all_or_nothing:
  shows "case CreateSocketAndConnect pton ip prt bind_to s of (d, s') \<Rightarrow>
     (d = - 1 \<and> obj_of s' = obj_of s) \<or>
     (\<exists>n b. d = int n \<and> obj_of s n = None \<and> b \<in> {None, bind_to} \<and>
        obj_of s' = (obj_of s)(n := Some ((new_obj Socket)\<lparr>bound := b, peer := Some (ip, prt)\<rparr>)))"
  by (rule connect_outcome)

section \<open>Files and the terminal\<close>

lemma open_objs:
  assumes "answers s = []" "files s path = Some c"
  obtains s' ob where "sys_open path s = (int (lowest_free s), s')" "answers s' = []"
    "obj_of s' = (obj_of s)(lowest_free s := Some ob)" "kkind ob = (if path = ''/dev/null'' then DevNull else Regular c)"
  using assms by (auto simp: sys_open_def next_answer_def new_fd_def Let_def new_obj_def set_obj_def [symmetric]
      intro!: that) (simp_all add: set_obj_def)

text \<open>\<open>ReadFile\<close> reads a whole file and closes it again. The descriptor 0 is taken for a failure: when
  standard input is closed, no file can be read, and the descriptor stays open.\<close>

lemma ReadFile_whole:
  assumes "answers s = []" "expand_path HOME path = Inr name" "files s name = Some c" "name \<noteq> ''/dev/null''"
  shows "\<exists>s'. if lowest_free s > 0
    then ReadFile HOME path old s = Inr (True, c, s') \<and> obj_of s' = obj_of s
    else ReadFile HOME path old s = Inr (False, old, s') \<and> obj_of s' 0 \<noteq> None"
proof -
  obtain s1 ob where o: "sys_open name s = (int (lowest_free s), s1)" "answers s1 = []"
    "obj_of s1 = (obj_of s)(lowest_free s := Some ob)" "kkind ob = (if name = ''/dev/null'' then DevNull else Regular c)"
    using open_objs [OF assms(1,3)] by metis
  have c: "file_of s1 (int (lowest_free s)) = c" using o assms(4) by (simp add: file_of_def)
  have "length (resize (length c) old) = length c" by (simp add: resize_def)
  then show ?thesis using o c assms(2) obj_of_lowest [of s]
    by (cases "lowest_free s = 0") (auto simp: ReadFile_def sys_fstat_def sys_read_def next_answer_def Let_def fun_upd_idem)
qed

text \<open>After \<open>Daemonize\<close> the three standard descriptors are \<open>/dev/null\<close>, and the others are untouched.\<close>

lemma Daemonize_objs:
  assumes "answers s = []" "files s ''/dev/null'' = Some c"
  obtains s' ob where "Daemonize s = Inr s'" "kkind ob = DevNull"
    "obj_of s' = (obj_of s)(0 := Some ob, 1 := Some ob, 2 := Some ob)"
proof -
  let ?s = "s\<lparr>session_leader := True\<rparr>" and ?d = "lowest_free s"
  have a: "answers ?s = []" "files ?s ''/dev/null'' = Some c" using assms by simp_all
  have l: "lowest_free ?s = ?d" by (simp add: lowest_free_def)
  obtain s1 ob where o: "sys_open ''/dev/null'' ?s = (int ?d, s1)" "obj_of s1 = (obj_of s)(?d := Some ob)" "kkind ob = DevNull"
    using open_objs [OF a] l by (metis obj_of_fields(3))
  let ?s2 = "dup2 (int ?d) 2 (dup2 (int ?d) 1 (dup2 (int ?d) 0 s1))"
  have d: "obj_of ?s2 = (obj_of s)(?d := Some ob, 0 := Some ob, 1 := Some ob, 2 := Some ob)"
    using o by (simp add: dup2_def)
  have "Daemonize s = Inr (if ?d > 2 then sys_close (int ?d) ?s2 else ?s2)"
    using assms o by (simp add: Daemonize_def next_answer_def Let_def)
  moreover have "obj_of (if ?d > 2 then sys_close (int ?d) ?s2 else ?s2) =
      (obj_of s)(0 := Some ob, 1 := Some ob, 2 := Some ob)"
  proof (cases "?d > 2")
    case True
    then show ?thesis using d obj_of_lowest [of s] by (simp add: fun_eq_iff)
  next
    case False
    then have "?d = 0 \<or> ?d = 1 \<or> ?d = 2" by arith
    then show ?thesis using d by (auto simp: fun_eq_iff)
  qed
  ultimately show thesis using o(3) that by blast
qed

end
