(* ===== verification/Server_Start.thy ===== *)
theory Server_Start
  imports Server_Io Sockets Server_Config Thread_Pool Conc_Buf
begin

text \<open>
  Bringing a server up and handing connections to its event loops: the constructor, the setters,
  \<open>Start\<close> and \<open>Wait\<close> of \<open>server.cpp\<close> and \<open>server.h\<close>, with what they call of \<open>notifier.h\<close>,
  \<open>msg_queue_interface.h\<close> and \<open>ev_epoll.cpp\<close>. The main thread's loop runs against the event loops,
  which take from their queues at any time.
\<close>

section \<open>The server object\<close>

record server_obj =
  host :: string
  sport :: string
  listen_fd :: int
  loop_count :: int
  core_pool :: int
  max_pool :: int
  keep_alive :: int
  ring_size :: ull

definition std_to_string :: "int \<Rightarrow> string" where
  "std_to_string i = (if i < 0 then CHR ''-'' # to_string (nat (- i)) else to_string (nat i))"

definition Server :: "server_config \<Rightarrow> logger \<Rightarrow> server_obj \<times> logger" where
  "Server c l =
     (\<lparr>host = server_ip c, sport = std_to_string (server_port c), listen_fd = - 1,
       loop_count = event_loop_count c, core_pool = thread_pool_core_pool_size c,
       max_pool = thread_pool_max_pool_size c, keep_alive = thread_pool_keep_alive_time_seconds c,
       ring_size = of_int (circbuf_size c)\<rparr>,
      emoskit_set_log_level (log_level c) l)"

definition set_host_and_port :: "string \<Rightarrow> string \<Rightarrow> server_obj \<Rightarrow> server_obj" where
  "set_host_and_port h p so = so\<lparr>host := h, sport := p\<rparr>"

text \<open>The test is on the member, not on the argument.\<close>

definition set_event_loop_count :: "int \<Rightarrow> server_obj \<Rightarrow> server_obj" where
  "set_event_loop_count n so =
     (if loop_count so < 1 then so\<lparr>loop_count := 1\<rparr> else so\<lparr>loop_count := n\<rparr>)"

definition set_thread_pool_core_pool_size :: "int \<Rightarrow> server_obj \<Rightarrow> server_obj" where
  "set_thread_pool_core_pool_size n so = so\<lparr>core_pool := n\<rparr>"

definition set_thread_pool_max_pool_size :: "int \<Rightarrow> server_obj \<Rightarrow> server_obj" where
  "set_thread_pool_max_pool_size n so = so\<lparr>max_pool := n\<rparr>"

definition set_thread_pool_keep_alive_time_seconds :: "int \<Rightarrow> server_obj \<Rightarrow> server_obj" where
  "set_thread_pool_keep_alive_time_seconds n so = so\<lparr>keep_alive := n\<rparr>"

definition set_circbuf_size :: "ull \<Rightarrow> server_obj \<Rightarrow> server_obj" where
  "set_circbuf_size n so = so\<lparr>ring_size := n\<rparr>"

section \<open>Start\<close>

text \<open>A queue opens an eventfd in its notifier; an event loop has two queues.\<close>

definition Notifier :: "os \<Rightarrow> (int \<times> os) res" where
  "Notifier s =
     (case CreateEventFd s of (d, s) \<Rightarrow>
        if d < 0 then Inl (ProcessExit 1)
        else case MakeSocketNonblocking d s of (_, s) \<Rightarrow> Inr (d, s))"

definition EventLoop :: "os \<Rightarrow> ((int \<times> int) \<times> os) res" where
  "EventLoop s =
     bind_res (Notifier s) (\<lambda>(fd_event, s).
     bind_res (Notifier s) (\<lambda>(response_event, s). Inr ((fd_event, response_event), s)))"

fun new_EventLoops :: "nat \<Rightarrow> os \<Rightarrow> ((int \<times> int) list \<times> os) res" where
  "new_EventLoops 0 s = Inr ([], s)"
| "new_EventLoops (Suc n) s =
     bind_res (EventLoop s) (\<lambda>(l, s). bind_res (new_EventLoops n s) (\<lambda>(ls, s). Inr (l # ls, s)))"

definition backend_init :: "os \<Rightarrow> (int \<times> os) res" where
  "backend_init s =
     (case (case next_answer s of (Fail e, s) \<Rightarrow> fail_with e s | (_, s) \<Rightarrow> new_fd (new_obj EpollInstance) s) of
        (d, s) \<Rightarrow> if d < 0 then Inl Abort else Inr (d, snd (fcntl_setfd d FD_CLOEXEC s)))"

definition backend_destroy :: "int \<Rightarrow> os \<Rightarrow> int \<times> os" where
  "backend_destroy d s = (- 1, if d > 0 then sys_close d s else s)"

text \<open>The two watchers of an event loop are numbered 0 and 1, their callbacks \<open>AcceptFdCb\<close> (0) and
  \<open>ResponseCb\<close> (2). \<open>now\<close> is the clock, \<open>opened\<close> the descriptors that are open while the loop runs.\<close>

definition RESPONSE_CB :: nat where "RESPONSE_CB = 2"

definition watch_queues :: "nat \<Rightarrow> int \<times> int \<Rightarrow> ev_op list" where
  "watch_queues i l =
     [IoInit 0 (fst l) EV_READ 0 i 0, IoStart 0, IoInit 1 (snd l) EV_READ RESPONSE_CB i 2, IoStart 1]"

fun init_loops ::
  "ev_tstamp \<Rightarrow> (nat \<Rightarrow> bool) \<Rightarrow> nat \<Rightarrow> (int \<times> int) list \<Rightarrow> os \<Rightarrow> ((int \<times> ev_loop) list \<times> os) res" where
  "init_loops now opened i [] s = Inr ([], s)"
| "init_loops now opened i (l # ls) s =
     bind_res (backend_init s) (\<lambda>(d, s).
     bind_res (do_ops (watch_queues i l) (init_loop now opened)) (\<lambda>ev.
     bind_res (init_loops now opened (i + 1) ls s) (\<lambda>(evs, s). Inr ((d, ev) # evs, s))))"

record 'a started =
  sobj :: server_obj
  thread_pool :: "'a pool"
  pool_ring :: "ull \<times> ProductionStrategy"
  queue_events :: "(int \<times> int) list"
  event_loops :: "(int \<times> ev_loop) list"

text \<open>\<open>gai\<close> resolves the address. \<open>Inr None\<close>: the server had been started before.\<close>

definition Start ::
  "(string \<Rightarrow> string \<Rightarrow> int \<times> addrinfo list) \<Rightarrow> nat \<Rightarrow> 'a \<Rightarrow> ev_tstamp \<Rightarrow> (nat \<Rightarrow> bool) \<Rightarrow> server_obj \<Rightarrow> os \<Rightarrow>
   ('a started option \<times> os) res" where
  "Start gai hw dflt now opened so s =
     (if listen_fd so \<noteq> - 1 then Inr (None, s)
      else
        bind_res (CreateSocketAndListen (gai (host so) (sport so)) False s) (\<lambda>(d, _, s).
        if d < 0 then Inl (ProcessExit 1)
        else
          let pool = start (ThreadPool (core_pool so) (max_pool so) hw dflt) in
          if loop_count so < 0 then Inl Abort
          else
            bind_res (new_EventLoops (nat (loop_count so)) s) (\<lambda>(ls, s).
            bind_res (init_loops now opened 0 ls s) (\<lambda>(evs, s).
            Inr (Some \<lparr>sobj = so\<lparr>listen_fd := d\<rparr>, thread_pool = pool,
                   pool_ring = (ring_size so, if loop_count so > 1 then MUTIL_THREADS else SINGLE_THREAD),
                   queue_events = ls, event_loops = evs\<rparr>, s)))))"

section \<open>Wait\<close>

text \<open>Before each attempt the event loops take from their queues: the indices of those that call
  \<open>Get\<close>, in order. What they took is kept.\<close>

fun take_some :: "nat list \<Rightarrow> int simple_circbuf list \<Rightarrow> (int list \<times> int simple_circbuf list) res" where
  "take_some [] qs = Inr ([], qs)"
| "take_some (i # rest) qs =
     (if i < length qs
      then bind_res (Get (qs ! i)) (\<lambda>(_, x, q).
           bind_res (take_some rest (qs[i := q])) (\<lambda>(xs, qs). Inr ((case x of None \<Rightarrow> xs | Some y \<Rightarrow> y # xs), qs)))
      else take_some rest qs)"

text \<open>The inner loop of \<open>Wait\<close>: it ends when the schedule does, or with the index of the loop that got
  the connection. \<open>n\<close> is the number of loops.\<close>

fun hand_over ::
  "nat \<Rightarrow> int \<Rightarrow> nat list list \<Rightarrow> nat \<Rightarrow> nat \<Rightarrow> int simple_circbuf list \<Rightarrow>
   (nat \<times> nat list list \<times> int list \<times> int simple_circbuf list) res" where
  "hand_over n fd [] idx cnt qs = Inl NoReturn"
| "hand_over n fd (g # sched) idx cnt qs =
     bind_res (take_some g qs) (\<lambda>(xs, qs).
     bind_res (Put fd (qs ! idx)) (\<lambda>(r, q).
     if r \<noteq> 0
     then
       bind_res (hand_over n fd sched ((idx + 1) mod n) (if cnt + 1 = n then 0 else cnt + 1) (qs[idx := q]))
         (\<lambda>(i, sched, ys, qs). Inr (i, sched, xs @ ys, qs))
     else Inr (idx, sched, xs, qs[idx := q])))"

text \<open>The outer loop over what \<open>accept\<close> returns. The result is the loops that were notified, what they
  took meanwhile, and the queues. Dividing by no loops ends the process.\<close>

fun Wait ::
  "nat \<Rightarrow> int list \<Rightarrow> nat list list \<Rightarrow> nat \<Rightarrow> int simple_circbuf list \<Rightarrow>
   (nat list \<times> int list \<times> int simple_circbuf list) res" where
  "Wait n [] sched idx qs = Inr ([], [], qs)"
| "Wait n (fd # accepts) sched idx qs =
     (if fd < 0 then Wait n accepts sched idx qs
      else if n = 0 then Inl Abort
      else
        bind_res (hand_over n fd sched (idx mod n) 0 qs) (\<lambda>(i, sched, xs, qs).
        bind_res (Wait n accepts sched (i + 1) qs) (\<lambda>(is, ys, qs). Inr (i # is, xs @ ys, qs))))"

section \<open>Connections in the queues\<close>

definition queued :: "int simple_circbuf list \<Rightarrow> int list" where
  "queued qs = concat (map ring_contents qs)"

definition queues_ok :: "nat \<Rightarrow> int simple_circbuf list \<Rightarrow> bool" where
  "queues_ok n qs \<longleftrightarrow> length qs = n \<and> (\<forall>q \<in> set qs. ring_ok q)"

text \<open>Every queue has room for \<open>m\<close> more.\<close>

definition room_for :: "nat \<Rightarrow> int simple_circbuf list \<Rightarrow> bool" where
  "room_for m qs \<longleftrightarrow> (\<forall>q \<in> set qs. length (ring_contents q) + m \<le> ring_capacity q)"

lemma queued_update:
  assumes "i < length qs"
  shows "mset (queued (qs[i := q])) + mset (ring_contents (qs ! i)) = mset (queued qs) + mset (ring_contents q)"
proof -
  have "queued qs = queued (take i qs) @ ring_contents (qs ! i) @ queued (drop (Suc i) qs)"
    by (subst (1) id_take_nth_drop [OF assms]) (simp add: queued_def)
  moreover have "queued (qs[i := q]) = queued (take i qs) @ ring_contents q @ queued (drop (Suc i) qs)"
    by (simp add: upd_conv_take_nth_drop [OF assms] queued_def)
  ultimately show ?thesis by simp
qed

lemma queues_ok_update: "queues_ok n qs \<Longrightarrow> ring_ok q \<Longrightarrow> queues_ok n (qs[i := q])"
  unfolding queues_ok_def by (auto dest!: set_update_subset_insert [THEN subsetD])

lemma room_for_update:
  "room_for m qs \<Longrightarrow> length (ring_contents q) + m \<le> ring_capacity q \<Longrightarrow> room_for m (qs[i := q])"
  unfolding room_for_def by (auto dest!: set_update_subset_insert [THEN subsetD])

lemma Get_queue:
  assumes "queues_ok n qs" "i < n"
  obtains r x q where "Get (qs ! i) = Inr (r, x, q)" "queues_ok n (qs[i := q])"
    "mset (case x of None \<Rightarrow> [] | Some y \<Rightarrow> [y]) + mset (queued (qs[i := q])) = mset (queued qs)"
    "room_for m qs \<Longrightarrow> room_for m (qs[i := q])"
proof (cases "ring_contents (qs ! i)")
  case Nil
  have "ring_ok (qs ! i)" using assms by (simp add: queues_ok_def)
  then show thesis using ring.get_empty [OF _ Nil] assms by (intro that) auto
next
  case (Cons y ys)
  have ok: "ring_ok (qs ! i)" and l: "i < length qs" using assms by (simp_all add: queues_ok_def)
  from ring.get_some [OF ok Cons] obtain q where
    q: "Get (qs ! i) = Inr (0, Some y, q)" "ring_ok q" "ring_contents q = ys" "ring_capacity q = ring_capacity (qs ! i)"
    by blast
  have "room_for m (qs[i := q])" if r: "room_for m qs"
  proof (rule room_for_update [OF r])
    have "length (ring_contents q) \<le> length (ring_contents (qs ! i))" using q(3) Cons by simp
    moreover have "length (ring_contents (qs ! i)) + m \<le> ring_capacity (qs ! i)" using r l by (simp add: room_for_def)
    ultimately show "length (ring_contents q) + m \<le> ring_capacity q" using q(4) by linarith
  qed
  then show thesis using q Cons queues_ok_update [OF assms(1)] queued_update [OF l, of q] by (intro that) auto
qed

lemma take_some_queues:
  assumes "queues_ok n qs"
  shows "\<exists>xs qs'. take_some g qs = Inr (xs, qs') \<and> queues_ok n qs' \<and>
    mset xs + mset (queued qs') = mset (queued qs) \<and> (room_for m qs \<longrightarrow> room_for m qs')"
  using assms
proof (induction g arbitrary: qs)
  case (Cons i g)
  show ?case
  proof (cases "i < length qs")
    case True
    then have "i < n" using Cons.prems by (simp add: queues_ok_def)
    then obtain r x q where g: "Get (qs ! i) = Inr (r, x, q)" "queues_ok n (qs[i := q])"
      "mset (case x of None \<Rightarrow> [] | Some y \<Rightarrow> [y]) + mset (queued (qs[i := q])) = mset (queued qs)"
      "room_for m qs \<Longrightarrow> room_for m (qs[i := q])"
      using Get_queue [OF Cons.prems] by metis
    from Cons.IH [OF g(2)] obtain xs qs' where "take_some g (qs[i := q]) = Inr (xs, qs')" "queues_ok n qs'"
      "mset xs + mset (queued qs') = mset (queued (qs[i := q]))" "room_for m (qs[i := q]) \<longrightarrow> room_for m qs'"
      by blast
    then show ?thesis using True g by (cases x) (auto simp flip: g(3))
  next
    case False
    then show ?thesis using Cons by auto
  qed
qed auto

lemma Put_queue:
  assumes "queues_ok n qs" "i < n"
  obtains (full) "Put fd (qs ! i) = Inr (- 1, qs ! i)" "\<not> room_for (Suc m) qs"
  | (stored) q where "Put fd (qs ! i) = Inr (0, q)" "queues_ok n (qs[i := q])"
      "mset (queued (qs[i := q])) = mset (queued qs) + {#fd#}" "room_for (Suc m) qs \<Longrightarrow> room_for m (qs[i := q])"
proof -
  have ok: "ring_ok (qs ! i)" and l: "i < length qs" using assms by (simp_all add: queues_ok_def)
  have le: "length (ring_contents (qs ! i)) + Suc m \<le> ring_capacity (qs ! i)" if "room_for (Suc m) qs"
    using that l by (simp add: room_for_def)
  show thesis
  proof (cases "length (ring_contents (qs ! i)) = ring_capacity (qs ! i)")
    case True
    then show thesis using ring.put_full [OF ok True, of fd] le by (intro full) auto
  next
    case False
    then have "length (ring_contents (qs ! i)) < ring_capacity (qs ! i)" using ring.bounded [OF ok] by simp
    from ring.put_room [OF ok this, of fd] obtain q where q: "Put fd (qs ! i) = Inr (0, q)" "ring_ok q"
      "ring_contents q = ring_contents (qs ! i) @ [fd]" "ring_capacity q = ring_capacity (qs ! i)"
      by blast
    have "length (ring_contents q) = length (ring_contents (qs ! i)) + 1" using q(3) by (metis length_append_singleton Suc_eq_plus1)
    then have "room_for m (qs[i := q])" if r: "room_for (Suc m) qs"
      using le [OF r] r q(4) by (intro room_for_update) (auto simp: room_for_def)
    then show thesis using q queues_ok_update [OF assms(1)] queued_update [OF l, of q] by (intro stored) auto
  qed
qed

lemma hand_over_queues:
  assumes "queues_ok n qs" "idx < n"
  shows "hand_over n fd sched idx cnt qs = Inl NoReturn \<or>
    (\<exists>i sched' xs qs'. hand_over n fd sched idx cnt qs = Inr (i, sched', xs, qs') \<and> i < n \<and> queues_ok n qs' \<and>
      mset xs + mset (queued qs') = mset (queued qs) + {#fd#})"
  using assms
proof (induction sched arbitrary: idx cnt qs)
  case (Cons g sched)
  obtain xs qs1 where t: "take_some g qs = Inr (xs, qs1)" "queues_ok n qs1" "mset xs + mset (queued qs1) = mset (queued qs)"
    using take_some_queues [OF Cons.prems(1)] by blast
  show ?case
  proof (rule Put_queue [OF t(2) Cons.prems(2), where fd = fd and m = 0])
    assume p: "Put fd (qs1 ! idx) = Inr (- 1, qs1 ! idx)"
    have n: "(idx + 1) mod n < n" using Cons.prems(2) by simp
    show ?thesis
      using Cons.IH [OF t(2) n, of "if cnt + 1 = n then 0 else cnt + 1"] t p
      by (auto simp: ac_simps simp flip: t(3))
  next
    fix q assume "Put fd (qs1 ! idx) = Inr (0, q)" "queues_ok n (qs1[idx := q])"
      "mset (queued (qs1[idx := q])) = mset (queued qs1) + {#fd#}"
    then show ?thesis using t Cons.prems(2) by (auto simp flip: t(3))
  qed
qed simp

lemma hand_over_room:
  assumes "queues_ok n qs" "idx < n" "room_for (Suc m) qs"
  obtains xs qs' where "hand_over n fd (g # sched) idx cnt qs = Inr (idx, sched, xs, qs')" "queues_ok n qs'" "room_for m qs'"
proof -
  obtain xs qs1 where t: "take_some g qs = Inr (xs, qs1)" "queues_ok n qs1" "room_for (Suc m) qs1"
    using take_some_queues [OF assms(1), of g "Suc m"] assms(3) by blast
  show thesis
    by (rule Put_queue [OF t(2) assms(2), where fd = fd and m = m]) (use t that in auto)
qed

text \<open>C14. No accepted connection is lost or handed over twice: whatever \<open>accept\<close> returns, however full
  the queues are and whenever the event loops take from them, \<open>Wait\<close> hands every connection to one
  loop, which it notifies, or is still waiting for room in some queue.\<close>

theorem connections_conserved:
  assumes "queues_ok n qs" "0 < n"
  shows "Wait n accepts sched idx qs = Inl NoReturn \<or>
    (\<exists>notified taken qs'. Wait n accepts sched idx qs = Inr (notified, taken, qs') \<and>
       length notified = length (filter (\<lambda>fd. 0 \<le> fd) accepts) \<and> set notified \<subseteq> {..<n} \<and> queues_ok n qs' \<and>
       mset taken + mset (queued qs') = mset (queued qs) + mset (filter (\<lambda>fd. 0 \<le> fd) accepts))"
  using assms(1)
proof (induction accepts arbitrary: sched idx qs)
  case (Cons fd accepts)
  show ?case
  proof (cases "fd < 0")
    case False
    have "idx mod n < n" using assms(2) by simp
    from hand_over_queues [OF Cons.prems this, of fd sched 0] show ?thesis
    proof (elim disjE exE conjE)
      fix i sched' xs qs1
      assume h: "hand_over n fd sched (idx mod n) 0 qs = Inr (i, sched', xs, qs1)" "i < n" "queues_ok n qs1"
        "mset xs + mset (queued qs1) = mset (queued qs) + {#fd#}"
      have e: "mset (xs @ taken) + Q = mset (queued qs) + (M + {#fd#})" if "mset taken + Q = mset (queued qs1) + M" for taken Q M
      proof -
        have "mset (xs @ taken) + Q = mset xs + (mset taken + Q)" by (simp add: ac_simps)
        also have "\<dots> = mset (queued qs) + (M + {#fd#})" unfolding that using h(4) by (simp add: ac_simps)
        finally show ?thesis .
      qed
      from Cons.IH [OF h(3), of sched' "i + 1"] show ?thesis
      proof (elim disjE exE conjE)
        fix notified taken qs'
        assume w: "Wait n accepts sched' (i + 1) qs1 = Inr (notified, taken, qs')"
          "mset taken + mset (queued qs') = mset (queued qs1) + mset (filter (\<lambda>fd. 0 \<le> fd) accepts)"
          "length notified = length (filter (\<lambda>fd. 0 \<le> fd) accepts)" "set notified \<subseteq> {..<n}" "queues_ok n qs'"
        then show ?thesis using h(1,2) False assms(2) e [OF w(2)] by (auto simp: ac_simps)
      qed (use h(1) False assms(2) in simp)
    qed (use False assms(2) in auto)
  qed (use Cons in auto)
qed auto

text \<open>As long as no queue fills up, connections go round robin: the \<open>k\<close>-th accepted connection to the
  event loop \<open>k mod n\<close>, one attempt each, and \<open>Wait\<close> never spins.\<close>

theorem connections_round_robin:
  assumes "queues_ok n qs" "0 < n" "\<forall>fd \<in> set accepts. 0 \<le> fd" "room_for (length accepts) qs"
    "length accepts \<le> length sched"
  shows "\<exists>taken qs'. Wait n accepts sched k qs = Inr (map (\<lambda>j. (k mod n + j) mod n) [0..<length accepts], taken, qs')"
  using assms
proof (induction accepts arbitrary: sched k qs)
  case (Cons fd accepts)
  obtain g sched' where s: "sched = g # sched'" using Cons.prems(5) by (cases sched) auto
  have i: "k mod n < n" using Cons.prems(2) by simp
  obtain xs qs1 where h: "hand_over n fd sched (k mod n) 0 qs = Inr (k mod n, sched', xs, qs1)" "queues_ok n qs1"
    "room_for (length accepts) qs1"
    unfolding s by (rule hand_over_room [OF Cons.prems(1) i]) (use Cons.prems(4) in auto)
  obtain taken qs' where w: "Wait n accepts sched' (k mod n + 1) qs1 =
      Inr (map (\<lambda>j. ((k mod n + 1) mod n + j) mod n) [0..<length accepts], taken, qs')"
    using Cons.IH [OF h(2) Cons.prems(2) _ h(3), of sched' "k mod n + 1"] Cons.prems s by auto
  have "map (\<lambda>j. (k mod n + j) mod n) [0..<Suc (length accepts)] =
      k mod n # map (\<lambda>j. ((k mod n + 1) mod n + j) mod n) [0..<length accepts]"
    using Cons.prems(2) by (simp add: upt_conv_Cons mod_simps map_Suc_upt [symmetric] del: upt_Suc)
  then show ?case using h w Cons.prems by simp
qed auto

section \<open>Examples\<close>

definition demo_queues :: "int simple_circbuf list" where
  "demo_queues = replicate 2 (SimpleCircBuf (\<lambda>_. True) 4 2)"

lemma demo_queues_ok: "queues_ok 2 demo_queues" "room_for 2 demo_queues"
proof -
  have z: "set_buffer_size 2 = 2" by code_simp
  have "ring_ok (SimpleCircBuf (\<lambda>_. True) 4 2 :: int simple_circbuf) \<and> ring_contents (SimpleCircBuf (\<lambda>_. True) 4 2 :: int simple_circbuf) = [] \<and>
      ring_capacity (SimpleCircBuf (\<lambda>_. True) 4 2 :: int simple_circbuf) = 2"
    using SimpleCircBuf_ok [of "\<lambda>_. True" 2 4] z by (simp add: ring_capacity_def SimpleCircBuf_def ReInit_def Let_def)
  then show "queues_ok 2 demo_queues" "room_for 2 demo_queues"
    by (auto simp: queues_ok_def room_for_def demo_queues_def simp flip: length_ring_contents)
qed

theorem connections_conserved_witness:
  "Wait 2 [7, - 1, 8] [[], [0]] 0 demo_queues = Inl NoReturn \<or>
    (\<exists>notified taken qs'. Wait 2 [7, - 1, 8] [[], [0]] 0 demo_queues = Inr (notified, taken, qs') \<and> length notified = 2)"
  using connections_conserved [OF demo_queues_ok(1), of "[7, - 1, 8]" "[[], [0]]" 0] by (auto simp del: Wait.simps)

theorem connections_round_robin_witness:
  "\<exists>taken qs'. Wait 2 [7, 8] [[], []] 0 demo_queues = Inr ([0, 1], taken, qs')"
proof -
  have "room_for (length [7, 8 :: int]) demo_queues" using demo_queues_ok(2) by (simp add: numeral_2_eq_2)
  then show ?thesis using connections_round_robin [OF demo_queues_ok(1), of "[7, 8]" "[[], []]" 0] by (simp del: Wait.simps)
qed

end
