(* ===== verification/Server_Up.thy ===== *)
theory Server_Up
  imports Server_Start Server_Props
begin

text \<open>
  What \<open>Start\<close> leaves behind: every descriptor it opened is its own, every event loop has the watchers
  of its two queues, and may run.
\<close>

section \<open>A started server\<close>

text \<open>From \<open>s\<close> to \<open>t\<close> exactly the descriptors \<open>ds\<close> were opened.\<close>

definition opens :: "os \<Rightarrow> int list \<Rightarrow> os \<Rightarrow> bool" where
  "opens s ds t \<longleftrightarrow> distinct ds \<and> (\<forall>d \<in> set ds. 0 \<le> d \<and> obj_of s (nat d) = None \<and> obj_of t (nat d) \<noteq> None) \<and>
     (\<forall>n. int n \<notin> set ds \<longrightarrow> obj_of t n = obj_of s n)"

lemma opens_one: "obj_of s n = None \<Longrightarrow> obj_of t = (obj_of s)(n := Some ob) \<Longrightarrow> opens s [int n] t"
  by (auto simp: opens_def)

lemma opens_same: "opens s ds t \<Longrightarrow> (obj_of t' = obj_of t) \<Longrightarrow> opens s ds t'"
  by (auto simp: opens_def)

lemma opens_trans:
  assumes a: "opens s as t" and b: "opens t bs u"
  shows "opens s (as @ bs) u"
proof -
  have d: "d \<notin> set bs" if "d \<in> set as" for d using a b that by (auto simp: opens_def)
  have k: "obj_of u n = obj_of t n" if "int n \<in> set as" for n using b d that by (auto simp: opens_def)
  have "obj_of u (nat d) \<noteq> None" if "d \<in> set as" for d
    using k [of "nat d"] a that by (auto simp: opens_def)
  moreover have "obj_of s (nat d) = None" if "d \<in> set bs" for d
  proof -
    have "0 \<le> d" "obj_of t (nat d) = None" "d \<notin> set as" using b d that by (auto simp: opens_def)
    then show ?thesis using a by (auto simp: opens_def)
  qed
  ultimately show ?thesis using a b d by (auto simp: opens_def)
qed

lemma opens_upd:
  assumes "opens s ds t" "d \<in> set ds"
  shows "opens s ds (upd_obj d f t)"
  using assms unfolding opens_def by (cases "obj_of t (nat d)") (auto simp: upd_obj_def)

lemma CreateEventFd_opens:
  assumes "CreateEventFd s = (d, t)" "0 \<le> d"
  shows "opens s [d] t"
proof -
  define oe where "oe = (\<lambda>fl dfl s. case next_answer s of (Fail e, s) \<Rightarrow> fail_with e s
            | (_, s) \<Rightarrow> new_fd ((new_obj EventFd)\<lparr>status_flags := fl, descriptor_flags := dfl\<rparr>) s)"
  have o: "(0 \<le> d1 \<longrightarrow> opens s1 [d1] t1) \<and> (d1 < 0 \<longrightarrow> obj_of t1 = obj_of s1)" if oe: "oe fl dfl s1 = (d1, t1)" for fl dfl s1 d1 t1
  proof (cases "next_answer s1")
    case (Pair a s2)
    note ob = next_answer_obj [OF Pair]
    show ?thesis
    proof (cases "\<exists>e. a = Fail e")
      case True
      then show ?thesis using oe Pair ob by (auto simp: oe_def fail_with_def)
    next
      case False
      obtain n where "new_fd ((new_obj EventFd)\<lparr>status_flags := fl, descriptor_flags := dfl\<rparr>) s2 =
          (int n, set_obj n (Some ((new_obj EventFd)\<lparr>status_flags := fl, descriptor_flags := dfl\<rparr>)) s2)" "obj_of s2 n = None"
        by (rule new_fd_cases)
      then show ?thesis using oe Pair ob False by (auto simp: oe_def intro!: opens_one split: sys.splits)
    qed
  qed
  obtain d1 t1 where 1: "oe (2 OR O_NONBLOCK) FD_CLOEXEC s = (d1, t1)" by fastforce
  obtain d2 t2 where 2: "oe 2 0 t1 = (d2, t2)" by fastforce
  have "(d, t) = (if d1 < 0 \<and> os_errno t1 = EINVAL_nr then (d2, t2) else (d1, t1))"
    using assms(1) 1 2 unfolding CreateEventFd_def oe_def [symmetric] by (auto split: if_splits)
  then show ?thesis using o [OF 1] o [OF 2] assms(2) by (auto simp: opens_def split: if_splits)
qed

lemma Notifier_opens:
  assumes "Notifier s = Inr (d, t)"
  shows "opens s [d] t"
proof -
  obtain s1 where s1: "CreateEventFd s = (d, s1)" "0 \<le> d"
    using assms by (auto simp: Notifier_def split: prod.splits if_splits)
  have "t = snd (MakeSocketNonblocking d s1)" using assms s1 by (auto simp: Notifier_def split: prod.splits)
  then show ?thesis using CreateEventFd_opens [OF s1]
    by (auto simp: MakeSocketNonblocking_def fcntl_getfl_def fcntl_setfl_def fail_with_def
        intro: opens_upd opens_same split: option.splits prod.splits if_splits)
qed

lemma new_EventLoops_opens:
  "new_EventLoops n s = Inr (ls, t) \<Longrightarrow> length ls = n \<and> opens s (concat (map (\<lambda>(a, b). [a, b]) ls)) t"
proof (induction n arbitrary: s ls t)
  case 0
  then show ?case by (simp add: opens_def)
next
  case (Suc n)
  obtain a b s1 s2 ls' where *: "Notifier s = Inr (a, s1)" "Notifier s1 = Inr (b, s2)"
    "new_EventLoops n s2 = Inr (ls', t)" "ls = (a, b) # ls'"
    using Suc.prems by (auto simp: EventLoop_def bind_res_Inr_conv)
  show ?case
    using opens_trans [OF Notifier_opens [OF *(1)] opens_trans [OF Notifier_opens [OF *(2)] Suc.IH [OF *(3), THEN conjunct2]]]
      Suc.IH [OF *(3)] *(4) by simp
qed

lemma backend_init_opens:
  assumes "backend_init s = Inr (d, t)"
  shows "opens s [d] t"
proof (cases "next_answer s")
  case (Pair a s1)
  note ob = next_answer_obj [OF Pair]
  obtain n where n: "new_fd (new_obj EpollInstance) s1 = (int n, set_obj n (Some (new_obj EpollInstance)) s1)"
    "obj_of s1 n = None" by (rule new_fd_cases)
  have f: "\<nexists>e. a = Fail e" using assms Pair by (auto simp: backend_init_def fail_with_def)
  let ?s = "set_obj n (Some (new_obj EpollInstance)) s1"
  have "opens s [int n] ?s" using ob n(2) by (auto intro: opens_one)
  moreover have "d = int n" "t = upd_obj (int n) (\<lambda>ob. ob\<lparr>descriptor_flags := FD_CLOEXEC\<rparr>) ?s"
    using assms Pair n f by (auto simp: backend_init_def fcntl_setfd_def split: sys.splits)
  ultimately show ?thesis using opens_upd by simp
qed

lemma watch_queues_loop:
  assumes "do_ops (watch_queues i (a, b)) (init_loop now opened) = Inr ev"
  shows "loop_inv 0 ev" "0 \<le> a" "0 \<le> b"
    "active (ios ev 0) = 1" "io_fd (ios ev 0) = a" "cb (ios ev 0) = Some 0"
    "active (ios ev 1) = 1" "io_fd (ios ev 1) = b" "cb (ios ev 1) = Some RESPONSE_CB"
proof -
  have n: "\<not> a < 0" "\<not> b < 0" using assms
    by (auto simp: watch_queues_def io_watcher_init_def init_loop_def ev_io_new_def io_watcher_start_def
        watcher_list_add_def fd_change_def upd_fd_def Let_def bind_res_Inr_conv split: if_splits)
  show "0 \<le> a" "0 \<le> b" using n by simp_all
  have k: "ops_ok (watch_queues i (a, b)) (init_loop now opened)"
    using n by (auto simp: watch_queues_def io_watcher_init_def init_loop_def ev_io_new_def io_watcher_start_def
        watcher_list_add_def fd_change_def upd_fd_def Let_def EV_READ_def EV_WRITE_def split: if_splits)
  show "loop_inv 0 ev" using do_ops_inv [OF loop_inv_init k] assms by auto
  show "active (ios ev 0) = 1" "io_fd (ios ev 0) = a" "cb (ios ev 0) = Some 0"
    "active (ios ev 1) = 1" "io_fd (ios ev 1) = b" "cb (ios ev 1) = Some RESPONSE_CB"
    using assms n by (auto simp: watch_queues_def io_watcher_init_def init_loop_def ev_io_new_def io_watcher_start_def
        watcher_list_add_def fd_change_def upd_fd_def Let_def EV_READ_def EV_WRITE_def split: if_splits)
qed

text \<open>A loop whose watchers of the two queues are on.\<close>

definition watches :: "int \<times> int \<Rightarrow> ev_loop \<Rightarrow> bool" where
  "watches l ev \<longleftrightarrow>
     active (ios ev 0) = 1 \<and> io_fd (ios ev 0) = fst l \<and> cb (ios ev 0) = Some 0 \<and>
     active (ios ev 1) = 1 \<and> io_fd (ios ev 1) = snd l \<and> cb (ios ev 1) = Some RESPONSE_CB"

lemma init_loops_up:
  assumes "init_loops now opened i ls s = Inr (evs, t)"
  shows "opens s (map fst evs) t" "list_all2 (\<lambda>l (d, ev). watches l ev \<and> loop_inv 0 ev) ls evs"
proof -
  have "opens s (map fst evs) t \<and> list_all2 (\<lambda>l (d, ev). watches l ev \<and> loop_inv 0 ev) ls evs"
    using assms
  proof (induction ls arbitrary: i s evs)
    case Nil
    then show ?case by (auto simp: opens_def)
  next
    case (Cons l ls)
    obtain d s1 ev evs' where *: "backend_init s = Inr (d, s1)"
      "do_ops (watch_queues i l) (init_loop now opened) = Inr ev"
      "init_loops now opened (i + 1) ls s1 = Inr (evs', t)" "evs = (d, ev) # evs'"
      using Cons.prems by (auto simp: bind_res_Inr_conv)
    have "watches l ev \<and> loop_inv 0 ev"
      using watch_queues_loop [of i "fst l" "snd l"] *(2) by (simp add: watches_def)
    then show ?case using opens_trans [OF backend_init_opens [OF *(1)]] Cons.IH [OF *(3)] *(4) by fastforce
  qed
  then show "opens s (map fst evs) t" "list_all2 (\<lambda>l (d, ev). watches l ev \<and> loop_inv 0 ev) ls evs" by auto
qed

lemma Start_parts:
  assumes "Start gai hw dflt now opened so s = Inr (Some st, t)"
  obtains d len s1 s2 where "CreateSocketAndListen (gai (host so) (sport so)) False s = Inr (d, len, s1)"
    "0 \<le> d" "0 \<le> loop_count so" "new_EventLoops (nat (loop_count so)) s1 = Inr (queue_events st, s2)"
    "init_loops now opened 0 (queue_events st) s2 = Inr (event_loops st, t)" "listen_fd (sobj st) = d"
    "thread_pool st = start (ThreadPool (core_pool so) (max_pool so) hw dflt)" "fst (pool_ring st) = ring_size so"
  using assms by (fastforce simp: Start_def Let_def bind_res_Inr_conv split: if_splits)

text \<open>The descriptors of a started server.\<close>

abbreviation server_fds :: "'a started \<Rightarrow> int list" where
  "server_fds st \<equiv>
     listen_fd (sobj st) # concat (map (\<lambda>(a, b). [a, b]) (queue_events st)) @ map fst (event_loops st)"

lemma Start_opens:
  assumes "Start gai hw dflt now opened so s = Inr (Some st, t)"
  shows "opens s (server_fds st) t" "length (event_loops st) = nat (loop_count so)"
    "list_all2 (\<lambda>l (d, ev). watches l ev \<and> loop_inv 0 ev) (queue_events st) (event_loops st)"
proof -
  obtain d len s1 s2 where *: "CreateSocketAndListen (gai (host so) (sport so)) False s = Inr (d, len, s1)"
    "0 \<le> d" "new_EventLoops (nat (loop_count so)) s1 = Inr (queue_events st, s2)"
    "init_loops now opened 0 (queue_events st) s2 = Inr (event_loops st, t)" "listen_fd (sobj st) = d"
    by (rule Start_parts [OF assms])
  have g: "fst (gai (host so) (sport so)) = 0" "snd (gai (host so) (sport so)) \<noteq> []"
    using *(1) by (auto simp: CreateSocketAndListen_def split: if_splits)
  have l: "opens s [d] s1"
    by (rule listen_objs [OF g, of False s]) (use *(1,2) in \<open>auto intro: opens_one\<close>)
  note n = new_EventLoops_opens [OF *(3)] and i = init_loops_up [OF *(4)]
  show "opens s (server_fds st) t" using opens_trans [OF opens_trans [OF l conjunct2 [OF n]] i(1)] *(5) by simp
  show "length (event_loops st) = nat (loop_count so)" using n i(2) by (auto dest: list_all2_lengthD)
  show "list_all2 (\<lambda>l (d, ev). watches l ev \<and> loop_inv 0 ev) (queue_events st) (event_loops st)" by (rule i(2))
qed


section \<open>Example\<close>

lemma init_loops_ok:
  assumes "answers s = []" "\<forall>(a, b) \<in> set ls. 0 \<le> a \<and> 0 \<le> b"
  shows "\<exists>evs t. init_loops now opened i ls s = Inr (evs, t)"
  using assms
proof (induction ls arbitrary: i s)
  case (Cons l ls)
  obtain a b where l: "l = (a, b)" "0 \<le> a" "0 \<le> b" using Cons.prems(2) by (cases l) auto
  obtain d t where b: "backend_init s = Inr (d, t)" "answers t = []"
    using Cons.prems(1)
    by (auto simp: backend_init_def next_answer_def new_fd_def Let_def fcntl_setfd_def set_obj_def upd_obj_def fail_with_def
        split: option.splits)
  have "\<exists>ev. do_ops (watch_queues i l) (init_loop now opened) = Inr ev"
    using l by (simp add: watch_queues_def io_watcher_init_def init_loop_def ev_io_new_def io_watcher_start_def
        watcher_list_add_def fd_change_def upd_fd_def Let_def EV_READ_def EV_WRITE_def)
  then show ?case using b Cons.IH [OF b(2), of "i + 1"] Cons.prems(2) by auto
qed simp

definition demo_obj :: server_obj where
  "demo_obj = \<lparr>host = ''127.0.0.1'', sport = ''9000'', listen_fd = - 1, loop_count = 2, core_pool = 1,
     max_pool = 2, keep_alive = 10, ring_size = 1024\<rparr>"

definition demo_os :: os where
  "demo_os = \<lparr>fd_table = replicate 3 (Some (new_obj DevNull)), answers = [], os_errno = 0, files = (\<lambda>_. None),
     session_leader = False\<rparr>"

definition demo_gai :: "string \<Rightarrow> string \<Rightarrow> int \<times> addrinfo list" where
  "demo_gai h p = (0, [\<lparr>ai_addr = (h, 9000), ai_addrlen = 16\<rparr>])"

lemma demo_start: "\<exists>st t. Start demo_gai 4 () 0 (\<lambda>_. True) demo_obj demo_os = Inr (Some st, t)"
proof -
  obtain s where l: "CreateSocketAndListen (demo_gai (host demo_obj) (sport demo_obj)) False demo_os = Inr (3, None, s)"
    "fd_table s = replicate 3 (Some (new_obj DevNull)) @ [fd_table s ! 3]" "fd_table s ! 3 \<noteq> None" "answers s = []"
    by (simp add: demo_gai_def demo_obj_def demo_os_def CreateSocketAndListen_def sys_socket_def next_answer_def new_fd_def
        Let_def lowest_free_def set_obj_def sys_on_def upd_obj_def obj_of_def numeral_eq_Suc)
  have "\<exists>t. new_EventLoops 2 s = Inr ([(4, 5), (6, 7)], t) \<and> answers t = []"
    by (cases "fd_table s ! 3")
      (use l in \<open>simp_all add: next_answer_def new_fd_def Let_def lowest_free_def set_obj_def upd_obj_def obj_of_def numeral_eq_Suc
        EventLoop_def Notifier_def CreateEventFd_def MakeSocketNonblocking_def fcntl_getfl_def fcntl_setfl_def O_NONBLOCK_def\<close>)
  then obtain t where t: "new_EventLoops 2 s = Inr ([(4, 5), (6, 7)], t)" "answers t = []" by blast
  obtain evs u where "init_loops 0 (\<lambda>_. True) 0 [(4, 5), (6, 7)] t = Inr (evs, u)"
    using init_loops_ok [OF t(2), of "[(4, 5), (6, 7)]" 0 "\<lambda>_. True" 0] by auto
  then show ?thesis using l(1) t(1) by (simp add: Start_def Let_def demo_obj_def)
qed


end
