(* ===== verification/Server_Down.thy ===== *)
theory Server_Down
  imports Server_Up Pool_Props
begin

text \<open>
  The destructor of a server: \<open>~Server\<close> with \<open>~ThreadPool\<close>, \<open>~Notifier\<close>, \<open>~ev_loop\<close> and \<open>~Backend\<close>. The
  threads of the event loops are detached and are not stopped by it; what they still do is not modelled.
\<close>

section \<open>The destructors\<close>

text \<open>\<open>shutdown\<close> by thread 0 of the model, and the loop that waits until no worker is left, against the
  other threads: the schedule says who runs.\<close>

definition delete_pool :: "nat \<Rightarrow> 'a pool_act list \<Rightarrow> 'a pool \<Rightarrow> 'a pool res" where
  "delete_pool sz sched p =
     bind_res (pool_run sz (Shutdown 0 # sched) p) (\<lambda>(p, _).
     if cpcs p 0 = CIdle \<and> \<not> 0 < poolSize p then Inr p else Inl NoReturn)"

text \<open>The members of an \<open>EventLoop\<close> go in reverse: the notifiers of the two queues, then the loop with its
  backend, which spares descriptor 0.\<close>

definition delete_loop :: "(int \<times> int) \<times> int \<Rightarrow> os \<Rightarrow> os" where
  "delete_loop l s =
     (case l of ((fd_event, response_event), backend_fd) \<Rightarrow>
        let s = sys_close fd_event (sys_close response_event s) in
        if backend_fd > 0 then sys_close backend_fd s else s)"

definition Server_delete :: "'a pool_act list \<Rightarrow> 'a started \<Rightarrow> os \<Rightarrow> os res" where
  "Server_delete sched st s =
     bind_res (delete_pool (unat (CircBuf_size (fst (pool_ring st)))) sched (thread_pool st)) (\<lambda>_.
     Inr (fold delete_loop (rev (zip (queue_events st) (map fst (event_loops st)))) s))"

section \<open>What is closed\<close>

lemma obj_close [simp]: "obj_of (sys_close d s) n = (if n = nat d then None else obj_of s n)"
  by (auto simp: sys_close_def set_obj_def obj_of_def nth_list_update nth_append)

lemma obj_delete_loop:
  "0 < d \<Longrightarrow> 0 \<le> a \<Longrightarrow> 0 \<le> b \<Longrightarrow>
   obj_of (delete_loop ((a, b), d) s) n = (if int n \<in> {a, b, d} then None else obj_of s n)"
  by (auto simp: delete_loop_def)

lemma obj_delete_loops:
  assumes "\<forall>((a, b), d) \<in> set ls. 0 \<le> a \<and> 0 \<le> b \<and> 0 < d"
  shows "obj_of (fold delete_loop ls s) n =
    (if \<exists>((a, b), d) \<in> set ls. int n \<in> {a, b, d} then None else obj_of s n)"
  using assms
proof (induction ls arbitrary: s)
  case (Cons l ls)
  obtain a b d where l: "l = ((a, b), d)" by (metis prod.exhaust)
  then show ?case using Cons by (auto simp: obj_delete_loop)
qed simp

lemma zip_fds:
  "length qs = length es \<Longrightarrow>
   (\<exists>((a, b), d) \<in> set (zip qs es). k \<in> {a, b, d}) \<longleftrightarrow> k \<in> set (concat (map (\<lambda>(a, b). [a, b]) qs) @ es)"
  by (induction qs es rule: list_induct2) auto

text \<open>C40. When the destructor of a server that was just started returns, every descriptor that \<open>Start\<close> opened is
  closed again, and none besides, except one: the listening socket stays open.\<close>

theorem destructor_leaves_listener:
  assumes "Start gai hw dflt now opened so s = Inr (Some st, t)" "Server_delete sched st t = Inr u"
    "obj_of s 0 \<noteq> None"
  shows "obj_of u n = (if int n = listen_fd (sobj st) then obj_of t n else obj_of s n) \<and>
    obj_of t (nat (listen_fd (sobj st))) \<noteq> None"
proof -
  note o = Start_opens [OF assms(1)]
  have len: "length (queue_events st) = length (event_loops st)" using o(3) by (auto dest: list_all2_lengthD)
  let ?ls = "zip (queue_events st) (map fst (event_loops st))"
  have pos: "0 < d" if "d \<in> set (server_fds st)" for d
  proof -
    have "0 \<le> d" "obj_of s (nat d) = None" using o(1) that unfolding opens_def by blast+
    then show ?thesis using assms(3) by (cases "d = 0") auto
  qed
  have mem: "(\<exists>((a, b), d) \<in> set ?ls. k \<in> {a, b, d}) \<longleftrightarrow> k \<in> set (server_fds st) - {listen_fd (sobj st)}" for k
    using o(1) len by (subst zip_fds) (auto simp: opens_def)
  have "0 < a \<and> 0 < b \<and> 0 < d" if "((a, b), d) \<in> set ?ls" for a b d
    using pos [of a] pos [of b] pos [of d] mem [of a] mem [of b] mem [of d] that by blast
  then have ok: "\<forall>((a, b), d) \<in> set ?ls. 0 \<le> a \<and> 0 \<le> b \<and> 0 < d" by (auto intro: less_imp_le)
  have u: "u = fold delete_loop (rev ?ls) t" using assms(2) by (auto simp: Server_delete_def bind_res_Inr_conv)
  have "obj_of u n = (if int n \<in> set (server_fds st) - {listen_fd (sobj st)} then None else obj_of t n)"
    unfolding u by (subst obj_delete_loops) (use ok mem in auto)
  moreover have "obj_of s n = None" if "int n \<in> set (server_fds st)" using o(1) that unfolding opens_def by (metis nat_int)
  moreover have "obj_of t n = obj_of s n" if "int n \<notin> set (server_fds st)" using o(1) that unfolding opens_def by blast
  moreover have "obj_of t (nat (listen_fd (sobj st))) \<noteq> None" using o(1) unfolding opens_def by (meson list.set_intros(1))
  ultimately show ?thesis by (cases "int n \<in> set (server_fds st)") (auto simp del: list.set)
qed

theorem destructor_leaves_listener_witness:
  "\<exists>st t u. Start demo_gai 4 () 0 (\<lambda>_. True) demo_obj demo_os = Inr (Some st, t) \<and>
     Server_delete (replicate 5 (Client 0 False) @ replicate 3 (Worker 0 False)) st t = Inr u \<and>
     obj_of u (nat (listen_fd (sobj st))) \<noteq> None \<and> obj_of demo_os (nat (listen_fd (sobj st))) = None"
proof -
  obtain st t where st: "Start demo_gai 4 () 0 (\<lambda>_. True) demo_obj demo_os = Inr (Some st, t)" using demo_start by blast
  have p: "thread_pool st = start (ThreadPool 1 2 4 ())" "fst (pool_ring st) = 1024"
    by (rule Start_parts [OF st], simp add: demo_obj_def)+
  have "CircBuf_size 1024 = 1024" by code_simp
  moreover have "\<exists>q. delete_pool 1024 (replicate 5 (Client 0 False) @ replicate 3 (Worker 0 False)) (start (ThreadPool 1 2 4 ())) = Inr q"
    by (simp add: delete_pool_def start_def addThread_def ThreadPool_def pool_sizes_def step_defs slot_of_def numeral_eq_Suc)
  ultimately obtain u where u: "Server_delete (replicate 5 (Client 0 False) @ replicate 3 (Worker 0 False)) st t = Inr u"
    by (auto simp: Server_delete_def p)
  have "obj_of demo_os 0 \<noteq> None" by (simp add: demo_os_def obj_of_def numeral_eq_Suc)
  note d = destructor_leaves_listener [OF st u this]
  have "0 \<le> listen_fd (sobj st)" "obj_of demo_os (nat (listen_fd (sobj st))) = None"
    using Start_opens(1) [OF st] by (auto simp: opens_def)
  then show ?thesis using st u d [of "nat (listen_fd (sobj st))"] by auto
qed

end
