(* ===== verification/Client_Stream.thy ===== *)
theory Client_Stream
  imports Client_Config Sockets Streams
begin

text \<open>
  How a client gets its stream: \<open>CreateStreamOrDie\<close> of \<open>create_stream.h\<close>, which puts the client's
  configuration, the socket helpers and the stream together.
\<close>

text \<open>\<open>dis\<close> is the random number generator, \<open>so\<close> what the connected socket will deliver and take.\<close>

definition CreateStreamOrDie ::
  "(string \<Rightarrow> bool) \<Rightarrow> (nat \<Rightarrow> nat) \<Rightarrow> strings \<Rightarrow> client_config \<Rightarrow> sock \<Rightarrow> os \<Rightarrow> (stream \<times> os) res" where
  "CreateStreamOrDie pton dis strs c so s =
     bind_res
       (case GetEndpointRandom dis c of
          None \<Rightarrow> Inr (- 1, s)
        | Some e \<Rightarrow> bind_res (read_ip strs e) (\<lambda>a. Inr (CreateSocketAndConnect pton a (port e) None s)))
       (\<lambda>(connect_fd, s).
     if connect_fd < 0 then Inl (ProcessExit 0)
     else Inr (Attach 4096 connect_fd so, s))"

lemma random_endpoint:
  "\<forall>k. dis k \<le> k \<Longrightarrow> GetEndpointRandom dis c = Some e \<Longrightarrow> e \<in> set (endpoints c)"
  by (auto simp: GetEndpointRandom_def split: if_splits intro!: nth_mem) (metis Suc_pred le_imp_less_Suc length_greater_0_conv)

text \<open>C39. With a configuration that was read from a file a client never gets a stream: the address of the
  endpoint that it draws is read after its string is gone. With addresses that are still there it
  gets a stream on a new socket, connected to one of the endpoints, or the process ends and no
  descriptor has changed.\<close>

theorem create_stream:
  assumes "\<forall>k. dis k \<le> k"
  shows "(\<forall>file loc st n st' c. ReadClientConfig file loc st \<lparr>endpoints = [], server_count = n\<rparr> = Inr (True, st', c) \<longrightarrow>
      CreateStreamOrDie pton dis st' c so s = Inl Dangling) \<and>
    (\<forall>strs c. (\<forall>e \<in> set (endpoints c). \<exists>a. read_ip strs e = Inr a) \<longrightarrow>
      CreateStreamOrDie pton dis strs c so s = Inl (ProcessExit 0) \<or>
      (\<exists>e \<in> set (endpoints c). \<exists>a n s'. read_ip strs e = Inr a \<and> obj_of s n = None \<and>
         CreateStreamOrDie pton dis strs c so s = Inr (Attach 4096 (int n) so, s') \<and>
         obj_of s' = (obj_of s)(n := Some ((new_obj Socket)\<lparr>peer := Some (a, port e)\<rparr>))))"
proof (intro conjI allI impI)
  fix path loc st n st' c
  assume r: "ReadClientConfig path loc st \<lparr>endpoints = [], server_count = n\<rparr> = Inr (True, st', c)"
  obtain m st1 where i: "read_client_items m loc (st(loc \<mapsto> [])) \<lparr>endpoints = [], server_count = n\<rparr> = (True, st1, c)"
    "st' = st1(loc := None)"
    by (rule ReadClientConfig_success [OF r])
  note es = read_client_items_success(2,3) [OF i(1)]
  then obtain e where e: "GetEndpointRandom dis c = Some e" by (auto simp: GetEndpointRandom_def)
  have "ip e = Some loc" using random_endpoint [OF assms e] es(1) by auto
  then have "read_ip st' e = Inl Dangling" using i(2) by (simp add: read_ip_def)
  then show "CreateStreamOrDie pton dis st' c so s = Inl Dangling" using e by (simp add: CreateStreamOrDie_def)
next
  fix strs and c :: client_config
  assume live: "\<forall>e \<in> set (endpoints c). \<exists>a. read_ip strs e = Inr a"
  show "CreateStreamOrDie pton dis strs c so s = Inl (ProcessExit 0) \<or>
      (\<exists>e \<in> set (endpoints c). \<exists>a n s'. read_ip strs e = Inr a \<and> obj_of s n = None \<and>
         CreateStreamOrDie pton dis strs c so s = Inr (Attach 4096 (int n) so, s') \<and>
         obj_of s' = (obj_of s)(n := Some ((new_obj Socket)\<lparr>peer := Some (a, port e)\<rparr>)))"
  proof (cases "GetEndpointRandom dis c")
    case (Some e)
    have e: "e \<in> set (endpoints c)" by (rule random_endpoint [OF assms Some])
    then obtain a where a: "read_ip strs e = Inr a" using live by blast
    have k: "(new_obj Socket)\<lparr>bound := None, peer := p\<rparr> = (new_obj Socket)\<lparr>peer := p\<rparr>" for p by (simp add: new_obj_def)
    show ?thesis
      using connect_outcome [where pton = pton and ip = a and prt = "port e" and bind_to = None and s = s] Some e a
      by (auto simp: CreateStreamOrDie_def k split: prod.splits intro!: bexI [of _ e])
  qed (simp add: CreateStreamOrDie_def)
qed

theorem create_stream_witness:
  "\<exists>st' c. ReadClientConfig (Some (render sample_client_doc)) 0 Map.empty
      \<lparr>endpoints = [], server_count = 0\<rparr> = Inr (True, st', c) \<and>
    CreateStreamOrDie (\<lambda>_. True) (\<lambda>k. k div 2) st' c \<lparr>rx = [], tx = [], wire = [], errno = 0\<rparr>
      \<lparr>fd_table = [], answers = [], os_errno = 0, files = (\<lambda>_. None), session_leader = False\<rparr> = Inl Dangling"
proof -
  have "\<forall>k :: nat. k div 2 \<le> k" by simp
  from create_stream [OF this] show ?thesis using sample_client_read by fast
qed

end
