(* ===== verification/Rpc.thy ===== *)
theory Rpc
  imports Client_Call Server_Props
begin

text \<open>
  A remote call from end to end: the client's blocking call, the server's \<open>ReadCb\<close>, the task that a worker
  runs and \<open>ResponseCb\<close> put together. A call that goes through returns what the handler of the named
  method returns for the same parameters.
\<close>

section \<open>What the server does with a request\<close>

text \<open>\<open>ReadCb\<close>, then a worker with the task that it submitted, then \<open>ResponseCb\<close> with the response. \<open>spare\<close> is
  the response object that the worker gets from the ring.\<close>

definition serve ::
  "'ctx server_env \<Rightarrow> nat \<Rightarrow> nat \<Rightarrow> short \<Rightarrow> response \<Rightarrow> 'ctx server \<Rightarrow> 'ctx server res" where
  "serve E w fd ev spare sv =
     bind_res (ReadCb E w fd ev sv) (\<lambda>(sv, _).
     case submitted sv of
       [] \<Rightarrow> Inr sv
     | t # ts \<Rightarrow>
         bind_res (task_run t spare) (\<lambda>(_, r).
         let sv = sv\<lparr>submitted := ts, response_queue := response_queue sv @ (case r of None \<Rightarrow> [] | Some r \<Rightarrow> [r])\<rparr>
         in bind_res (ResponseCb E sv) (\<lambda>(sv, _). Inr sv)))"

text \<open>The response for what a handler returned, and what the client makes of it.\<close>

definition answer_of :: "status \<times> string \<Rightarrow> response_msg" where
  "answer_of p = (case p of (result, out) \<Rightarrow>
     \<lparr>response_code = (if is_ok result then RESPONSE_OK else RESPONSE_ERROR),
      info = (if is_ok result then [] else c_string (message result)), response_contents = out\<rparr>)"

definition result_of :: "(string \<Rightarrow> 'r option) \<Rightarrow> status \<times> string \<Rightarrow> status \<times> 'r option" where
  "result_of parse_result p = (case p of (result, out) \<Rightarrow>
     if is_ok result
     then (case parse_result out of
             Some r \<Rightarrow> (Status_OK, Some r)
           | None \<Rightarrow> (Status ERROR ''receive result error'', None))
     else (Status ERROR (c_string (message result)), None))"

lemma receive_answer_of:
  "parse_rsp answer = Some (answer_of p) \<Longrightarrow> receive_answer parse_rsp parse_result answer = result_of parse_result p"
  by (auto simp: receive_answer_def answer_of_def result_of_def split: prod.splits option.splits)

text \<open>\<open>ReadCb\<close> leaves everything that \<open>ResponseCb\<close> works on alone.\<close>

definition same_output :: "'ctx server \<Rightarrow> 'ctx server \<Rightarrow> bool" where
  "same_output sv sv' \<longleftrightarrow> (\<forall>d. obuffer (socket_states sv' d) = obuffer (socket_states sv d)) \<and>
     written sv' = written sv \<and> write_results sv' = write_results sv \<and> response_queue sv' = response_queue sv"

lemma same_output_refl [simp]: "same_output sv sv" by (simp add: same_output_def)

lemma same_output_trans: "same_output a b \<Longrightarrow> same_output b c \<Longrightarrow> same_output a c"
  by (simp add: same_output_def)

lemma upd_sock_output: "(\<And>ss. obuffer (f ss) = obuffer ss) \<Longrightarrow> same_output a b \<Longrightarrow> same_output a (upd_sock fd f b)"
  by (simp add: same_output_def upd_sock_def)

lemma read_net_output: "read_net fd n sv = (k, bs, sv') \<Longrightarrow> same_output sv sv'"
  by (auto simp: read_net_def same_output_def Let_def split: list.splits net_in.splits)

lemma read_header_output: "read_header E w fd sv = Inr sv' \<Longrightarrow> same_output sv sv'"
  by (auto simp: read_header_def Let_def intro!: upd_sock_output dest: read_net_output split: if_splits prod.splits)

lemma read_header_end: "read_header E w fd sv = Inl (sv', ops) \<Longrightarrow> same_output sv sv'"
  by (auto simp: read_header_def StopWatcherAndCloseSocket_def Let_def intro!: upd_sock_output dest: read_net_output
      split: if_splits prod.splits)

lemma read_into_output: "read_into fd sv = Inr (k, sv') \<Longrightarrow> same_output sv sv'"
  by (auto simp: read_into_def Let_def bind_res_Inr_conv intro!: upd_sock_output dest: read_net_output split: if_splits prod.splits)
    (simp add: same_output_def)

lemma submit_packet_output: "submit_packet E w fd sv = Inr (sv', ops) \<Longrightarrow> same_output sv sv'"
  by (auto simp: submit_packet_def StopWatcherAndCloseSocket_def ResetReceiveBufState_def Let_def same_output_def upd_sock_def
      split: if_splits option.splits)

lemma read_body_output: "read_body E w fd sv = Inr (sv', ops) \<Longrightarrow> same_output sv sv'"
  by (auto simp: read_body_def StopWatcherAndCloseSocket_def bind_res_Inr_conv intro!: upd_sock_output
      dest: read_into_output submit_packet_output intro: same_output_trans split: if_splits)

lemma ReadCb_output: "ReadCb E w fd ev sv = Inr (sv', ops) \<Longrightarrow> same_output sv sv'"
  by (auto simp: ReadCb_def dest: read_header_output read_header_end read_body_output intro: same_output_trans
      split: if_splits sum.splits)

section \<open>A remote call\<close>

lemma task_answer_run:
  assumes "handler sm = Some h" "GetMethod ms (method_id rq) = Some sm" "fd \<noteq> - 1"
  shows "\<exists>t'. task_run ((InitCall (Some ctx) (GetMethod ms (method_id rq)) (Some (contents rq)) t)\<lparr>tfd := fd\<rparr>) spare =
    Inr (t', Some \<lparr>rfd = fd, response_content = answer_of (h ctx (contents rq) [])\<rparr>)"
proof -
  have "CallMethod ms ctx (method_id rq) (contents rq) [] = Inr (h ctx (contents rq) [])"
    using assms(1,2) by (cases "ms (method_id rq)") (simp_all add: CallMethod_def GetMethod_def run_method_def)
  then show ?thesis
    using task_answer [OF assms(3), of ctx ms rq t spare]
    by (cases "task_run ((InitCall (Some ctx) (GetMethod ms (method_id rq)) (Some (contents rq)) t)\<lparr>tfd := fd\<rparr>) spare")
      (auto simp: answer_of_def split: prod.splits)
qed

lemma packet_task_init:
  "packet_task E fd req =
     (InitCall (Some (context_of E)) (GetMethod (service_methods E) (method_id req)) (Some (contents req))
       ((old_task E)\<lparr>request_content := req\<rparr>))\<lparr>tfd := int fd\<rparr>"
  by (simp add: packet_task_def InitCall_def)

lemma registered:
  assumes "add_all sms Map.empty = Inr ms" "sm \<in> set sms"
  shows "GetMethod ms (method_hash sm) = Some sm"
  using assms map_of_rev_distinct [of sms sm] by (auto simp: add_all_result GetMethod_def split: if_splits)

text \<open>The server's part: one request in, one framed response out.\<close>

lemma serve_answers:
  assumes conn: "between_packets sv fd" "buffers_empty sv" "write_results sv = []" "submitted sv = []" "response_queue sv = []"
    and arrived: "net_ins sv fd = Chunk (frame bytes) # es" "ucast ev AND EV_READ \<noteq> 0" "0 < length bytes" "length bytes \<le> 16384"
    "length bytes \<le> unat (receive_buf_size (socket_states sv fd)) \<or> is_power_of_2 (of_nat (length bytes))"
    and env: "\<forall>k. alloc_ok E k" "ParseRequest E (map Some bytes) = Some req"
    "GetMethod (service_methods E) (method_id req) = Some sm" "handler sm = Some h"
    and sz: "length (SerializeResponse E (answer_of (h (context_of E) (contents req) []))) + 4 \<le> 2 ^ 31"
  shows "\<exists>sv'. serve E w fd ev spare sv = Inr sv' \<and> buffers_empty sv' \<and> submitted sv' = [] \<and>
    written sv' = written sv @ [(fd, frame (SerializeResponse E (answer_of (h (context_of E) (contents req) []))))]"
proof -
  let ?resp = "\<lparr>rfd = int fd, response_content = answer_of (h (context_of E) (contents req) [])\<rparr>"
  obtain sv1 where r: "ReadCb E w fd ev sv = Inr (sv1, [])" "submitted sv1 = [packet_task E fd req]"
    using whole_packet [OF conn(1) arrived(1,3,4) env(1,2) arrived(2), of w] arrived(5) conn(4) by auto
  note o = ReadCb_output [OF r(1), unfolded same_output_def]
  obtain t' where t: "task_run (packet_task E fd req) spare = Inr (t', Some ?resp)"
    using task_answer_run [OF env(4,3), of "int fd" "context_of E" "(old_task E)\<lparr>request_content := req\<rparr>" spare]
    unfolding packet_task_init by auto
  define sv2 where "sv2 = sv1\<lparr>submitted := [], response_queue := []\<rparr>"
  have b: "buffers_empty sv2" "write_results sv2 = []" "written sv2 = written sv"
    using o conn(2,3) by (simp_all add: sv2_def buffers_empty_def)
  obtain sv3 where s3: "respond E ?resp sv2 = Inr sv3" "buffers_empty sv3"
    "written sv3 = written sv @ [(fd, frame (SerializeResponse E (response_content ?resp)))]"
    using respond_whole [OF b(1,2) env(1), of ?resp] sz b(3) by auto
  have "submitted sv3 = submitted sv2" using s3(1) by (auto simp: respond_def Let_def bind_res_Inr_conv)
  then show ?thesis using r t o conn(5) s3 by (auto simp: serve_def ResponseCb_def Let_def sv2_def)
qed


section \<open>A call\<close>

definition rpc_env :: "unit server_env" where
  "rpc_env = demo_env
     \<lparr>ParseRequest := (\<lambda>bs. Some \<lparr>method_id = hash_code ''Echo'', contents = map (\<lambda>b. char_of (unat (the b))) (tl bs)\<rparr>),
      service_methods := [method_hash echo_method \<mapsto> echo_method]\<rparr>"

definition rpc_stream :: stream where
  "rpc_stream = example_stream\<lparr>ssock := (ssock example_stream)
     \<lparr>rx := [Arrived [0], Recv_error EINTR, Arrived [0, 2, 65], Arrived [66, 9]]\<rparr>\<rparr>"


end
