(* ===== verification/Cg_Util.thy ===== *)
theory Cg_Util
  imports Text "HOL-Library.Sublist"
begin

text \<open>
  The string helpers of the code generator (\<open>codegen/util.cpp\<close>) and the part of the C library that it
  uses: \<open>printf\<close> with \<open>%s\<close>, \<open>%d\<close> and \<open>%c\<close>, \<open>snprintf\<close> and \<open>strncpy\<close> into buffers of 256 bytes,
  \<open>toupper\<close> and \<open>tolower\<close>. A character array is the C string it holds.
\<close>

section \<open>Formatting\<close>

datatype fmt_arg = FS string | FD nat | FC char

primrec show_arg :: "fmt_arg \<Rightarrow> string" where
  "show_arg (FS s) = s"
| "show_arg (FD n) = to_string n"
| "show_arg (FC c) = [c]"

fun vformat :: "string \<Rightarrow> fmt_arg list \<Rightarrow> string" where
  "vformat [] as = []"
| "vformat [c] as = (if c = CHR ''%'' then [] else [c])"
| "vformat (c # d # cs) as =
     (if c = CHR ''%''
      then if d = CHR ''%'' then CHR ''%'' # vformat cs as
           else (case as of [] \<Rightarrow> [] | a # as \<Rightarrow> show_arg a @ vformat cs as)
      else c # vformat (d # cs) as)"

definition snprintf :: "nat \<Rightarrow> string \<Rightarrow> fmt_arg list \<Rightarrow> string" where
  "snprintf n fmt as = take (n - 1) (vformat fmt as)"

definition StrAppendFormat :: "string \<Rightarrow> string option \<Rightarrow> fmt_arg list \<Rightarrow> string" where
  "StrAppendFormat str fmt as = (case fmt of None \<Rightarrow> str | Some f \<Rightarrow> str @ vformat f as)"

section \<open>Characters\<close>

definition toupper :: "char \<Rightarrow> char" where
  "toupper c = (let n = of_char c :: nat in if 97 \<le> n \<and> n \<le> 122 then char_of (n - 32) else c)"

definition tolower :: "char \<Rightarrow> char" where
  "tolower c = (let n = of_char c :: nat in if 65 \<le> n \<and> n \<le> 90 then char_of (n + 32) else c)"

definition ToUpper :: "string \<Rightarrow> string" where "ToUpper s = map toupper s"
definition ToLower :: "string \<Rightarrow> string" where "ToLower s = map tolower s"

section \<open>Searching and replacing\<close>

text \<open>\<open>std::string::find\<close>: the first match at \<open>pos\<close> or later.\<close>

definition str_find :: "string \<Rightarrow> string \<Rightarrow> nat \<Rightarrow> nat option" where
  "str_find str from pos =
     find (\<lambda>p. take (length from) (drop p str) = from) [pos ..< length str + 1 - length from]"

text \<open>The loop of \<open>StrReplaceAll\<close>; \<open>None\<close> is a loop that never ends.\<close>

partial_function (option) replace_from :: "string \<Rightarrow> string \<Rightarrow> nat \<Rightarrow> string \<Rightarrow> string option" where
  "replace_from from to pos str =
     (case str_find str from pos of
        None \<Rightarrow> Some str
      | Some p \<Rightarrow> replace_from from to (p + length to) (take p str @ to @ drop (p + length from) str))"

declare replace_from.simps [code]

definition StrReplaceAll :: "string \<Rightarrow> string \<Rightarrow> string \<Rightarrow> string res" where
  "StrReplaceAll str from to = (case replace_from from to 0 str of None \<Rightarrow> Inl NoReturn | Some s \<Rightarrow> Inr s)"

definition trim_chars :: string where "trim_chars = [CHR '' '', CHR 0x09, CHR 0x0D, CHR 0x0A]"

definition StrTrim :: "string \<Rightarrow> string \<Rightarrow> string" where
  "StrTrim str trim =
     (case find (\<lambda>i. str ! i \<notin> set trim) [0..<length str] of
        None \<Rightarrow> []
      | Some first \<Rightarrow>
          (case find (\<lambda>i. str ! i \<notin> set trim) (rev [0..<length str]) of
             None \<Rightarrow> drop first str
           | Some lst \<Rightarrow> take (lst - first + 1) (drop first str)))"

definition StrEndsWith :: "string \<Rightarrow> string \<Rightarrow> bool" where
  "StrEndsWith val ending \<longleftrightarrow>
     \<not> length ending > length val \<and> take (length ending) (rev val) = rev ending"

section \<open>What they compute\<close>

text \<open>The textbook replacement: from left to right, without looking at what was put in.\<close>

function replace_all :: "string \<Rightarrow> string \<Rightarrow> string \<Rightarrow> string" where
  "replace_all from to s =
     (case s of
        [] \<Rightarrow> []
      | c # cs \<Rightarrow>
          if from \<noteq> [] \<and> prefix from s then to @ replace_all from to (drop (length from) s)
          else c # replace_all from to cs)"
  by pat_completeness auto
termination
  by (relation "measure (\<lambda>(from, to, s). length s)") (auto simp: length_greater_0_conv [symmetric] simp del: length_greater_0_conv)

declare replace_all.simps [simp del]

lemma replace_all_simps:
  "replace_all from to [] = []"
  "from \<noteq> [] \<Longrightarrow> prefix from s \<Longrightarrow> replace_all from to s = to @ replace_all from to (drop (length from) s)"
  "\<not> prefix from (c # cs) \<Longrightarrow> replace_all from to (c # cs) = c # replace_all from to cs"
  by (subst replace_all.simps, auto split: list.splits)+

lemma replace_all_skip:
  "(\<And>q. q < k \<Longrightarrow> \<not> prefix from (drop q s)) \<Longrightarrow> k \<le> length s \<Longrightarrow>
   replace_all from to s = take k s @ replace_all from to (drop k s)"
proof (induction k arbitrary: s)
  case (Suc k)
  obtain c cs where s: "s = c # cs" using Suc.prems(2) by (cases s) auto
  have "\<not> prefix from (drop q cs)" if "q < k" for q using Suc.prems(1) [of "Suc q"] that s by simp
  moreover have "\<not> prefix from s" using Suc.prems(1) [of 0] by simp
  ultimately show ?case using Suc.IH [of cs] Suc.prems(2) s by (simp add: replace_all_simps)
qed simp

lemma match_prefix: "take (length from) s = from \<longleftrightarrow> prefix from s"
  by (metis append_take_drop_id prefixI append_eq_conv_conj prefix_def)

lemma find_upt_Some:
  "find P [a..<b] = Some p \<longleftrightarrow> a \<le> p \<and> p < b \<and> P p \<and> (\<forall>q. a \<le> q \<and> q < p \<longrightarrow> \<not> P q)"
proof -
  have "find P [a..<b] = Some p \<longleftrightarrow> (\<exists>i < b - a. P (a + i) \<and> p = a + i \<and> (\<forall>j < i. \<not> P (a + j)))"
    by (auto simp: find_Some_iff)
  also have "\<dots> \<longleftrightarrow> a \<le> p \<and> p < b \<and> P p \<and> (\<forall>q. a \<le> q \<and> q < p \<longrightarrow> \<not> P q)"
  proof (intro iffI)
    assume "\<exists>i < b - a. P (a + i) \<and> p = a + i \<and> (\<forall>j < i. \<not> P (a + j))"
    then obtain i where i: "i < b - a" "P (a + i)" "p = a + i" "\<forall>j < i. \<not> P (a + j)" by blast
    have "\<not> P q" if "a \<le> q" "q < p" for q using i(3,4) that by (metis le_Suc_ex nat_add_left_cancel_less)
    then show "a \<le> p \<and> p < b \<and> P p \<and> (\<forall>q. a \<le> q \<and> q < p \<longrightarrow> \<not> P q)" using i by auto
  next
    assume a: "a \<le> p \<and> p < b \<and> P p \<and> (\<forall>q. a \<le> q \<and> q < p \<longrightarrow> \<not> P q)"
    then show "\<exists>i < b - a. P (a + i) \<and> p = a + i \<and> (\<forall>j < i. \<not> P (a + j))"
      by (intro exI [of _ "p - a"]) auto
  qed
  finally show ?thesis .
qed

lemma prefix_room: "prefix from (drop q s) \<Longrightarrow> from \<noteq> [] \<Longrightarrow> q < length s + 1 - length from"
  by (auto dest!: prefix_length_le simp: length_greater_0_conv [symmetric] simp del: length_greater_0_conv)

lemma replace_from_result:
  assumes "from \<noteq> []" "pos \<le> length str"
  shows "replace_from from to pos str = Some (take pos str @ replace_all from to (drop pos str))"
  using assms(2)
proof (induction "length str - pos" arbitrary: pos str rule: less_induct)
  case less
  show ?case
  proof (cases "str_find str from pos")
    case None
    have "\<not> prefix from (drop q (drop pos str))" for q
    proof
      assume p: "prefix from (drop q (drop pos str))"
      then have "prefix from (drop (pos + q) str)" by (simp add: add.commute)
      then show False
        using prefix_room [OF _ assms(1)] None unfolding str_find_def find_None_iff match_prefix by force
    qed
    then have "replace_all from to (drop pos str) = drop pos str"
      using replace_all_skip [of "length (drop pos str)" "from" "drop pos str" to]
      by (simp add: replace_all_simps)
    then show ?thesis by (subst replace_from.simps) (simp add: None)
  next
    case (Some p)
    let ?str = "take p str @ to @ drop (p + length from) str"
    have p: "pos \<le> p" "p + length from \<le> length str" "prefix from (drop p str)"
      "\<And>q. pos \<le> q \<Longrightarrow> q < p \<Longrightarrow> \<not> prefix from (drop q str)"
      using Some unfolding str_find_def find_upt_Some match_prefix by auto
    obtain k where f: "length from = Suc k" using assms(1) by (cases "from") auto
    have "replace_from from to (p + length to) ?str =
        Some (take (p + length to) ?str @ replace_all from to (drop (p + length to) ?str))"
      using p(1,2) f by (intro less) simp_all
    also have "\<dots> = Some (take p str @ to @ replace_all from to (drop (p + length from) str))" using p by simp
    also have "take p str @ to @ replace_all from to (drop (p + length from) str) =
        take pos str @ replace_all from to (drop pos str)"
    proof -
      have "replace_all from to (drop pos str) =
          take (p - pos) (drop pos str) @ replace_all from to (drop (p - pos) (drop pos str))"
        using p by (intro replace_all_skip) (auto simp: less_diff_conv add.commute)
      also have "replace_all from to (drop (p - pos) (drop pos str)) = to @ replace_all from to (drop (p + length from) str)"
        using p assms(1) by (simp add: replace_all_simps add.commute)
      finally show ?thesis using p by (simp add: take_drop) (metis append.assoc append_take_drop_id drop_take le_add_diff_inverse2 take_take min_def)
    qed
    finally show ?thesis by (subst replace_from.simps) (simp add: Some)
  qed
qed

lemma StrReplaceAll_nonempty:
  "from \<noteq> [] \<Longrightarrow> StrReplaceAll str from to = Inr (replace_all from to str)"
  using replace_from_result [of "from" 0 str to] by (simp add: StrReplaceAll_def)

text \<open>With nothing to look for, every position is a match.\<close>

lemma replace_from_empty:
  assumes "replace_from fr to pos str = Some s"
  shows "fr = [] \<longrightarrow> length str < pos"
  using assms
proof (rule replace_from.raw_induct [where P = "\<lambda>fr to pos str s. fr = [] \<longrightarrow> length str < pos", rotated])
  fix rf fr to pos str s
  assume ih: "\<And>fr to pos str s. rf fr to pos str = Some s \<Longrightarrow> fr = [] \<longrightarrow> length str < pos"
    and r: "(case str_find str fr pos of None \<Rightarrow> Some str
      | Some p \<Rightarrow> rf fr to (p + length to) (take p str @ to @ drop (p + length fr) str)) = Some s"
  show "fr = [] \<longrightarrow> length str < pos"
  proof
    assume fr: "fr = []"
    show "length str < pos"
    proof (cases "str_find str fr pos")
      case None
      then show ?thesis using fr by (force simp: str_find_def find_None_iff)
    next
      case (Some p)
      then have "p \<le> length str" using fr unfolding str_find_def find_upt_Some by simp
      then show ?thesis
        using ih [of fr to "p + length to" "take p str @ to @ drop p str" s] r Some fr by simp
    qed
  qed
qed

text \<open>C18. \<open>StrReplaceAll\<close> is the replacement of all occurrences from left to right, which never looks at
  what it has put in; only with an empty pattern it never returns.\<close>

theorem StrReplaceAll_equals:
  "StrReplaceAll str from to = (if from = [] then Inl NoReturn else Inr (replace_all from to str))"
proof (cases "from = []")
  case True
  then show ?thesis using replace_from_empty [of "[]" to 0 str] by (cases "replace_from [] to 0 str") (auto simp: StrReplaceAll_def)
qed (simp add: StrReplaceAll_nonempty)

section \<open>Printing to a file\<close>

text \<open>What \<open>fprintf\<close> writes to the stream.\<close>

abbreviation fprintf :: "string \<Rightarrow> fmt_arg list \<Rightarrow> string" where "fprintf \<equiv> vformat"

fun map_res :: "('a \<Rightarrow> 'b res) \<Rightarrow> 'a list \<Rightarrow> 'b list res" where
  "map_res f [] = Inr []"
| "map_res f (x # xs) = bind_res (f x) (\<lambda>y. bind_res (map_res f xs) (\<lambda>ys. Inr (y # ys)))"

lemma map_res_Inr: "(\<And>x. x \<in> set xs \<Longrightarrow> f x = Inr (g x)) \<Longrightarrow> map_res f xs = Inr (map g xs)"
  by (induction xs) auto

text \<open>\<open>while (n--)\<close>: a negative count runs until the counter has wrapped around.\<close>

definition append_tabs :: "int \<Rightarrow> string \<Rightarrow> string res" where
  "append_tabs n buf = (if n < 0 then Inl NoReturn else Inr (buf @ replicate (nat n) (CHR 0x09)))"

definition unlines :: "string list \<Rightarrow> string" where
  "unlines ls = concat (map (\<lambda>l. l @ [CHR 0x0A]) ls)"

end
