(* ===== verification/Cg_Tree.thy ===== *)
theory Cg_Tree
  imports Cg_Util
begin

text \<open>
  What the code generator works on: the syntax tree of \<open>codegen/syntax_tree.cpp\<close>, which keeps names in
  arrays of 256 bytes, the parser of \<open>codegen/proto_parser.cpp\<close>, which fills it, and the names of
  \<open>codegen/name_generator.cpp\<close>. The protobuf importer is a parameter: what it finds in a file.
\<close>

section \<open>The syntax tree\<close>

definition NAME_LEN :: nat where "NAME_LEN = 256"

text \<open>\<open>strncpy(dest, src, sizeof(dest) - 1)\<close> into an array that ends with NUL.\<close>

definition strncpy_name :: "string \<Rightarrow> string" where
  "strncpy_name src = take (NAME_LEN - 1) src"

record syntax_param =
  param_name :: string
  param_type :: string

record syntax_func =
  req :: syntax_param
  rsp :: syntax_param
  func_name :: string

record syntax_tree =
  proto_file_name :: string
  package_name :: string
  service_name :: string
  func_list :: "syntax_func list"

definition SyntaxParam :: syntax_param where "SyntaxParam = \<lparr>param_name = [], param_type = []\<rparr>"
definition SyntaxFunc :: syntax_func where "SyntaxFunc = \<lparr>req = SyntaxParam, rsp = SyntaxParam, func_name = []\<rparr>"

definition SyntaxTree :: syntax_tree where
  "SyntaxTree = \<lparr>proto_file_name = [], package_name = [], service_name = [], func_list = []\<rparr>"

definition set_param_name :: "string \<Rightarrow> syntax_param \<Rightarrow> syntax_param" where
  "set_param_name s p = p\<lparr>param_name := strncpy_name s\<rparr>"

definition set_param_type :: "string \<Rightarrow> syntax_param \<Rightarrow> syntax_param" where
  "set_param_type s p = p\<lparr>param_type := strncpy_name s\<rparr>"

definition set_func_name :: "string \<Rightarrow> syntax_func \<Rightarrow> syntax_func" where
  "set_func_name s f = f\<lparr>func_name := strncpy_name s\<rparr>"

definition set_proto_file_name :: "string \<Rightarrow> syntax_tree \<Rightarrow> syntax_tree" where
  "set_proto_file_name s t = t\<lparr>proto_file_name := strncpy_name s\<rparr>"

definition set_package_name :: "string \<Rightarrow> syntax_tree \<Rightarrow> syntax_tree" where
  "set_package_name s t = t\<lparr>package_name := strncpy_name s\<rparr>"

definition set_service_name :: "string \<Rightarrow> syntax_tree \<Rightarrow> syntax_tree" where
  "set_service_name s t = t\<lparr>service_name := strncpy_name s\<rparr>"

section \<open>The parser\<close>

text \<open>What the importer returns: a file's package and its services, each with its methods and the full
  names of their argument and result types.\<close>

record method_descriptor =
  md_name :: string
  input_type :: string
  output_type :: string

record service_descriptor =
  sd_name :: string
  sd_methods :: "method_descriptor list"

record file_descriptor =
  fd_package :: string
  fd_services :: "service_descriptor list"

definition parse_method :: "method_descriptor \<Rightarrow> syntax_func" where
  "parse_method m =
     (let f = set_func_name (md_name m) SyntaxFunc;
          f = f\<lparr>req := set_param_type (input_type m) (set_param_name ''request'' (req f))\<rparr>
      in f\<lparr>rsp := set_param_type (output_type m) (set_param_name ''response'' (rsp f))\<rparr>)"

definition ParseProtoFile ::
  "(string list \<Rightarrow> string \<Rightarrow> file_descriptor option) \<Rightarrow> string list \<Rightarrow> string \<Rightarrow> syntax_tree \<Rightarrow> int \<times> syntax_tree" where
  "ParseProtoFile importer paths file t =
     (case importer paths file of
        None \<Rightarrow> (- 1, t)
      | Some fd \<Rightarrow>
          (case fd_services fd of
             [] \<Rightarrow> (- 1, t)
           | service # _ \<Rightarrow>
               let t = set_package_name (fd_package fd) (set_proto_file_name file t);
                   t = set_service_name (sd_name service) t
               in (0, t\<lparr>func_list := func_list t @ map parse_method (sd_methods service)\<rparr>)))"

definition AddEcho :: "syntax_tree \<Rightarrow> syntax_tree" where
  "AddEcho t =
     (let type_name = ''google.protobuf.StringValue'';
          f = set_func_name ''Echo'' SyntaxFunc;
          f = f\<lparr>req := set_param_name ''request'' (set_param_type type_name (req f))\<rparr>;
          f = f\<lparr>rsp := set_param_name ''response'' (set_param_type type_name (rsp f))\<rparr>
      in t\<lparr>func_list := f # func_list t\<rparr>)"

definition Parse ::
  "(string list \<Rightarrow> string \<Rightarrow> file_descriptor option) \<Rightarrow> string \<Rightarrow> string list \<Rightarrow> syntax_tree \<Rightarrow> int \<times> syntax_tree" where
  "Parse importer file include_path_list t =
     (case ParseProtoFile importer (''./'' # include_path_list) file t of (ret, t) \<Rightarrow>
        (ret, if ret = 0 then AddEcho t else t))"

section \<open>Names\<close>

definition BUFFER_SIZE :: nat where "BUFFER_SIZE = 256"

definition GetIDLClassName :: "string \<Rightarrow> string res" where
  "GetIDLClassName type =
     bind_res (StrReplaceAll type ''.'' ''::'') (\<lambda>str_type. Inr (snprintf BUFFER_SIZE ''::%s'' [FS str_type]))"

definition GetIDLFileName :: "string \<Rightarrow> string" where
  "GetIDLFileName name =
     (let dest = snprintf BUFFER_SIZE ''%s'' [FS name];
          dest = (if StrEndsWith dest ''.proto'' then take (length dest - length ''.proto'') dest else dest)
      in dest @ take (BUFFER_SIZE - length dest - 1) ''.pb'')"

text \<open>A class name needs a first character: \<open>name + 1\<close> of an empty name is outside of it.\<close>

definition named_class :: "string \<Rightarrow> string \<Rightarrow> string res" where
  "named_class fmt name =
     (case name of [] \<Rightarrow> Inl OutOfBounds | c # rest \<Rightarrow> Inr (snprintf BUFFER_SIZE fmt [FC (toupper c), FS rest]))"

definition GetStubFileName :: "string \<Rightarrow> string" where
  "GetStubFileName name = ToLower (snprintf BUFFER_SIZE ''%s_stub'' [FS name])"
definition GetStubClassName :: "string \<Rightarrow> string res" where
  "GetStubClassName name = named_class ''%c%sStub'' name"
definition GetClientFileName :: "string \<Rightarrow> string" where
  "GetClientFileName name = ToLower (snprintf BUFFER_SIZE ''%s_client'' [FS name])"
definition GetClientClassName :: "string \<Rightarrow> string res" where
  "GetClientClassName name = named_class ''%c%sClient'' name"
definition GetServiceFileName :: "string \<Rightarrow> string" where
  "GetServiceFileName name = ToLower (snprintf BUFFER_SIZE ''%s_service'' [FS name])"
definition GetServiceClassName :: "string \<Rightarrow> string res" where
  "GetServiceClassName name = named_class ''%c%sService'' name"
definition GetServiceImplFileName :: "string \<Rightarrow> string" where
  "GetServiceImplFileName name = ToLower (snprintf BUFFER_SIZE ''%s_service_impl'' [FS name])"
definition GetServiceImplClassName :: "string \<Rightarrow> string res" where
  "GetServiceImplClassName name = named_class ''%c%sServiceImpl'' name"
definition GetServerMainFileName :: "string \<Rightarrow> string" where
  "GetServerMainFileName name = ToLower (snprintf BUFFER_SIZE ''%s_server_main'' [FS name])"
definition GetClientMainFileName :: "string \<Rightarrow> string" where
  "GetClientMainFileName name = ToLower (snprintf BUFFER_SIZE ''%s_client_main'' [FS name])"
definition GetMethodNamesFileName :: "string \<Rightarrow> string" where
  "GetMethodNamesFileName name = ToLower (snprintf BUFFER_SIZE ''%s_method_names'' [FS name])"
definition GetClientConfigFileName :: "string \<Rightarrow> string" where
  "GetClientConfigFileName name = ToLower (snprintf BUFFER_SIZE ''%s_client'' [FS name])"
definition GetServerConfigFileName :: "string \<Rightarrow> string" where
  "GetServerConfigFileName name = ToLower (snprintf BUFFER_SIZE ''%s_server'' [FS name])"
definition GetClientExceFileName :: "string \<Rightarrow> string" where
  "GetClientExceFileName name = ToLower (snprintf BUFFER_SIZE ''%s_client'' [FS name])"
definition GetServerExceFileName :: "string \<Rightarrow> string" where
  "GetServerExceFileName name = ToLower (snprintf BUFFER_SIZE ''%s_server'' [FS name])"
definition GetDefineHeader :: "string \<Rightarrow> string" where
  "GetDefineHeader hpp_file_name = ToUpper (snprintf BUFFER_SIZE ''_%s_H_'' [FS hpp_file_name])"

end
