(* ===== verification/Cg_Templates.thy ===== *)
theory Cg_Templates
  imports Cg_Util
begin

text \<open>
  The texts that the code generator copies: \<open>codegen/server_template.cpp\<close> and
  \<open>codegen/client_template.cpp\<close>, line by line. A raw string literal begins with the line break after its
  parenthesis.
\<close>

definition BS :: string where "BS = [CHR 0x5C]"

section \<open>The server's files\<close>

definition EMOSKIT_SERVER_MAIN_TEMPLATE :: string where
  \<open>EMOSKIT_SERVER_MAIN_TEMPLATE =
     CHR 0x0A # unlines
     [''#include <iostream>'',
      ''#include <signal.h>'',
      ''#include <assert.h>'',
      '''',
      ''#include <emoskit/server.h>'',
      ''#include <emoskit/server_config.h>'',
      '''',
      ''#include "$service_impl_file$.h"'',
      '''',
      ''using namespace std;'',
      ''using namespace emoskit;'',
      '''',
      ''void PrintHelp(const char* program) {'',
      ''	printf("Usage: %s [-c <config file>] [-l <log level>] [-d]'' @ BS @ ''n", program);'',
      ''	printf("	-f <config file>             # server config file'' @ BS @ ''n");'',
      ''	printf("	-l <log level>               # DEBUG:1, INFO:2, WARN:3, ERROR:4'' @ BS @ ''n");'',
      ''	printf("	-d                           # daemonize'' @ BS @ ''n");'',
      ''	printf("'' @ BS @ ''n");'',
      '''',
      ''	exit(0);'',
      ''}'',
      '''',
      ''int main(int argc, char *argv[]){'',
      '''',
      ''	const char * config_file = nullptr;'',
      ''	bool daemonize = false;'',
      ''	int log_level = -1;'',
      '''',
      ''	int c;'',
      ''	while ((c = getopt(argc, argv, "c:hl:d")) != EOF) {'',
      ''		switch (c) {'',
      ''		case 'c':'',
      ''			config_file = optarg;'',
      ''			break;'',
      ''		case 'd':'',
      ''			daemonize = true;'',
      ''			break;'',
      ''		case 'l':'',
      ''			log_level = atoi(optarg);'',
      ''			break;'',
      ''		case  'h':'',
      ''		default:'',
      ''			PrintHelp(argv[0]);'',
      ''			break;'',
      ''		}'',
      ''	}'',
      '''',
      ''	if (daemonize) util::Daemonize();'',
      '''',
      ''	assert(signal(SIGPIPE, SIG_IGN) != SIG_ERR);'',
      '''',
      ''	if (nullptr == config_file) PrintHelp(argv[0]);'',
      '''',
      ''	ServerConfig server_config;'',
      ''	if (!server_config.ReadConfigFile(config_file))'',
      ''		return 0;'',
      '''',
      ''	if (log_level > 0)'',
      ''		server_config.set_log_level(log_level);'',
      '''',
      ''	Server server(&server_config);'',
      '''',
      ''	$service_impl_class$ service;'',
      '''',
      ''	server.RegisterService(&service);'',
      '''',
      ''	server.Start();'',
      ''	server.Wait();'',
      '''',
      ''	return 0;'',
      ''}'']\<close>

definition EMOSKIT_MAKEFILE_TEMPLATE :: string where
  \<open>EMOSKIT_MAKEFILE_TEMPLATE =
     CHR 0x0A # unlines
     [''$protobuf_home$'',
      ''EMOSKIT_HOME=$emoskit_home$'',
      '''',
      ''ifeq ($(debug),y)'',
      ''	OPT = -g2'',
      ''else'',
      ''	OPT = -O2'',
      ''endif'',
      '''',
      '''',
      ''CC = g++'',
      ''RM = rm -f'',
      '''',
      ''CXXFLAGS = -std=c++11 -ffunction-sections $(OPT)'',
      ''LDFLAGS = -Wl,-gc-sections $-Lprotobuf_lib$ -L$(EMOSKIT_HOME)/lib/'',
      ''LIBS = -lpthread -lprotobuf -lemoskit'',
      ''CPPFLAGS = $-Iprtobuf_include$ -I $(EMOSKIT_HOME)/include/'',
      '''',
      '''',
      ''SVR_OBJS = $pb_file$.o $server_main_file$.o $service_file$.o $service_impl_file$.o'',
      '''',
      ''CLI_OBJS = $pb_file$.o $client_main_file$.o $client_file$.o $stub_file$.o'',
      '''',
      ''%.o : %.cc'',
      ''	$(CC) $(CXXFLAGS) $(CPPFLAGS) -c $< -o $@'',
      ''%.o : %.cc'',
      ''	$(CC) $(CXXFLAGS) $(CPPFLAGS) -c $< -o $@'',
      ''%.o : %.cpp'',
      ''	$(CC) $(CXXFLAGS) $(CPPFLAGS) -c $< -o $@'',
      '''',
      ''TARGETS = $server_exec_file$ $client_exec_file$'',
      '''',
      ''all: $(TARGETS)'',
      '''',
      ''$server_exec_file$: $(SVR_OBJS)'',
      ''	$(CC) $^ $(LDFLAGS) $(LIBS) -o $@'',
      '''',
      ''$client_exec_file$: $(CLI_OBJS)'',
      ''	$(CC) $^ $(LDFLAGS) $(LIBS) -o $@'',
      '''',
      ''$server_main_file$.cpp: $service_impl_file$.h'',
      ''$service_impl_file$.cpp: $service_impl_file$.h'',
      ''$service_impl_file$.h: $service_file$.h'',
      ''$service_file$.cpp: $service_file$.h'',
      ''$service_file$.h: $pb_file$.h'',
      '''',
      ''$client_main_file$.cpp: $client_file$.h'',
      ''$client_file$.cpp: $client_file$.h'',
      ''$client_file$.h: $stub_file$.h'',
      ''$stub_file$.cpp: $stub_file$.h'',
      ''$stub_file$.h: $pb_file$.h'',
      '''',
      ''$pb_file$.cc: $pb_file$.h'',
      ''$pb_file$.h: $proto_file_name$'',
      ''	$protobuf_bin$protoc $-Iprtobuf_include$ --cpp_out=. -I $(EMOSKIT_HOME) -I. $^'',
      '''',
      ''clean:'',
      ''	@$(RM) $(TARGETS)'',
      ''	@$(RM) *.o'',
      ''	@$(RM) *.pb.*'',
      '''']\<close>

definition EMOSKIT_SERVER_CONFIG_TEMPLATE :: string where
  \<open>EMOSKIT_SERVER_CONFIG_TEMPLATE =
     CHR 0x0A # unlines
     [''[Server]'',
      ''IP = 127.0.0.1'',
      ''Port = 50060'',
      ''EventLoopCnt = 3'',
      ''WorkerPoolCorePoolSize = 6'',
      ''WorkerPoolMaxPoolSize = 9'',
      ''WorkerPoolKeepAliveTimeSeconds = 60'',
      ''CircbufSize = 1024'',
      '' '',
      ''[Log]'',
      ''LogDir = ./log'',
      ''LogLevel = 3	# DEBUG:1, INFO:2, WARN:3, ERROR:4'']\<close>

section \<open>The client's files\<close>

definition EMOSKIT_CLIENT_CONFIG_TEMPLATE :: string where
  \<open>EMOSKIT_CLIENT_CONFIG_TEMPLATE =
     CHR 0x0A # unlines
     [''[Server]'',
      ''ServerCount = 2'',
      '''',
      ''[Server_0]'',
      ''IP = 127.0.0.1'',
      ''Port = 50060'',
      '''',
      ''[Server_1]'',
      ''IP = 127.0.0.1'',
      ''Port = 50060'']\<close>

definition EMOSKIT_CLIENT_MAIN_TEMPLATE :: string where
  \<open>EMOSKIT_CLIENT_MAIN_TEMPLATE =
     CHR 0x0A # unlines
     [''#include <iostream>'',
      '''',
      ''#include <emoskit/create_stream.h>'',
      '''',
      ''#include "$client_file$.h"'',
      '''',
      ''using namespace std;'',
      '''',
      ''using namespace $package_name$;'',
      ''using namespace emoskit;'',
      '''',
      ''int main() {'',
      '''',
      ''	emoskit_set_log_level(LOG_LEVEL_DEBUG);'',
      '''',
      ''	ClientConfig client_config;'',
      ''	if(!client_config.ReadConfigFile("$client_conf_file$.conf"))'',
      ''		return -1;'',
      '''',
      ''	$client_class$ client(CreateStreamOrDie(&client_config), &client_config);'',
      '''',
      ''	string msg = "hello world!";'',
      ''	'',
      ''	cout << client.Echo(msg) << endl;'',
      '''',
      ''	return 0;'',
      ''}'']\<close>

end
