(* ===== verification/Cg_Server.thy ===== *)
theory Cg_Server
  imports Cg_Tree Cg_Templates
begin

text \<open>
  The generator of the server's files, \<open>codegen/server_generator.cpp\<close>: each function returns what it
  writes to its stream.
\<close>

definition PROJECT_NAME :: string where "PROJECT_NAME = ''emoskit''"

section \<open>Declarations\<close>

definition GetServiceFuncDeclaration :: "syntax_tree \<Rightarrow> syntax_func \<Rightarrow> bool \<Rightarrow> bool \<Rightarrow> int \<Rightarrow> string \<Rightarrow> string res" where
  \<open>GetServiceFuncDeclaration t f is_hpp is_impl how_much_tab buf =
     bind_res (if is_impl then GetServiceImplClassName (service_name t) else GetServiceClassName (service_name t)) (\<lambda>class_name.
     bind_res
       (if is_hpp
        then Inr (StrAppendFormat buf (Some ''::%s::Status %s(::%s::ServerContext* context,\<newline>'')
                    [FS PROJECT_NAME, FS (func_name f), FS PROJECT_NAME])
        else
          bind_res (append_tabs (how_much_tab - 1) (StrAppendFormat buf (Some ''::%s::Status\<newline>'') [FS PROJECT_NAME])) (\<lambda>buf.
          Inr (StrAppendFormat buf (Some ''%s::%s(::%s::ServerContext* context,\<newline>'')
                 [FS class_name, FS (func_name f), FS PROJECT_NAME]))) (\<lambda>buf.
     bind_res (append_tabs how_much_tab buf) (\<lambda>buf.
     bind_res (GetIDLClassName (param_type (req f))) (\<lambda>param_type_name.
     let buf = StrAppendFormat buf (Some ''const %s& %s, '') [FS param_type_name, FS (param_name (req f))] in
     bind_res (GetIDLClassName (param_type (rsp f))) (\<lambda>param_type_name.
     Inr (StrAppendFormat buf (Some ''%s* %s)'') [FS param_type_name, FS (param_name (rsp f))]))))))\<close>

section \<open>The service class\<close>

definition GenerateServiceHpp :: "syntax_tree \<Rightarrow> string res" where
  \<open>GenerateServiceHpp t =
     bind_res (GetServiceClassName (service_name t)) (\<lambda>class_name.
     bind_res (map_res (\<lambda>f.
         bind_res (GetServiceFuncDeclaration t f True False 3 []) (\<lambda>declaration.
         Inr (fprintf ''		virtual %s;\<newline>'' [FS declaration] @
         fprintf ''\<newline>'' [])))
       (func_list t)) (\<lambda>declarations. Inr (
       fprintf ''#ifndef %s\<newline>'' [FS (GetDefineHeader (GetServiceFileName (service_name t)))] @
       fprintf ''#define %s\<newline>'' [FS (GetDefineHeader (GetServiceFileName (service_name t)))] @
       fprintf ''\<newline>'' [] @
       fprintf ''#include <string>\<newline>'' [] @
       fprintf ''#include <functional>\<newline>'' [] @
       fprintf ''\<newline>'' [] @
       fprintf ''#include <google/protobuf/wrappers.pb.h>\<newline>'' [] @
       fprintf ''\<newline>'' [] @
       fprintf ''#include <%s/service.h>\<newline>'' [FS PROJECT_NAME] @
       fprintf ''\<newline>'' [] @
       fprintf ''#include "%s.h"\<newline>'' [FS (GetIDLFileName (proto_file_name t))] @
       fprintf ''#include "%s.h"\<newline>'' [FS (GetMethodNamesFileName (service_name t))] @
       fprintf ''\<newline>'' [] @
       fprintf ''namespace %s {\<newline>'' [FS (package_name t)] @
       fprintf ''\<newline>'' [] @
       fprintf ''	class %s : public ::%s::Service {\<newline>'' [FS class_name, FS PROJECT_NAME] @
       fprintf ''	public:\<newline>'' [] @
       fprintf ''		%s();\<newline>'' [FS class_name] @
       fprintf ''		virtual ~%s();\<newline>'' [FS class_name] @
       fprintf ''\<newline>'' [] @
       concat declarations @
       fprintf ''	};\<newline>'' [] @
       fprintf ''\<newline>'' [] @
       fprintf ''}\<newline>'' [] @
       fprintf ''#endif\<newline>'' [] @
       fprintf ''\<newline>'' [])))\<close>

text \<open>The registration of function \<open>i\<close>, and a blank line unless it is the last one.\<close>

definition add_method_lines :: "syntax_tree \<Rightarrow> string \<Rightarrow> nat \<Rightarrow> syntax_func \<Rightarrow> string res" where
  \<open>add_method_lines t class_name i f =
     bind_res (GetIDLClassName (param_type (req f))) (\<lambda>buf1.
     bind_res (GetIDLClassName (param_type (rsp f))) (\<lambda>buf2. Inr (
       fprintf ''		AddMethod(new ::%s::ServiceMethod(\<newline>'' [FS PROJECT_NAME] @
       fprintf ''			%s[%d],\<newline>'' [FS (GetMethodNamesFileName (service_name t)), FD i] @
       fprintf ''			::%s::Method::NORMAL_METHOD,\<newline>'' [FS PROJECT_NAME] @
       fprintf ''			new ::%s::MethodHandlerImpl<%s, %s, %s>(\<newline>'' [FS PROJECT_NAME, FS class_name, FS buf1, FS buf2] @
       fprintf ''				std::mem_fn(&%s::%s), this)));\<newline>'' [FS class_name, FS (func_name f)] @
       (if i + 1 \<noteq> length (func_list t) then fprintf ''\<newline>'' [] else []))))\<close>

definition GenerateServiceCpp :: "syntax_tree \<Rightarrow> string res" where
  \<open>GenerateServiceCpp t =
     bind_res (GetServiceClassName (service_name t)) (\<lambda>class_name.
     bind_res (map_res (\<lambda>(i, f). add_method_lines t class_name i f) (enumerate 0 (func_list t))) (\<lambda>methods.
     bind_res (map_res (\<lambda>f.
         bind_res (GetServiceFuncDeclaration t f False False 2 []) (\<lambda>declaration.
         Inr (
           fprintf ''	%s {\<newline>'' [FS declaration] @
           fprintf ''		return ::%s::Status(::%s::StatusCode::UNIMPLEMENTED, "method unimplement");\<newline>'' [FS PROJECT_NAME, FS PROJECT_NAME] @
           fprintf ''	}\<newline>'' [] @
           fprintf ''\<newline>'' [])))
       (func_list t)) (\<lambda>functions. Inr (
       fprintf ''#include "%s.h"\<newline>'' [FS (GetServiceFileName (service_name t))] @
       fprintf ''\<newline>'' [] @
       fprintf ''namespace %s {\<newline>'' [FS (package_name t)] @
       fprintf ''\<newline>'' [] @
       fprintf ''	%s::%s() {\<newline>'' [FS class_name, FS class_name] @
       concat methods @
       fprintf ''	}\<newline>'' [] @
       fprintf ''\<newline>'' [] @
       fprintf ''	%s::~%s() {}\<newline>'' [FS class_name, FS class_name] @
       fprintf ''\<newline>'' [] @
       concat functions @
       fprintf ''}\<newline>'' [] @
       fprintf ''\<newline>'' []))))\<close>

section \<open>The implementation class\<close>

text \<open>The first function of the list is \<open>Echo\<close>; \<open>begin()\<close> of an empty list must not be dereferenced.\<close>

definition GenerateServiceImplHpp :: "syntax_tree \<Rightarrow> string res" where
  \<open>GenerateServiceImplHpp t =
     (case func_list t of
        [] \<Rightarrow> Inl OutOfBounds
      | echo # rest \<Rightarrow>
     bind_res (GetServiceImplClassName (service_name t)) (\<lambda>class_name.
     bind_res (GetServiceClassName (service_name t)) (\<lambda>buf.
     bind_res (GetServiceFuncDeclaration t echo True True 2 []) (\<lambda>declaration.
     bind_res (map_res (\<lambda>f.
         bind_res (GetServiceFuncDeclaration t f True True 2 []) (\<lambda>declaration.
         Inr (
           fprintf ''/*\<newline>'' [] @
           fprintf ''	%s override;\<newline>'' [FS declaration] @
           fprintf ''*/\<newline>'' [] @
           fprintf ''\<newline>'' [])))
       rest) (\<lambda>others. Inr (
       fprintf ''#ifndef %s\<newline>'' [FS (GetDefineHeader (GetServiceImplFileName (service_name t)))] @
       fprintf ''#define %s\<newline>'' [FS (GetDefineHeader (GetServiceImplFileName (service_name t)))] @
       fprintf ''\<newline>'' [] @
       fprintf ''#include "%s.h"\<newline>'' [FS (GetServiceFileName (service_name t))] @
       fprintf ''#include "%s.h"\<newline>'' [FS (GetIDLFileName (proto_file_name t))] @
       fprintf ''\<newline>'' [] @
       fprintf ''using namespace %s;\<newline>'' [FS PROJECT_NAME] @
       fprintf ''\<newline>'' [] @
       fprintf ''class %s : public ::%s::%s {\<newline>'' [FS class_name, FS (package_name t), FS buf] @
       fprintf ''public:\<newline>'' [] @
       fprintf ''	%s override;\<newline>'' [FS declaration] @
       fprintf ''\<newline>'' [] @
       (if rest \<noteq> []
        then fprintf ''/*	You can uncomment the functions declaration and implement it in .cpp file	*/\<newline>'' [] @
             fprintf ''\<newline>'' []
        else []) @
       concat others @
       fprintf ''};\<newline>'' [] @
       fprintf ''#endif\<newline>'' [] @
       fprintf ''\<newline>'' []))))))\<close>

definition GenerateServiceImplCpp :: "syntax_tree \<Rightarrow> string res" where
  \<open>GenerateServiceImplCpp t =
     (case func_list t of
        [] \<Rightarrow> Inl OutOfBounds
      | f # rest \<Rightarrow>
     bind_res (GetServiceFuncDeclaration t f False True 1 []) (\<lambda>declaration.
     bind_res (map_res (\<lambda>f.
         bind_res (GetServiceFuncDeclaration t f False True 1 []) (\<lambda>declaration.
         Inr (
           fprintf ''/*\<newline>'' [] @
           fprintf ''%s {}\<newline>'' [FS declaration] @
           fprintf ''*/\<newline>'' [] @
           fprintf ''\<newline>'' [])))
       rest) (\<lambda>others. Inr (
       fprintf ''#include <string>\<newline>'' [] @
       fprintf ''\<newline>'' [] @
       fprintf ''#include "%s.h"\<newline>'' [FS (GetServiceImplFileName (service_name t))] @
       fprintf ''\<newline>'' [] @
       fprintf ''%s {\<newline>'' [FS declaration] @
       fprintf ''	%s->set_value(%s.value());\<newline>'' [FS (param_name (rsp f)), FS (param_name (req f))] @
       fprintf ''	return Status::OK;\<newline>'' [] @
       fprintf ''}\<newline>'' [] @
       fprintf ''\<newline>'' [] @
       (if rest \<noteq> []
        then fprintf ''/*	You can uncomment and implement the functions	*/\<newline>'' [] @
             fprintf ''\<newline>'' []
        else []) @
       concat others))))\<close>

section \<open>Files from templates\<close>

fun replace_each :: "(string \<times> string) list \<Rightarrow> string \<Rightarrow> string res" where
  "replace_each [] contents = Inr contents"
| "replace_each ((from, to) # rest) contents = bind_res (StrReplaceAll contents from to) (replace_each rest)"

definition GenerateServerMainCpp :: "syntax_tree \<Rightarrow> string res" where
  \<open>GenerateServerMainCpp t =
     bind_res (GetServiceImplClassName (service_name t)) (\<lambda>service_impl_class.
     bind_res (replace_each
         [(''$service_impl_file$'', GetServiceImplFileName (service_name t)),
          (''$service_impl_class$'', service_impl_class)]
         (StrTrim EMOSKIT_SERVER_MAIN_TEMPLATE trim_chars)) (\<lambda>contents.
     Inr (fprintf ''%s'' [FS contents] @ fprintf ''\<newline>'' [])))\<close>

section \<open>The method names\<close>

definition GenerateMethodNameHpp :: "syntax_tree \<Rightarrow> string" where
  \<open>GenerateMethodNameHpp t =
       fprintf ''#ifndef %s\<newline>'' [FS (GetDefineHeader (GetMethodNamesFileName (service_name t)))] @
       fprintf ''#define %s\<newline>'' [FS (GetDefineHeader (GetMethodNamesFileName (service_name t)))] @
       fprintf ''\<newline>'' [] @
       fprintf ''namespace %s {\<newline>'' [FS (package_name t)] @
       fprintf ''\<newline>'' [] @
       fprintf ''	static const char* %s[] = {\<newline>'' [FS (GetMethodNamesFileName (service_name t))] @
       concat (map (\<lambda>(i, f).
         fprintf ''		"%s/%s/%s"'' [FS (package_name t), FS (service_name t), FS (func_name f)] @
         (if i + 1 \<noteq> length (func_list t) then fprintf '',\<newline>'' [] else fprintf ''\<newline>'' []))
         (enumerate 0 (func_list t))) @
       fprintf ''	};\<newline>'' [] @
       fprintf ''\<newline>'' [] @
       fprintf ''}\<newline>'' [] @
       fprintf ''#endif\<newline>'' [] @
       fprintf ''\<newline>'' []\<close>

definition GenerateServerConfigFile :: string where
  "GenerateServerConfigFile = fprintf ''%s'' [FS (StrTrim EMOSKIT_SERVER_CONFIG_TEMPLATE trim_chars)] @ fprintf ''\<newline>'' []"

section \<open>The Makefile\<close>

text \<open>\<open>strncpy\<close> leaves a path of 256 bytes or more unterminated, and an empty path has no last character.\<close>

definition strip_slash :: "string \<Rightarrow> string res" where
  "strip_slash home =
     (if length home \<ge> BUFFER_SIZE \<or> home = [] then Inl OutOfBounds
      else Inr (if last home = CHR ''/'' then butlast home else home))"

definition GenerateMakefile :: "syntax_tree \<Rightarrow> string \<Rightarrow> string \<Rightarrow> string res" where
  "GenerateMakefile t protobuf_home emoskit_home =
     bind_res
       (if protobuf_home = ''system''
        then replace_each
          [(''$protobuf_home$'', []), (''$-Lprotobuf_lib$'', []), (''$-Iprtobuf_include$'', []), (''$protobuf_bin$'', [])]
          EMOSKIT_MAKEFILE_TEMPLATE
        else
          bind_res (strip_slash protobuf_home) (\<lambda>pb_home.
          replace_each
            [(''$protobuf_home$'', ''PROTOBUF_HOME='' @ pb_home),
             (''$-Lprotobuf_lib$'', ''-L$(PROTOBUF_HOME)/lib/''),
             (''$-Iprtobuf_include$'', ''-I $(PROTOBUF_HOME)/include/''),
             (''$protobuf_bin$'', ''$(PROTOBUF_HOME)/bin/'')]
            EMOSKIT_MAKEFILE_TEMPLATE)) (\<lambda>contents.
     bind_res (strip_slash emoskit_home) (\<lambda>emoskit_home_temp.
     bind_res (replace_each
         [(''$emoskit_home$'', emoskit_home_temp),
          (''$server_main_file$'', GetServerMainFileName (service_name t)),
          (''$service_file$'', GetServiceFileName (service_name t)),
          (''$service_impl_file$'', GetServiceImplFileName (service_name t)),
          (''$server_exec_file$'', GetServerExceFileName (service_name t)),
          (''$client_main_file$'', GetClientMainFileName (service_name t)),
          (''$client_file$'', GetClientFileName (service_name t)),
          (''$stub_file$'', GetStubFileName (service_name t)),
          (''$client_exec_file$'', GetClientExceFileName (service_name t)),
          (''$pb_file$'', GetIDLFileName (proto_file_name t)),
          (''$proto_file_name$'', proto_file_name t)]
         contents) (\<lambda>contents.
     Inr (fprintf ''%s'' [FS (StrTrim contents trim_chars)] @ fprintf ''\<newline>'' []))))"

end
