(* ===== verification/Cg_Client.thy ===== *)
theory Cg_Client
  imports Cg_Server
begin

text \<open>
  The generator of the client's files, \<open>codegen/client_generator.cpp\<close>: each function returns what it
  writes to its stream.
\<close>

section \<open>Declarations\<close>

definition GetStubFuncDeclaration :: "syntax_tree \<Rightarrow> syntax_func \<Rightarrow> bool \<Rightarrow> int \<Rightarrow> string \<Rightarrow> string res" where
  \<open>GetStubFuncDeclaration t f is_hpp how_much_tab buf =
     bind_res (GetStubClassName (service_name t)) (\<lambda>class_name.
     bind_res
       (if is_hpp
        then Inr (StrAppendFormat buf (Some ''::%s::Status %s(::%s::ClientContext* context,\<newline>'')
                    [FS PROJECT_NAME, FS (func_name f), FS PROJECT_NAME])
        else
          bind_res (append_tabs (how_much_tab - 1) (StrAppendFormat buf (Some ''::%s::Status\<newline>'') [FS PROJECT_NAME])) (\<lambda>buf.
          Inr (StrAppendFormat buf (Some ''%s::%s(::%s::ClientContext* context,\<newline>'')
                 [FS class_name, FS (func_name f), FS PROJECT_NAME]))) (\<lambda>buf.
     bind_res (append_tabs how_much_tab buf) (\<lambda>buf.
     bind_res (GetIDLClassName (param_type (req f))) (\<lambda>param_type_name.
     let buf = StrAppendFormat buf (Some ''const %s& %s, '') [FS param_type_name, FS (param_name (req f))] in
     bind_res (GetIDLClassName (param_type (rsp f))) (\<lambda>param_type_name.
     Inr (StrAppendFormat buf (Some ''%s* %s)'') [FS param_type_name, FS (param_name (rsp f))]))))))\<close>

section \<open>The client class\<close>

definition GenerateClientHpp :: "syntax_tree \<Rightarrow> string res" where
  \<open>GenerateClientHpp t =
     (case func_list t of
        [] \<Rightarrow> Inl OutOfBounds
      | f # _ \<Rightarrow>
     bind_res (GetClientClassName (service_name t)) (\<lambda>class_name.
     bind_res (GetStubClassName (service_name t)) (\<lambda>stub_class_name. Inr (
       fprintf ''#ifndef %s\<newline>'' [FS (GetDefineHeader (GetClientFileName (service_name t)))] @
       fprintf ''#define %s\<newline>'' [FS (GetDefineHeader (GetClientFileName (service_name t)))] @
       fprintf ''\<newline>'' [] @
       fprintf ''#include <memory>\<newline>'' [] @
       fprintf ''\<newline>'' [] @
       fprintf ''#include <%s/client_config.h>\<newline>'' [FS PROJECT_NAME] @
       fprintf ''\<newline>'' [] @
       fprintf ''#include "%s.h"\<newline>'' [FS (GetStubFileName (service_name t))] @
       fprintf ''\<newline>'' [] @
       fprintf ''using %s::common::StreamBase;\<newline>'' [FS PROJECT_NAME] @
       fprintf ''using %s::ClientConfig;\<newline>'' [FS PROJECT_NAME] @
       fprintf ''\<newline>'' [] @
       fprintf ''namespace %s {\<newline>'' [FS (package_name t)] @
       fprintf ''\<newline>'' [] @
       fprintf ''	class %s {\<newline>'' [FS class_name] @
       fprintf ''	public:\<newline>'' [] @
       fprintf ''		%s(const std::shared_ptr<StreamBase>& stream, ClientConfig* client_config)\<newline>'' [FS class_name] @
       fprintf ''			: stub_(new %s(stream)), client_config_(client_config) {}\<newline>'' [FS stub_class_name] @
       fprintf ''		~%s() {}\<newline>'' [FS class_name] @
       fprintf ''\<newline>'' [] @
       fprintf ''		void set_client_config(ClientConfig* client_config) { client_config_ = client_config; }\<newline>'' [] @
       fprintf ''		ClientConfig* client_config() { return client_config_; }\<newline>'' [] @
       fprintf ''\<newline>'' [] @
       fprintf ''		std::string %s(const std::string& msg);\<newline>'' [FS (func_name f)] @
       fprintf ''\<newline>'' [] @
       fprintf ''		// You can declare more methods here and implement them in .cpp file\<newline>'' [] @
       fprintf ''\<newline>'' [] @
       fprintf ''	private:\<newline>'' [] @
       fprintf ''		ClientConfig* client_config_;\<newline>'' [] @
       fprintf ''		std::unique_ptr<%s> stub_;\<newline>'' [FS stub_class_name] @
       fprintf ''	};\<newline>'' [] @
       fprintf ''\<newline>'' [] @
       fprintf ''}\<newline>'' [] @
       fprintf ''#endif\<newline>'' [] @
       fprintf ''\<newline>'' []))))\<close>

definition GenerateClientCpp :: "syntax_tree \<Rightarrow> string res" where
  \<open>GenerateClientCpp t =
     (case func_list t of
        [] \<Rightarrow> Inl OutOfBounds
      | f # _ \<Rightarrow>
     bind_res (GetClientClassName (service_name t)) (\<lambda>class_name.
     bind_res (GetIDLClassName (param_type (req f))) (\<lambda>req_type.
     bind_res (GetIDLClassName (param_type (rsp f))) (\<lambda>rsp_type. Inr (
       fprintf ''#include <%s/client_context.h>\<newline>'' [FS PROJECT_NAME] @
       fprintf ''\<newline>'' [] @
       fprintf ''#include "%s.h"\<newline>'' [FS (GetClientFileName (service_name t))] @
       fprintf ''\<newline>'' [] @
       fprintf ''using %s::ClientContext;\<newline>'' [FS PROJECT_NAME] @
       fprintf ''using %s::Status;\<newline>'' [FS PROJECT_NAME] @
       fprintf ''\<newline>'' [] @
       fprintf ''namespace %s {\<newline>'' [FS (package_name t)] @
       fprintf ''\<newline>'' [] @
       fprintf ''	std::string\<newline>'' [] @
       fprintf ''	%s::%s(const std::string& msg) {\<newline>'' [FS class_name, FS (func_name f)] @
       fprintf ''		%s request;\<newline>'' [FS req_type] @
       fprintf ''		%s response;\<newline>'' [FS rsp_type] @
       fprintf ''\<newline>'' [] @
       fprintf ''		request.set_value(msg);\<newline>'' [] @
       fprintf ''\<newline>'' [] @
       fprintf ''		ClientContext client_context;\<newline>'' [] @
       fprintf ''\<newline>'' [] @
       fprintf ''		Status status = stub_->%s(&client_context, request, &response);\<newline>'' [FS (func_name f)] @
       fprintf ''\<newline>'' [] @
       fprintf ''		if (status.is_ok()) {\<newline>'' [] @
       fprintf ''			return response.value();\<newline>'' [] @
       fprintf ''		}\<newline>'' [] @
       fprintf ''		else {\<newline>'' [] @
       fprintf ''			emoskit_log(ERROR_LOG, "RPC failed, code: %s, message : %s", status.code(), status.message().c_str());\<newline>'' [FS ''%d'', FS ''%s''] @
       fprintf ''			return "RPC failed";\<newline>'' [] @
       fprintf ''		}\<newline>'' [] @
       fprintf ''\<newline>'' [] @
       fprintf ''	}\<newline>'' [] @
       fprintf ''}\<newline>'' [] @
       fprintf ''\<newline>'' [])))))\<close>

section \<open>The stub\<close>

definition GenerateStubHpp :: "syntax_tree \<Rightarrow> string res" where
  \<open>GenerateStubHpp t =
     bind_res (GetStubClassName (service_name t)) (\<lambda>class_name.
     bind_res (map_res (\<lambda>f.
         bind_res (GetStubFuncDeclaration t f True 3 []) (\<lambda>declaration.
         Inr (fprintf ''		%s;\<newline>'' [FS declaration] @
         fprintf ''\<newline>'' [])))
       (func_list t)) (\<lambda>declarations. Inr (
       fprintf ''#ifndef %s\<newline>'' [FS (GetDefineHeader (GetStubFileName (service_name t)))] @
       fprintf ''#define %s\<newline>'' [FS (GetDefineHeader (GetStubFileName (service_name t)))] @
       fprintf ''\<newline>'' [] @
       fprintf ''#include <memory>\<newline>'' [] @
       fprintf ''\<newline>'' [] @
       fprintf ''#include <google/protobuf/wrappers.pb.h>\<newline>'' [] @
       fprintf ''\<newline>'' [] @
       fprintf ''#include <%s/client_context.h>\<newline>'' [FS PROJECT_NAME] @
       fprintf ''#include <%s/status.h>\<newline>'' [FS PROJECT_NAME] @
       fprintf ''#include <%s/stream_base.h>\<newline>'' [FS PROJECT_NAME] @
       fprintf ''#include <%s/method.h>\<newline>'' [FS PROJECT_NAME] @
       fprintf ''\<newline>'' [] @
       fprintf ''#include "%s.h"\<newline>'' [FS (GetIDLFileName (proto_file_name t))] @
       fprintf ''\<newline>'' [] @
       fprintf ''namespace %s {\<newline>'' [FS (package_name t)] @
       fprintf ''\<newline>'' [] @
       fprintf ''	class %s {\<newline>'' [FS class_name] @
       fprintf ''	public:\<newline>'' [] @
       fprintf ''		%s(const std::shared_ptr<::%s::common::StreamBase>& stream);\<newline>'' [FS class_name, FS PROJECT_NAME] @
       fprintf ''		~%s();\<newline>'' [FS class_name] @
       fprintf ''\<newline>'' [] @
       concat declarations @
       fprintf ''	private:\<newline>'' [] @
       fprintf ''		std::shared_ptr<::%s::common::StreamBase> stream_;\<newline>'' [FS PROJECT_NAME] @
       concat (map (\<lambda>f. fprintf ''		const ::%s::Method method_%s_;\<newline>'' [FS PROJECT_NAME, FS (func_name f)]) (func_list t)) @
       fprintf ''	};\<newline>'' [] @
       fprintf ''\<newline>'' [] @
       fprintf ''}\<newline>'' [] @
       fprintf ''#endif\<newline>'' [] @
       fprintf ''\<newline>'' [])))\<close>

text \<open>The initialiser of the method of function \<open>i\<close>.\<close>

definition stub_initializer :: "syntax_tree \<Rightarrow> nat \<Rightarrow> syntax_func \<Rightarrow> string" where
  \<open>stub_initializer t i f =
     fprintf ''		method_%s_(%s[%d], ::%s::Method::MethodType::NORMAL_METHOD)'' [FS (func_name f), FS (GetMethodNamesFileName (service_name t)), FD i, FS PROJECT_NAME] @
     (if i + 1 \<noteq> length (func_list t) then fprintf '',\<newline>'' [] else fprintf ''\<newline>'' [])\<close>

definition GenerateStubCpp :: "syntax_tree \<Rightarrow> string res" where
  \<open>GenerateStubCpp t =
     bind_res (GetStubClassName (service_name t)) (\<lambda>class_name.
     bind_res (map_res (\<lambda>f.
         bind_res (GetStubFuncDeclaration t f False 2 []) (\<lambda>declaration.
         Inr (
           fprintf ''	%s {\<newline>'' [FS declaration] @
           fprintf ''		return %s::ClientBlockingCall(*stream_.get(), method_%s_, request, response, context);\<newline>'' [FS PROJECT_NAME, FS (func_name f)] @
           fprintf ''	}\<newline>'' [] @
           fprintf ''\<newline>'' [])))
       (func_list t)) (\<lambda>functions. Inr (
       fprintf ''#include <%s/client_blocking_call.h>\<newline>'' [FS PROJECT_NAME] @
       fprintf ''\<newline>'' [] @
       fprintf ''#include "%s.h"\<newline>'' [FS (GetStubFileName (service_name t))] @
       fprintf ''#include "%s.h"\<newline>'' [FS (GetMethodNamesFileName (service_name t))] @
       fprintf ''\<newline>'' [] @
       fprintf ''namespace %s {\<newline>'' [FS (package_name t)] @
       fprintf ''\<newline>'' [] @
       fprintf ''	%s::%s(const std::shared_ptr<::%s::common::StreamBase>& stream) : stream_(stream),\<newline>'' [FS class_name, FS class_name, FS PROJECT_NAME] @
       concat (map (\<lambda>(i, f). stub_initializer t i f) (enumerate 0 (func_list t))) @
       fprintf ''	{\<newline>'' [] @
       fprintf ''	}\<newline>'' [] @
       fprintf ''\<newline>'' [] @
       fprintf ''	%s::~%s()\<newline>'' [FS class_name, FS class_name] @
       fprintf ''	{\<newline>'' [] @
       fprintf ''	}\<newline>'' [] @
       fprintf ''\<newline>'' [] @
       concat functions @
       fprintf ''}\<newline>'' [] @
       fprintf ''\<newline>'' [])))\<close>

section \<open>Files from templates\<close>

definition GenerateClientMainCpp :: "syntax_tree \<Rightarrow> string res" where
  \<open>GenerateClientMainCpp t =
     bind_res (GetClientClassName (service_name t)) (\<lambda>client_class.
     bind_res (replace_each
         [(''$client_file$'', GetClientFileName (service_name t)),
          (''$package_name$'', package_name t),
          (''$client_class$'', client_class),
          (''$client_conf_file$'', GetClientConfigFileName (service_name t))]
         (StrTrim EMOSKIT_CLIENT_MAIN_TEMPLATE trim_chars)) (\<lambda>contents.
     Inr (fprintf ''%s'' [FS contents] @ fprintf ''\<newline>'' [])))\<close>

definition GenerateClientConfigFile :: string where
  "GenerateClientConfigFile = fprintf ''%s'' [FS (StrTrim EMOSKIT_CLIENT_CONFIG_TEMPLATE trim_chars)] @ fprintf ''\<newline>'' []"

end
