(* ===== verification/Cg_Main.thy ===== *)
theory Cg_Main
  imports Cg_Client
begin

text \<open>
  The program \<open>emoskit\<close> of \<open>codegen/syntax.cpp\<close>: its options, and the files it writes. The file system is a
  map from names to contents; \<open>realpath\<close>, \<open>access\<close> of the output directory, the protobuf importer and the two
  directories that \<open>configure\<close> fixes are in the environment. The result is how the process ended, unless it
  returned from \<open>main\<close>, and the files and the output it leaves.
\<close>

record cg_state =
  disk :: "string \<Rightarrow> string option"
  can_write :: "string \<Rightarrow> bool"
  printed :: string

record cg_env =
  realpath :: "string \<Rightarrow> string option"
  dir_error :: "string \<Rightarrow> (nat \<times> string) option"
  importer :: "string list \<Rightarrow> string \<Rightarrow> file_descriptor option"
  protobuf_home :: string
  emoskit_home :: string

definition say :: "string \<Rightarrow> cg_state \<Rightarrow> cg_state" where
  "say s st = st\<lparr>printed := printed st @ s\<rparr>"

section \<open>Options\<close>

definition PrintHelp :: "string \<Rightarrow> cg_state \<Rightarrow> cg_state" where
  \<open>PrintHelp program st =
     say (fprintf ''Usage: %s <-f proto file> <-d destination dir>\<newline>'' [FS program] @
       fprintf ''Parse PROTO_FILES and generate output based on the options given:\<newline>'' [] @
       fprintf ''	-f <proto file>             # Proto File\<newline>'' [] @
       fprintf ''	-d <dir>                    # destination output dir\<newline>'' [] @
       fprintf ''	-I <dir>                    # include path dir\<newline>'' [] @
       fprintf ''\<newline>'' []) st\<close>

text \<open>The loop over what \<open>getopt\<close> returns. \<open>realpath\<close> writes into an array of 256 bytes. \<open>Inl None\<close> is the
  help and \<open>exit(0)\<close>.\<close>

fun parse_options ::
  "cg_env \<Rightarrow> (char \<times> string) list \<Rightarrow> string option \<times> string option \<times> string list \<Rightarrow>
   fault option + string option \<times> string option \<times> string list" where
  "parse_options E [] acc = Inr acc"
| "parse_options E ((c, optarg) # opts) (pb_file, output_dir, include_paths) =
     (if c = CHR ''f'' then parse_options E opts (Some optarg, output_dir, include_paths)
      else if c = CHR ''d'' then parse_options E opts (pb_file, Some optarg, include_paths)
      else if c = CHR ''I''
      then
        (case realpath E optarg of
           None \<Rightarrow> parse_options E opts (pb_file, output_dir, include_paths)
         | Some rp \<Rightarrow>
             if length rp \<ge> BUFFER_SIZE then Inl (Some OutOfBounds)
             else parse_options E opts (pb_file, output_dir, include_paths @ [rp]))
      else Inl None)"

text \<open>Everything before the first file: \<open>Inl\<close> is the end of the process, \<open>Inr\<close> the tree and the directory.
  An end without a fault is \<open>return 0\<close>.\<close>

definition cg_setup ::
  "cg_env \<Rightarrow> string \<Rightarrow> (char \<times> string) list \<Rightarrow> cg_state \<Rightarrow>
   (fault option \<times> cg_state) + (syntax_tree \<times> string)" where
  "cg_setup E program opts st =
     (case parse_options E opts (None, None, []) of
        Inl None \<Rightarrow> Inl (Some (ProcessExit 0), PrintHelp program st)
      | Inl (Some e) \<Rightarrow> Inl (Some e, st)
      | Inr (None, _, _) \<Rightarrow>
          Inl (Some (ProcessExit 0), PrintHelp program (say ''Missing proto file...\<newline>'' st))
      | Inr (Some _, None, _) \<Rightarrow>
          Inl (Some (ProcessExit 0), PrintHelp program (say ''Missing output dir...\<newline>'' st))
      | Inr (Some pb_file, Some output_dir, include_paths) \<Rightarrow>
          (case dir_error E output_dir of
             Some (nr, msg) \<Rightarrow>
               Inl (Some (ProcessExit 0),
                 say (fprintf ''Invalid dir: %s, error: %d, %s\<newline>\<newline>'' [FS output_dir, FD nr, FS msg]) st)
           | None \<Rightarrow>
               (case strip_slash output_dir of
                  Inl e \<Rightarrow> Inl (Some e, st)
                | Inr out_path \<Rightarrow>
                    (case Parse (importer E) pb_file
                            (include_paths @ (if protobuf_home E = ''system'' then [''/usr'', ''/usr/local'']
                                              else [protobuf_home E @ ''/include'']))
                            SyntaxTree of
                       (ret, t) \<Rightarrow> if ret \<noteq> 0 then Inl (None, st) else Inr (t, out_path)))))"

section \<open>Files\<close>

text \<open>A file that is to be kept is left alone when it is there. \<open>fopen\<close> empties the others before anything
  is written.\<close>

definition write_file :: "string \<Rightarrow> bool \<times> string \<times> string res \<Rightarrow> cg_state \<Rightarrow> fault option \<times> cg_state" where
  "write_file project file st =
     (case file of (keep, filename, content) \<Rightarrow>
        if keep \<and> disk st filename \<noteq> None
        then (None, say (fprintf ''%s: %s is already exist... skip\<newline>'' [FS project, FS filename]) st)
        else if \<not> can_write st filename then (Some AssertFail, st)
        else
          (case content of
             Inl e \<Rightarrow> (Some e, st\<lparr>disk := (disk st)(filename \<mapsto> [])\<rparr>)
           | Inr s \<Rightarrow>
               (None, say (fprintf ''%s: Generate %s file ... done\<newline>'' [FS project, FS filename])
                        (st\<lparr>disk := (disk st)(filename \<mapsto> s)\<rparr>))))"

fun write_files :: "string \<Rightarrow> (bool \<times> string \<times> string res) list \<Rightarrow> cg_state \<Rightarrow> fault option \<times> cg_state" where
  "write_files project [] st = (None, st)"
| "write_files project (f # fs) st =
     (case write_file project f st of
        (Some e, st) \<Rightarrow> (Some e, st)
      | (None, st) \<Rightarrow> write_files project fs st)"

text \<open>The files in the order of \<open>main\<close>, those that are kept when they exist with \<open>True\<close>.\<close>

definition out_file :: "string \<Rightarrow> string \<Rightarrow> string \<Rightarrow> string" where
  "out_file fmt out_path tmp = snprintf BUFFER_SIZE fmt [FS out_path, FS tmp]"

definition server_files :: "syntax_tree \<Rightarrow> string \<Rightarrow> (bool \<times> string \<times> string res) list" where
  "server_files t out =
     (let n = service_name t in
      [(True, out_file ''%s/%s.cpp'' out (GetServerMainFileName n), GenerateServerMainCpp t),
       (False, out_file ''%s/%s.h'' out (GetServiceFileName n), GenerateServiceHpp t),
       (False, out_file ''%s/%s.cpp'' out (GetServiceFileName n), GenerateServiceCpp t),
       (True, out_file ''%s/%s.h'' out (GetServiceImplFileName n), GenerateServiceImplHpp t),
       (True, out_file ''%s/%s.cpp'' out (GetServiceImplFileName n), GenerateServiceImplCpp t),
       (True, out_file ''%s/%s.conf'' out (GetServerConfigFileName n), Inr GenerateServerConfigFile),
       (False, out_file ''%s/%s.h'' out (GetMethodNamesFileName n), Inr (GenerateMethodNameHpp t))])"

definition client_files :: "syntax_tree \<Rightarrow> string \<Rightarrow> (bool \<times> string \<times> string res) list" where
  "client_files t out =
     (let n = service_name t in
      [(True, out_file ''%s/%s.cpp'' out (GetClientMainFileName n), GenerateClientMainCpp t),
       (True, out_file ''%s/%s.h'' out (GetClientFileName n), GenerateClientHpp t),
       (True, out_file ''%s/%s.cpp'' out (GetClientFileName n), GenerateClientCpp t),
       (True, out_file ''%s/%s.conf'' out (GetClientConfigFileName n), Inr GenerateClientConfigFile),
       (False, out_file ''%s/%s.h'' out (GetStubFileName n), GenerateStubHpp t),
       (False, out_file ''%s/%s.cpp'' out (GetStubFileName n), GenerateStubCpp t)])"

definition files_of :: "cg_env \<Rightarrow> syntax_tree \<Rightarrow> string \<Rightarrow> (bool \<times> string \<times> string res) list" where
  "files_of E t out =
     server_files t out @ client_files t out @
      [(True, snprintf BUFFER_SIZE ''%s/Makefile'' [FS out],
          GenerateMakefile t (protobuf_home E) (emoskit_home E))]"

lemmas files_of_defs = files_of_def server_files_def client_files_def Let_def append_Cons append_Nil

definition cg_main ::
  "cg_env \<Rightarrow> string \<Rightarrow> (char \<times> string) list \<Rightarrow> cg_state \<Rightarrow> fault option \<times> cg_state" where
  "cg_main E program opts st =
     (case cg_setup E program opts st of
        Inl r \<Rightarrow> r
      | Inr (t, out_path) \<Rightarrow> write_files program (files_of E t out_path) st)"

section \<open>What is on the disk afterwards\<close>

text \<open>The files that are written on every run.\<close>

definition overwritten :: "(bool \<times> string \<times> string res) list \<Rightarrow> string set" where
  "overwritten fs = {p. \<exists>c. (False, p, c) \<in> set fs}"

lemma disk_say [simp]: "disk (say s st) = disk st"
  by (simp add: say_def)

lemma write_file_keeps:
  "disk st p = Some c \<Longrightarrow> (case f of (keep, q, _) \<Rightarrow> keep \<or> q \<noteq> p) \<Longrightarrow>
   disk (snd (write_file project f st)) p = Some c"
  by (auto simp: write_file_def split: prod.splits sum.splits)

lemma write_files_keeps:
  "disk st p = Some c \<Longrightarrow> p \<notin> overwritten fs \<Longrightarrow> disk (snd (write_files project fs st)) p = Some c"
proof (induction fs arbitrary: st)
  case (Cons f fs)
  obtain keep q d where f: "f = (keep, q, d)" by (cases f)
  have "disk (snd (write_file project f st)) p = Some c"
    using Cons.prems f by (intro write_file_keeps) (auto simp: overwritten_def)
  moreover have "p \<notin> overwritten fs" using Cons.prems(2) by (auto simp: overwritten_def)
  ultimately show ?case using Cons.IH by (auto split: prod.splits option.splits)
qed simp

text \<open>The contents of a file after a run without faults: of the last step that overwrites it, or what was
  there, or of the first step that makes it.\<close>

fun last_write :: "(bool \<times> string \<times> string res) list \<Rightarrow> string \<Rightarrow> string option" where
  "last_write [] p = None"
| "last_write ((keep, q, c) # fs) p =
     (case last_write fs p of
        Some d \<Rightarrow> Some d
      | None \<Rightarrow> if \<not> keep \<and> q = p then (case c of Inr s \<Rightarrow> Some s | Inl _ \<Rightarrow> None) else None)"

fun first_made :: "(bool \<times> string \<times> string res) list \<Rightarrow> string \<Rightarrow> string option" where
  "first_made [] p = None"
| "first_made ((keep, q, c) # fs) p =
     (if keep \<and> q = p then (case c of Inr s \<Rightarrow> Some s | Inl _ \<Rightarrow> None) else first_made fs p)"

definition written_to :: "(bool \<times> string \<times> string res) list \<Rightarrow> cg_state \<Rightarrow> string \<Rightarrow> string option" where
  "written_to fs st p =
     (case last_write fs p of
        Some d \<Rightarrow> Some d
      | None \<Rightarrow> (case disk st p of Some d \<Rightarrow> Some d | None \<Rightarrow> first_made fs p))"

lemma write_files_disk:
  "fst (write_files project fs st) = None \<Longrightarrow> disk (snd (write_files project fs st)) = written_to fs st"
proof (induction fs arbitrary: st)
  case (Cons f fs)
  obtain keep q c where f: "f = (keep, q, c)" by (cases f)
  obtain st1 where st1: "write_file project f st = (None, st1)" "fst (write_files project fs st1) = None"
    using Cons.prems by (auto split: prod.splits option.splits)
  have "written_to fs st1 p = written_to (f # fs) st p" for p
    using st1(1) unfolding f written_to_def
    by (auto simp: write_file_def split: option.splits sum.splits if_splits)
  then show ?case using Cons.IH [OF st1(2)] st1(1) by (simp add: fun_eq_iff)
qed (simp add: written_to_def fun_eq_iff split: option.splits)

text \<open>A run without faults goes through again.\<close>

definition will_pass :: "(bool \<times> string \<times> string res) list \<Rightarrow> cg_state \<Rightarrow> bool" where
  "will_pass fs st \<longleftrightarrow>
     (\<forall>(keep, q, c) \<in> set fs. (keep \<and> disk st q \<noteq> None) \<or> (can_write st q \<and> (\<exists>s. c = Inr s)))"

lemma write_file_mono:
  "write_file project f st = (r, st1) \<Longrightarrow> can_write st1 = can_write st \<and> (disk st p \<noteq> None \<longrightarrow> disk st1 p \<noteq> None)"
  by (auto simp: write_file_def say_def split: prod.splits sum.splits if_splits)

lemma will_pass_mono:
  "write_file project f st = (r, st1) \<Longrightarrow> will_pass fs st \<Longrightarrow> will_pass fs st1"
  unfolding will_pass_def using write_file_mono [of project f st r st1] by fastforce

lemma write_files_pass: "will_pass fs st \<Longrightarrow> fst (write_files project fs st) = None"
proof (induction fs arbitrary: st)
  case (Cons f fs)
  obtain keep q c where f: "f = (keep, q, c)" by (cases f)
  then have "(keep \<and> disk st q \<noteq> None) \<or> (can_write st q \<and> (\<exists>s. c = Inr s))"
    using Cons.prems by (auto simp: will_pass_def)
  then have "\<exists>st1. write_file project f st = (None, st1)" using f by (auto simp: write_file_def)
  then obtain st1 where w: "write_file project f st = (None, st1)" by blast
  have "will_pass fs st" using Cons.prems by (auto simp: will_pass_def)
  from Cons.IH [OF will_pass_mono [OF w this]] show ?case using w by simp
qed simp

lemma write_files_can: "can_write (snd (write_files project fs st)) = can_write st"
proof (induction fs arbitrary: st)
  case (Cons f fs)
  then show ?case using write_file_mono [of project f st] by (auto split: prod.splits option.splits)
qed simp

lemma written_passes:
  assumes "fst (write_files project fs st) = None"
  shows "will_pass fs (snd (write_files project fs st))"
  using assms
proof (induction fs arbitrary: st)
  case (Cons f fs)
  obtain keep q c where f: "f = (keep, q, c)" by (cases f)
  obtain st1 where w: "write_file project f st = (None, st1)" "fst (write_files project fs st1) = None"
    using Cons.prems by (auto split: prod.splits option.splits)
  let ?fin = "snd (write_files project fs st1)"
  have d: "disk ?fin q \<noteq> None" if "disk st1 q \<noteq> None"
    using that unfolding write_files_disk [OF w(2)] by (auto simp: written_to_def split: option.splits)
  have "(keep \<and> disk ?fin q \<noteq> None) \<or> (can_write ?fin q \<and> (\<exists>s. c = Inr s))"
    using w(1) d write_file_mono [OF w(1), of q] unfolding f write_files_can
    by (auto simp: write_file_def split: if_splits sum.splits)
  then show ?case using Cons.IH [OF w(2)] w(1) f by (simp add: will_pass_def)
qed (simp add: will_pass_def)

end
