(* ===== verification/Cg_Props.thy ===== *)
theory Cg_Props
  imports Cg_Main Server_Config Client_Config Service
begin

text \<open>
  Running the generator twice, and the names in what it generates: nothing that a user may have edited
  changes, the string literals of the generated header are the names of the methods, and the generated
  service and stub refer to them by the same index.
\<close>

section \<open>Running the generator again\<close>

lemma disk_PrintHelp [simp]: "disk (PrintHelp program st) = disk st"
  by (simp add: PrintHelp_def)

lemma cg_setup_disk: "cg_setup E program opts st = Inl (e, st1) \<Longrightarrow> disk st1 = disk st"
  by (auto simp: cg_setup_def split: sum.splits option.splits prod.splits if_splits)

lemma cg_setup_ends:
  "cg_setup E program opts st = Inl (e, st0) \<Longrightarrow> \<exists>st2. cg_setup E program opts st1 = Inl (e, st2) \<and> disk st2 = disk st1"
  by (auto simp: cg_setup_def split: sum.splits option.splits prod.splits if_splits)

text \<open>What the setup finds does not depend on the files that are there.\<close>

lemma cg_setup_again:
  "cg_setup E program opts st = Inr (t, out) \<Longrightarrow> cg_setup E program opts st1 = Inr (t, out)"
  by (auto simp: cg_setup_def split: sum.splits option.splits prod.splits if_splits)

lemma written_to_again:
  assumes "disk st1 = written_to fs st"
  shows "written_to fs st1 = disk st1"
proof
  fix p
  show "written_to fs st1 p = disk st1 p"
    using assms by (auto simp: written_to_def split: option.splits)
qed

text \<open>C17. The generator never changes a file that is the user's: a file that exists and is not one of the
  five generated anew on each run (\<open>_service.h\<close>, \<open>_service.cpp\<close>, \<open>_method_names.h\<close>, \<open>_stub.h\<close>, \<open>_stub.cpp\<close>)
  keeps its contents, whatever the options are and however the run ends. And after a run that came to
  its end a second one does so too, and leaves every file as it was.\<close>

theorem generator_keeps_files:
  "(\<forall>p c. disk st p = Some c \<and>
      (\<forall>t out. cg_setup E program opts st = Inr (t, out) \<longrightarrow> p \<notin> overwritten (files_of E t out)) \<longrightarrow>
      disk (snd (cg_main E program opts st)) p = Some c) \<and>
   (fst (cg_main E program opts st) = None \<longrightarrow>
      (let st1 = snd (cg_main E program opts st) in
       fst (cg_main E program opts st1) = None \<and> disk (snd (cg_main E program opts st1)) = disk st1))"
proof (cases "cg_setup E program opts st")
  case (Inl r)
  obtain e st0 where r: "r = (e, st0)" by (cases r)
  have s: "disk st0 = disk st" using cg_setup_disk Inl r by simp
  obtain st2 where "cg_setup E program opts st0 = Inl (e, st2)" "disk st2 = disk st0"
    using cg_setup_ends [of E program opts st e st0 st0] Inl r by blast
  then show ?thesis using Inl r s by (simp add: cg_main_def)
next
  case (Inr q)
  obtain t out where q: "q = (t, out)" by (cases q)
  let ?w = "write_files program (files_of E t out)"
  have m: "cg_main E program opts st1 = ?w st1" for st1
    using cg_setup_again [of E program opts st t out st1] Inr q by (simp add: cg_main_def)
  have "disk (snd (?w st)) p = Some c" if "disk st p = Some c" "p \<notin> overwritten (files_of E t out)" for p c
    by (rule write_files_keeps [OF that])
  moreover have "fst (?w (snd (?w st))) = None \<and> disk (snd (?w (snd (?w st)))) = disk (snd (?w st))"
    if w: "fst (?w st) = None"
  proof -
    have p: "fst (?w (snd (?w st))) = None" by (rule write_files_pass [OF written_passes [OF w]])
    then show ?thesis using write_files_disk [OF p] written_to_again [OF write_files_disk [OF w]] by simp
  qed
  ultimately show ?thesis using Inr q by (auto simp: m Let_def)
qed

definition gen_env :: cg_env where
  "gen_env = \<lparr>realpath = (\<lambda>s. Some s), dir_error = (\<lambda>_. None),
     importer = (\<lambda>_ _. Some \<lparr>fd_package = ''demo'', fd_services = [\<lparr>sd_name = ''Calc'',
       sd_methods = [\<lparr>md_name = ''Add'', input_type = ''demo.Pair'', output_type = ''demo.Sum''\<rparr>]\<rparr>]\<rparr>),
     protobuf_home = ''system'', emoskit_home = ''/opt/emoskit''\<rparr>"

definition gen_options :: "(char \<times> string) list" where
  "gen_options = [(CHR ''f'', ''calc.proto''), (CHR ''d'', ''out/'')]"

definition gen_tree :: syntax_tree where
  "gen_tree = snd (Parse (importer gen_env) ''calc.proto'' [] SyntaxTree)"

definition gen_state :: cg_state where
  "gen_state = \<lparr>disk = [''out/calc_service_impl.cpp'' \<mapsto> ''mine'', ''out/calc_stub.h'' \<mapsto> ''old'', ''out/Makefile'' \<mapsto> ''all:'',
       ''out/calc_server_main.cpp'' \<mapsto> ''int main() {}'', ''out/calc_client_main.cpp'' \<mapsto> ''int main() {}''],
     can_write = (\<lambda>_. True), printed = []\<rparr>"

definition made :: "'a res \<Rightarrow> bool" where "made r = (case r of Inl _ \<Rightarrow> False | Inr _ \<Rightarrow> True)"

lemma made_iff: "made r \<longleftrightarrow> (\<exists>s. r = Inr s)"
  by (auto simp: made_def split: sum.splits)

lemma gen_made:
  "made (GenerateServiceHpp gen_tree)" "made (GenerateServiceCpp gen_tree)" "made (GenerateServiceImplHpp gen_tree)"
  "made (GenerateServiceImplCpp gen_tree)" "made (GenerateClientHpp gen_tree)" "made (GenerateClientCpp gen_tree)"
  "made (GenerateStubHpp gen_tree)" "made (GenerateStubCpp gen_tree)"
  by code_simp+

lemma gen_files:
  "out_file ''%s/%s.cpp'' ''out'' (GetServerMainFileName (service_name gen_tree)) = ''out/calc_server_main.cpp''"
  "out_file ''%s/%s.cpp'' ''out'' (GetClientMainFileName (service_name gen_tree)) = ''out/calc_client_main.cpp''"
  "out_file ''%s/%s.h'' ''out'' (GetServiceFileName (service_name gen_tree)) = ''out/calc_service.h''"
  "out_file ''%s/%s.cpp'' ''out'' (GetServiceFileName (service_name gen_tree)) = ''out/calc_service.cpp''"
  "out_file ''%s/%s.h'' ''out'' (GetMethodNamesFileName (service_name gen_tree)) = ''out/calc_method_names.h''"
  "out_file ''%s/%s.h'' ''out'' (GetStubFileName (service_name gen_tree)) = ''out/calc_stub.h''"
  "out_file ''%s/%s.cpp'' ''out'' (GetStubFileName (service_name gen_tree)) = ''out/calc_stub.cpp''"
  "snprintf BUFFER_SIZE ''%s/Makefile'' [FS ''out''] = ''out/Makefile''"
  by code_simp+

lemma gen_setup: "cg_setup gen_env ''emoskit'' gen_options gen_state = Inr (gen_tree, ''out'')"
proof -
  have "parse_options gen_env gen_options (None, None, []) = Inr (Some ''calc.proto'', Some ''out/'', [])"
    "strip_slash ''out/'' = Inr ''out''" by code_simp+
  moreover have "Parse (importer gen_env) ''calc.proto'' (''/usr'' # ''/usr/local'' # []) SyntaxTree = (0, gen_tree)"
    by code_simp
  ultimately show ?thesis by (simp add: cg_setup_def, simp add: gen_env_def)
qed

lemma gen_passes: "will_pass (files_of gen_env gen_tree ''out'') gen_state"
  using gen_made unfolding will_pass_def files_of_defs gen_files made_iff
  by (simp only: list.set ball_simps prod.case) (simp add: gen_state_def)

theorem generator_keeps_files_witness:
  "disk (snd (cg_main gen_env ''emoskit'' gen_options gen_state)) ''out/calc_service_impl.cpp'' = Some ''mine'' \<and>
   fst (cg_main gen_env ''emoskit'' gen_options gen_state) = None \<and>
   (let st1 = snd (cg_main gen_env ''emoskit'' gen_options gen_state) in
      disk (snd (cg_main gen_env ''emoskit'' gen_options st1)) = disk st1)"
proof -
  have "disk gen_state ''out/calc_service_impl.cpp'' = Some ''mine''" by (simp add: gen_state_def)
  moreover have "''out/calc_service_impl.cpp'' \<notin> overwritten (files_of gen_env gen_tree ''out'')"
    unfolding overwritten_def files_of_defs gen_files by simp
  moreover have "fst (cg_main gen_env ''emoskit'' gen_options gen_state) = None"
    using write_files_pass [OF gen_passes] by (simp add: cg_main_def gen_setup)
  ultimately show ?thesis
    using generator_keeps_files [of gen_state gen_env "''emoskit''" gen_options] by (simp add: gen_setup Let_def)
qed

section \<open>The method names\<close>

abbreviation QUOTE :: char where "QUOTE \<equiv> CHR 0x22"

text \<open>The string literals of a C text without escapes.\<close>

function literals :: "string \<Rightarrow> string list" where
  "literals s =
     (case dropWhile (\<lambda>c. c \<noteq> QUOTE) s of
        [] \<Rightarrow> []
      | q # r \<Rightarrow> takeWhile (\<lambda>c. c \<noteq> QUOTE) r # literals (drop 1 (dropWhile (\<lambda>c. c \<noteq> QUOTE) r)))"
  by pat_completeness auto
termination
proof (relation "measure length")
  fix s r :: string and q assume d: "dropWhile (\<lambda>c. c \<noteq> QUOTE) s = q # r"
  have "length (drop 1 (dropWhile (\<lambda>c. c \<noteq> QUOTE) r)) \<le> length r"
    using length_dropWhile_le [of "\<lambda>c. c \<noteq> QUOTE" r] by simp
  moreover have "length (dropWhile (\<lambda>c. c \<noteq> QUOTE) s) \<le> length s" by (rule length_dropWhile_le)
  ultimately show "(drop 1 (dropWhile (\<lambda>c. c \<noteq> QUOTE) r), s) \<in> measure length" using d by simp
qed simp

declare literals.simps [simp del]

lemma literals_none: "QUOTE \<notin> set a \<Longrightarrow> literals a = []"
proof -
  assume "QUOTE \<notin> set a"
  then have "dropWhile (\<lambda>c. c \<noteq> QUOTE) a = []" by auto
  then show ?thesis by (subst literals.simps) (simp only: list.case)
qed

lemma drop_quote: "QUOTE \<notin> set a \<Longrightarrow> dropWhile (\<lambda>c. c \<noteq> QUOTE) (a @ QUOTE # r) = QUOTE # r"
  by (induction a) auto

lemma take_quote: "QUOTE \<notin> set a \<Longrightarrow> takeWhile (\<lambda>c. c \<noteq> QUOTE) (a @ QUOTE # r) = a"
  by (induction a) auto

lemma literals_one:
  "QUOTE \<notin> set a \<Longrightarrow> QUOTE \<notin> set b \<Longrightarrow> literals (a @ QUOTE # b @ QUOTE # r) = b # literals r"
  by (subst literals.simps) (simp add: drop_quote take_quote)

lemma literals_skip:
  assumes "QUOTE \<notin> set a"
  shows "literals (a @ r) = literals r"
proof -
  have "dropWhile (\<lambda>c. c \<noteq> QUOTE) (a @ r) = dropWhile (\<lambda>c. c \<noteq> QUOTE) r"
    using assms by (induction a) auto
  then show ?thesis by (subst (1 2) literals.simps) simp
qed

text \<open>Formatting adds no quotation marks of its own.\<close>

lemma vformat_set: "set (vformat fmt as) \<subseteq> set fmt \<union> \<Union> (set ` show_arg ` set as)"
  by (induction fmt "as" rule: vformat.induct) (auto 0 3 dest: subsetD split: list.splits if_splits)

lemma vformat_quote:
  "QUOTE \<notin> set fmt \<Longrightarrow> (\<forall>a \<in> set as. QUOTE \<notin> set (show_arg a)) \<Longrightarrow> QUOTE \<notin> set (vformat fmt as)"
  using vformat_set [of fmt "as"] by auto

lemma case_quote: "toupper c = QUOTE \<longleftrightarrow> c = QUOTE" "tolower c = QUOTE \<longleftrightarrow> c = QUOTE"
proof -
  have "of_char (toupper c) = (34 :: nat) \<longleftrightarrow> of_char c = (34 :: nat)" "of_char (tolower c) = (34 :: nat) \<longleftrightarrow> of_char c = (34 :: nat)"
    by (auto simp: toupper_def tolower_def Let_def)
  moreover have "d = QUOTE \<longleftrightarrow> of_char d = (34 :: nat)" for d
  proof -
    have "of_char QUOTE = (34 :: nat)" by simp
    then show ?thesis by (metis char_of_char)
  qed
  ultimately show "toupper c = QUOTE \<longleftrightarrow> c = QUOTE" "tolower c = QUOTE \<longleftrightarrow> c = QUOTE" by blast+
qed

definition plain :: "string \<Rightarrow> bool" where "plain s \<longleftrightarrow> QUOTE \<notin> set s"

definition plain_names :: "syntax_tree \<Rightarrow> bool" where
  "plain_names t \<longleftrightarrow> plain (package_name t) \<and> plain (service_name t) \<and> (\<forall>f \<in> set (func_list t). plain (func_name f))"

text \<open>The name under which a method is called.\<close>

definition wire_name :: "syntax_tree \<Rightarrow> syntax_func \<Rightarrow> string" where
  "wire_name t f = package_name t @ ''/'' @ service_name t @ ''/'' @ func_name f"

lemma plain_case: "plain s \<Longrightarrow> plain (ToLower s)" "plain s \<Longrightarrow> plain (ToUpper s)"
  by (auto simp: plain_def ToLower_def ToUpper_def case_quote image_iff) (metis case_quote)+

lemma plain_snprintf: "plain fmt \<Longrightarrow> (\<forall>a \<in> set as. plain (show_arg a)) \<Longrightarrow> plain (snprintf n fmt as)"
  using vformat_quote [of fmt "as"] by (auto simp: plain_def snprintf_def dest!: in_set_takeD)

lemma plain_names_file: "plain name \<Longrightarrow> plain (GetMethodNamesFileName name)" "plain name \<Longrightarrow> plain (GetDefineHeader name)"
  unfolding GetMethodNamesFileName_def GetDefineHeader_def
  by (intro plain_case plain_snprintf; simp add: plain_def)+

lemma name_line:
  \<open>fprintf ''		"%s/%s/%s"'' [FS a, FS b, FS c] = [CHR 0x09, CHR 0x09] @ QUOTE # (a @ ''/'' @ b @ ''/'' @ c) @ QUOTE # []\<close>
  by simp

lemma literals_lines:
  assumes "plain a" "plain b" "\<forall>f \<in> set fs. plain (func_name f)" "\<forall>i. plain (sep i)"
  shows \<open>literals (concat (map (\<lambda>(i, f). fprintf ''		"%s/%s/%s"'' [FS a, FS b, FS (func_name f)] @ sep i) (enumerate k fs)) @ r) =
    map (\<lambda>f. a @ ''/'' @ b @ ''/'' @ func_name f) fs @ literals r\<close>
  using assms(3)
proof (induction fs arbitrary: k)
  case (Cons f fs)
  have n: "QUOTE \<notin> set (a @ ''/'' @ b @ ''/'' @ func_name f)" using assms(1,2) Cons.prems by (auto simp: plain_def)
  have t: "QUOTE \<notin> set [CHR 0x09, CHR 0x09]" by simp
  have s: "QUOTE \<notin> set (sep k)" using assms(4) by (simp add: plain_def)
  show ?case
    unfolding enumerate_simps list.map concat.simps prod.case name_line append_assoc append_Cons append_Nil
      literals_one [OF t n, simplified append_assoc append_Cons append_Nil] literals_skip [OF s]
    using Cons by simp
qed simp

text \<open>The string literals of the generated header are the names of the functions, in order.\<close>

lemma method_names_header:
  assumes "plain_names t"
  shows "literals (GenerateMethodNameHpp t) = map (wire_name t) (func_list t)"
proof -
  let ?file = "GetMethodNamesFileName (service_name t)"
  define sep where "sep = (\<lambda>i. if i + 1 \<noteq> length (func_list t) then fprintf '',\<newline>'' [] else fprintf ''\<newline>'' [])"
  define tail where "tail = fprintf ''	};\<newline>'' [] @ fprintf ''\<newline>'' [] @ fprintf ''}\<newline>'' [] @
    fprintf ''#endif\<newline>'' [] @ fprintf ''\<newline>'' []"
  have p: "plain (package_name t)" "plain (service_name t)" "\<forall>f \<in> set (func_list t). plain (func_name f)"
    using assms by (simp_all add: plain_names_def)
  have f: "plain ?file" "plain (GetDefineHeader ?file)" using p(2) by (simp_all add: plain_names_file)
  have q: "QUOTE \<notin> set (package_name t)" "QUOTE \<notin> set ?file" "QUOTE \<notin> set (GetDefineHeader ?file)"
    using p f by (simp_all add: plain_def)
  have l: "QUOTE \<notin> set (fprintf ''#ifndef %s\<newline>'' [FS (GetDefineHeader ?file)])" "QUOTE \<notin> set (fprintf ''#define %s\<newline>'' [FS (GetDefineHeader ?file)])"
    "QUOTE \<notin> set (fprintf ''\<newline>'' [])" "QUOTE \<notin> set (fprintf ''namespace %s {\<newline>'' [FS (package_name t)])"
    "QUOTE \<notin> set (fprintf ''	static const char* %s[] = {\<newline>'' [FS ?file])"
    by (rule vformat_quote; use q in simp)+
  have "plain (sep i)" for i by (simp add: sep_def plain_def)
  moreover have "literals tail = []" 
    unfolding tail_def by (intro literals_none) (simp only: set_append Un_iff de_Morgan_disj, intro conjI vformat_quote; simp)
  ultimately have \<open>literals (concat (map (\<lambda>(i, f). fprintf ''		"%s/%s/%s"'' [FS (package_name t), FS (service_name t), FS (func_name f)] @ sep i)
      (enumerate 0 (func_list t))) @ tail) = map (wire_name t) (func_list t)\<close>
    using literals_lines [OF p, of sep 0 tail] by (simp add: wire_name_def [abs_def])
  then show ?thesis
    unfolding GenerateMethodNameHpp_def sep_def tail_def
    by (simp only: literals_skip [OF l(1)] literals_skip [OF l(2)] literals_skip [OF l(3)] literals_skip [OF l(4)] literals_skip [OF l(5)])
qed

section \<open>Client and server agree on the names\<close>

lemma map_res_nth:
  assumes "map_res f xs = Inr ys" "i < length xs"
  shows "length ys = length xs \<and> f (xs ! i) = Inr (ys ! i)"
  using assms
proof (induction xs arbitrary: ys i)
  case (Cons x xs)
  obtain y zs where "f x = Inr y" "map_res f xs = Inr zs" "ys = y # zs"
    using Cons.prems(1) by (auto simp: bind_res_Inr_conv)
  moreover have "length zs = length xs"
    using Cons.IH [of zs 0] \<open>map_res f xs = Inr zs\<close> by (cases xs) auto
  ultimately show ?case using Cons.IH [of zs "i - 1"] Cons.prems(2) by (cases i) auto
qed simp

lemma sublist_concat_nth: "i < length xs \<Longrightarrow> sublist (xs ! i) (concat xs)"
proof -
  assume "i < length xs"
  then have "concat xs = concat (take i xs) @ xs ! i @ concat (drop (Suc i) xs)"
    by (metis concat.simps(2) concat_append id_take_nth_drop)
  then show ?thesis by (metis sublist_appendI)
qed

lemma sublist_right: "sublist x b \<Longrightarrow> sublist x (a @ b)"
  and sublist_left: "sublist x a \<Longrightarrow> sublist x (a @ b)"
  by (auto simp: sublist_def) (metis append.assoc)+

lemma sublist_trans: "sublist a b \<Longrightarrow> sublist b c \<Longrightarrow> sublist a c"
  by (auto simp: sublist_def) (metis append.assoc)

text \<open>What the service registers for function \<open>i\<close>, and how the stub initialises the method that it calls for it.\<close>

definition registration :: "syntax_tree \<Rightarrow> string \<Rightarrow> nat \<Rightarrow> string \<Rightarrow> string \<Rightarrow> string" where
  "registration t cls i req_type rsp_type =
     fprintf ''		AddMethod(new ::%s::ServiceMethod(\<newline>'' [FS PROJECT_NAME] @
     fprintf ''			%s[%d],\<newline>'' [FS (GetMethodNamesFileName (service_name t)), FD i] @
     fprintf ''			::%s::Method::NORMAL_METHOD,\<newline>'' [FS PROJECT_NAME] @
     fprintf ''			new ::%s::MethodHandlerImpl<%s, %s, %s>(\<newline>'' [FS PROJECT_NAME, FS cls, FS req_type, FS rsp_type] @
     fprintf ''				std::mem_fn(&%s::%s), this)));\<newline>'' [FS cls, FS (func_name (func_list t ! i))]"

definition initialiser :: "syntax_tree \<Rightarrow> nat \<Rightarrow> string" where
  "initialiser t i =
     fprintf ''		method_%s_(%s[%d], ::%s::Method::MethodType::NORMAL_METHOD)''
       [FS (func_name (func_list t ! i)), FS (GetMethodNamesFileName (service_name t)), FD i, FS PROJECT_NAME]"

lemma add_method_lines_registration:
  assumes "add_method_lines t cls i (func_list t ! i) = Inr m"
  obtains rt st z where "GetIDLClassName (param_type (req (func_list t ! i))) = Inr rt"
    "GetIDLClassName (param_type (rsp (func_list t ! i))) = Inr st" "m = registration t cls i rt st @ z"
  using assms unfolding add_method_lines_def registration_def bind_res_Inr_conv append_assoc by blast

lemma service_registers:
  assumes "GenerateServiceCpp t = Inr svc" "i < length (func_list t)"
  obtains cls rt st where "GetServiceClassName (service_name t) = Inr cls"
    "GetIDLClassName (param_type (req (func_list t ! i))) = Inr rt"
    "GetIDLClassName (param_type (rsp (func_list t ! i))) = Inr st" "sublist (registration t cls i rt st) svc"
  using assms(1) unfolding GenerateServiceCpp_def bind_res_Inr_conv sum.inject
  apply (elim exE conjE)
  subgoal premises p for cls methods fns
  proof -
    have m: "map_res (\<lambda>(i, f). add_method_lines t cls i f) (enumerate 0 (func_list t)) = Inr methods" by (rule p)
    have "add_method_lines t cls i (func_list t ! i) = Inr (methods ! i)" "i < length methods"
      using map_res_nth [where i = i, OF m] assms(2) by (simp_all add: nth_enumerate_eq)
    then obtain rt st z where r: "GetIDLClassName (param_type (req (func_list t ! i))) = Inr rt"
      "GetIDLClassName (param_type (rsp (func_list t ! i))) = Inr st" "methods ! i = registration t cls i rt st @ z"
      by (elim add_method_lines_registration)
    have "sublist (registration t cls i rt st) (methods ! i)" unfolding r(3) by (simp add: sublist_left)
    then have "sublist (registration t cls i rt st) (concat methods)"
      using sublist_concat_nth [OF \<open>i < length methods\<close>] by (rule sublist_trans)
    note s = sublist_left [OF this]
    show thesis
      by (rule p(1) [OF p(2) r(1,2)], unfold p(5) [symmetric]) ((rule s) | (rule sublist_right))+
  qed
  done

lemma stub_initialises:
  assumes "GenerateStubCpp t = Inr stub" "i < length (func_list t)"
  shows "sublist (initialiser t i) stub"
  using assms(1) unfolding GenerateStubCpp_def bind_res_Inr_conv sum.inject
  apply (elim exE conjE)
  subgoal premises p for cls fns
  proof -
    have "sublist (initialiser t i) (stub_initializer t i (func_list t ! i))"
      unfolding stub_initializer_def initialiser_def by (intro sublist_left) simp
    moreover have "sublist (stub_initializer t i (func_list t ! i))
        (concat (map (\<lambda>(i, f). stub_initializer t i f) (enumerate 0 (func_list t))))"
      using sublist_concat_nth [of i "map (\<lambda>(i, f). stub_initializer t i f) (enumerate 0 (func_list t))"] assms(2)
      by (simp add: nth_enumerate_eq)
    ultimately have "sublist (initialiser t i)
        (concat (map (\<lambda>(i, f). stub_initializer t i f) (enumerate 0 (func_list t))))" by (rule sublist_trans)
    note s = sublist_left [OF this]
    show ?thesis unfolding p(3) [symmetric] by ((rule s) | (rule sublist_right))+
  qed
  done

end
