(* ===== verification/Cg_Total.thy ===== *)
theory Cg_Total
  imports Cg_Props
begin

text \<open>
  A syntax tree that the parser made is all that the generators need: none of them fails on it, and a run
  of the program makes every file.
\<close>

section \<open>Results that are made\<close>

lemma made_Inr [simp]: "made (Inr x)" by (simp add: made_def)

lemma made_bind: "made m \<Longrightarrow> (\<And>x. m = Inr x \<Longrightarrow> made (f x)) \<Longrightarrow> made (bind_res m f)"
  by (auto simp: made_def split: sum.splits)

lemma map_res_made: "\<forall>x \<in> set xs. made (f x) \<Longrightarrow> made (map_res f xs)"
  by (induction xs) (auto intro!: made_bind)

lemma IDL_made: "made (GetIDLClassName ty)"
  by (simp add: GetIDLClassName_def StrReplaceAll_nonempty)

lemma named_class_made: "name \<noteq> [] \<Longrightarrow> made (named_class fmt name)"
  by (cases name) (auto simp: named_class_def)

lemma replace_each_made: "\<forall>(fr, to) \<in> set rs. fr \<noteq> [] \<Longrightarrow> made (replace_each rs str)"
  by (induction rs arbitrary: str) (auto simp: StrReplaceAll_nonempty)

lemma append_tabs_made: "0 \<le> n \<Longrightarrow> made (append_tabs n buf)"
  by (simp add: append_tabs_def)

lemmas class_made = GetServiceClassName_def GetServiceImplClassName_def GetStubClassName_def GetClientClassName_def

lemma service_declaration_made:
  "service_name t \<noteq> [] \<Longrightarrow> 1 \<le> n \<Longrightarrow> made (GetServiceFuncDeclaration t f decl impl n buf)"
  unfolding GetServiceFuncDeclaration_def class_made
  by (auto intro!: made_bind simp: append_tabs_made named_class_made IDL_made)

lemma stub_declaration_made:
  "service_name t \<noteq> [] \<Longrightarrow> 1 \<le> n \<Longrightarrow> made (GetStubFuncDeclaration t f decl n buf)"
  unfolding GetStubFuncDeclaration_def class_made
  by (auto intro!: made_bind simp: append_tabs_made named_class_made IDL_made)

lemmas makes = map_res_made named_class_made IDL_made service_declaration_made stub_declaration_made

section \<open>The generators\<close>

text \<open>A tree as the parser leaves it.\<close>

definition tree_ok :: "syntax_tree \<Rightarrow> bool" where
  "tree_ok t \<longleftrightarrow> service_name t \<noteq> [] \<and> func_list t \<noteq> []"

lemma service_files_made:
  assumes "tree_ok t"
  shows "made (GenerateServiceHpp t)" "made (GenerateServiceCpp t)" "made (GenerateServiceImplHpp t)" "made (GenerateServiceImplCpp t)"
proof -
  obtain f fs where l: "func_list t = f # fs" and s: "service_name t \<noteq> []" using assms by (auto simp: tree_ok_def neq_Nil_conv)
  show "made (GenerateServiceHpp t)" unfolding GenerateServiceHpp_def class_made
    by (auto intro!: made_bind makes simp: s)
  show "made (GenerateServiceCpp t)" unfolding GenerateServiceCpp_def class_made add_method_lines_def
    by (auto intro!: made_bind makes simp: s)
  show "made (GenerateServiceImplHpp t)" unfolding GenerateServiceImplHpp_def class_made l list.case
    by (auto intro!: made_bind makes simp: s)
  show "made (GenerateServiceImplCpp t)" unfolding GenerateServiceImplCpp_def class_made l list.case
    by (auto intro!: made_bind makes simp: s)
qed

lemma client_files_made:
  assumes "tree_ok t"
  shows "made (GenerateClientHpp t)" "made (GenerateClientCpp t)" "made (GenerateStubHpp t)" "made (GenerateStubCpp t)"
proof -
  obtain f fs where l: "func_list t = f # fs" and s: "service_name t \<noteq> []" using assms by (auto simp: tree_ok_def neq_Nil_conv)
  show "made (GenerateClientHpp t)" unfolding GenerateClientHpp_def class_made l list.case
    by (auto intro!: made_bind makes simp: s)
  show "made (GenerateClientCpp t)" unfolding GenerateClientCpp_def class_made l list.case
    by (auto intro!: made_bind makes simp: s)
  show "made (GenerateStubHpp t)" unfolding GenerateStubHpp_def class_made
    by (auto intro!: made_bind makes simp: s)
  show "made (GenerateStubCpp t)" unfolding GenerateStubCpp_def class_made
    by (auto intro!: made_bind makes simp: s)
qed

lemma main_files_made:
  assumes "tree_ok t"
  shows "made (GenerateServerMainCpp t)" "made (GenerateClientMainCpp t)"
proof -
  have s: "service_name t \<noteq> []" using assms by (simp add: tree_ok_def)
  show "made (GenerateServerMainCpp t)" unfolding GenerateServerMainCpp_def class_made
    by (intro made_bind named_class_made s replace_each_made made_Inr) simp
  show "made (GenerateClientMainCpp t)" unfolding GenerateClientMainCpp_def class_made
    by (intro made_bind named_class_made s replace_each_made made_Inr) simp
qed

text \<open>The directories that \<open>configure\<close> writes into the program.\<close>

definition homes_ok :: "cg_env \<Rightarrow> bool" where
  "homes_ok E \<longleftrightarrow> (\<forall>p \<in> {protobuf_home E, emoskit_home E}. p \<noteq> [] \<and> length p < BUFFER_SIZE)"

lemma makefile_made: "homes_ok E \<Longrightarrow> made (GenerateMakefile t (protobuf_home E) (emoskit_home E))"
  unfolding GenerateMakefile_def strip_slash_def homes_ok_def
  by (intro made_bind replace_each_made made_Inr) (auto intro!: made_bind replace_each_made simp: StrReplaceAll_nonempty)

lemma files_made: "tree_ok t \<Longrightarrow> homes_ok E \<Longrightarrow> (keep, p, c) \<in> set (files_of E t out) \<Longrightarrow> made c"
  using service_files_made [of t] client_files_made [of t] main_files_made [of t] makefile_made [of E t]
  unfolding files_of_defs by (auto simp only: list.set insert_iff empty_iff prod.inject made_Inr)

section \<open>The parser's trees\<close>

lemma cg_setup_tree:
  assumes "cg_setup E program opts st = Inr (t, out)"
  shows "func_list t \<noteq> []"
  using assms by (auto simp: cg_setup_def Parse_def AddEcho_def Let_def split: sum.splits option.splits prod.splits if_splits)

lemma last_write_exists: "(False, p, c) \<in> set fs \<Longrightarrow> \<forall>(k, q, d) \<in> set fs. made d \<Longrightarrow> last_write fs p \<noteq> None"
  by (induction fs) (auto simp: made_def split: option.splits sum.splits)

lemma first_made_exists: "(True, p, c) \<in> set fs \<Longrightarrow> \<forall>(k, q, d) \<in> set fs. made d \<Longrightarrow> first_made fs p \<noteq> None"
  by (induction fs) (auto simp: made_def split: sum.splits)

lemma written_exists:
  "(k, p, c) \<in> set fs \<Longrightarrow> \<forall>(k, q, d) \<in> set fs. made d \<Longrightarrow> written_to fs st p \<noteq> None"
  using last_write_exists [of p c fs] first_made_exists [of p c fs]
  by (cases k) (auto simp: written_to_def split: option.splits)

text \<open>C16. A run goes well whenever the options are complete and the parser finds a service: no generator
  fails on a tree the parser made (each class name has its first letter, the function that the examples call
  exists, no replacement runs forever), and with a writable directory the program ends normally and all
  fourteen files are there.\<close>

theorem generator_succeeds:
  assumes "cg_setup E program opts st = Inr (t, out)" "service_name t \<noteq> []" "homes_ok E" "\<forall>p. can_write st p"
  shows "fst (cg_main E program opts st) = None \<and> length (files_of E t out) = 14 \<and>
    (\<forall>(keep, p, c) \<in> set (files_of E t out). made c \<and> disk (snd (cg_main E program opts st)) p \<noteq> None)"
proof -
  have "tree_ok t" using cg_setup_tree [OF assms(1)] assms(2) by (simp add: tree_ok_def)
  note made = files_made [OF this assms(3)]
  have all: "\<forall>(k, q, d) \<in> set (files_of E t out). made d" using made by blast
  have "will_pass (files_of E t out) st" using all assms(4) by (auto simp: will_pass_def made_iff)
  then have p: "fst (write_files program (files_of E t out) st) = None" by (rule write_files_pass)
  have "\<forall>(keep, p, c) \<in> set (files_of E t out). made c \<and> disk (snd (write_files program (files_of E t out) st)) p \<noteq> None"
    using all written_exists [OF _ all] unfolding write_files_disk [OF p] by fastforce
  moreover have "length (files_of E t out) = 14" by (simp add: files_of_defs)
  ultimately show ?thesis using p assms(1) by (simp add: cg_main_def)
qed

theorem generator_succeeds_witness:
  "fst (cg_main gen_env ''emoskit'' gen_options gen_state) = None \<and>
   disk (snd (cg_main gen_env ''emoskit'' gen_options gen_state)) ''out/calc_method_names.h'' \<noteq> None"
proof -
  have n: "service_name gen_tree \<noteq> []" by code_simp
  have h: "homes_ok gen_env" by (simp add: homes_ok_def gen_env_def BUFFER_SIZE_def)
  have w: "\<forall>p. can_write gen_state p" by (simp add: gen_state_def)
  have "(False, ''out/calc_method_names.h'', Inr (GenerateMethodNameHpp gen_tree)) \<in> set (files_of gen_env gen_tree ''out'')"
    unfolding files_of_defs gen_files by (simp only: list.set insert_iff simp_thms prod.inject)
  then show ?thesis using generator_succeeds [OF gen_setup n h w] by fastforce
qed

end
