(* ===== verification/Cg_Agree.thy ===== *)
theory Cg_Agree
  imports Cg_Props
begin

text \<open>
  How generated files fit the framework: client and server use the same names, the generated configurations
  are read back, and what a service with a method of its own called \<open>Echo\<close> does.
\<close>

section \<open>Names\<close>

text \<open>The registrations of the generated service's constructor.\<close>

definition register_all :: "string list \<Rightarrow> 'ctx run_handler list \<Rightarrow> 'ctx service_method list" where
  "register_all names hs = map (\<lambda>(n, h). ServiceMethod n NORMAL_METHOD (Some h)) (zip names hs)"

lemma register_all_hashes:
  "length hs = length names \<Longrightarrow> map method_hash (register_all names hs) = map hash_code names"
  by (auto simp: register_all_def ServiceMethod_def list_eq_iff_nth_eq)

lemma call_by_name:
  assumes "length hs = length names" "distinct (map hash_code names)" "i < length names"
  shows "\<exists>ms. add_all (register_all names hs) Map.empty = Inr ms \<and>
    CallMethod ms ctx (hash_code (names ! i)) p r = Inr ((hs ! i) ctx p r)"
proof -
  let ?sm = "ServiceMethod (names ! i) NORMAL_METHOD (Some (hs ! i))"
  have "?sm \<in> set (register_all names hs)"
    using assms(1,3) by (force simp: register_all_def set_zip)
  then have "map_of (rev (map (\<lambda>sm. (method_hash sm, sm)) (register_all names hs))) (method_hash ?sm) = Some ?sm"
    using assms(2) register_all_hashes [OF assms(1)] by (intro map_of_rev_distinct) simp_all
  then show ?thesis
    using assms(2) register_all_hashes [OF assms(1)]
    by (simp add: add_all_result CallMethod_def ServiceMethod_def) (simp add: run_method_def)
qed

text \<open>C15. The generated server and the generated client name each method in the same way: the string
  literals of \<open>_method_names.h\<close> are \<open>package/service/method\<close> for the methods of the tree in order, the
  service registers the handler that calls method \<open>i\<close> under entry \<open>i\<close>, and the stub initialises the method that it
  uses to call method \<open>i\<close> with entry \<open>i\<close> as well. So, when the hash codes of the names are distinct, a call with
  the hash code of entry \<open>i\<close> reaches the \<open>i\<close>-th of the handlers that were registered in this way.\<close>

theorem client_server_agree:
  assumes "plain_names t" "i < length (func_list t)"
    "GenerateServiceCpp t = Inr svc" "GenerateStubCpp t = Inr stub"
  shows "literals (GenerateMethodNameHpp t) = map (wire_name t) (func_list t) \<and>
    (\<exists>cls rt st. GetServiceClassName (service_name t) = Inr cls \<and>
       GetIDLClassName (param_type (req (func_list t ! i))) = Inr rt \<and>
       GetIDLClassName (param_type (rsp (func_list t ! i))) = Inr st \<and>
       sublist (registration t cls i rt st) svc) \<and>
    sublist (initialiser t i) stub \<and>
    (length hs = length (func_list t) \<and> distinct (map hash_code (literals (GenerateMethodNameHpp t))) \<longrightarrow>
      (\<exists>ms. add_all (register_all (literals (GenerateMethodNameHpp t)) hs) Map.empty = Inr ms \<and>
         CallMethod ms ctx (hash_code (literals (GenerateMethodNameHpp t) ! i)) p r = Inr ((hs ! i) ctx p r)))"
proof (intro conjI impI)
  note n = method_names_header [OF assms(1)]
  show "literals (GenerateMethodNameHpp t) = map (wire_name t) (func_list t)" by (rule n)
  show "\<exists>cls rt st. GetServiceClassName (service_name t) = Inr cls \<and>
       GetIDLClassName (param_type (req (func_list t ! i))) = Inr rt \<and>
       GetIDLClassName (param_type (rsp (func_list t ! i))) = Inr st \<and>
       sublist (registration t cls i rt st) svc"
    using service_registers [OF assms(3,2)] by metis
  show "sublist (initialiser t i) stub" by (rule stub_initialises [OF assms(4,2)])
  assume "length hs = length (func_list t) \<and> distinct (map hash_code (literals (GenerateMethodNameHpp t)))"
  then show "\<exists>ms. add_all (register_all (literals (GenerateMethodNameHpp t)) hs) Map.empty = Inr ms \<and>
         CallMethod ms ctx (hash_code (literals (GenerateMethodNameHpp t) ! i)) p r = Inr ((hs ! i) ctx p r)"
    using call_by_name [where names = "literals (GenerateMethodNameHpp t)" and hs = hs and i = i] assms(2) n by simp
qed

definition gen_handlers :: "unit run_handler list" where
  "gen_handlers = [\<lambda>_ p _. (Status_OK, p), \<lambda>_ _ _. (Status_OK, ''sum'')]"

theorem client_server_agree_witness:
  "\<exists>svc stub ms. GenerateServiceCpp gen_tree = Inr svc \<and> GenerateStubCpp gen_tree = Inr stub \<and>
     literals (GenerateMethodNameHpp gen_tree) = [''demo/Calc/Echo'', ''demo/Calc/Add''] \<and>
     sublist (registration gen_tree ''CalcService'' 1 ''::demo::Pair'' ''::demo::Sum'') svc \<and>
     sublist (initialiser gen_tree 1) stub \<and>
     add_all (register_all [''demo/Calc/Echo'', ''demo/Calc/Add''] gen_handlers) Map.empty = Inr ms \<and>
     CallMethod ms () (hash_code ''demo/Calc/Add'') ''x'' [] = Inr (Status_OK, ''sum'')"
proof -
  have p: "plain_names gen_tree" and l: "1 < length (func_list gen_tree)" and len: "length (func_list gen_tree) = 2"
    and w: "map (wire_name gen_tree) (func_list gen_tree) = [''demo/Calc/Echo'', ''demo/Calc/Add'']" by code_simp+
  have n: "GetServiceClassName (service_name gen_tree) = Inr ''CalcService''"
    "GetIDLClassName (param_type (req (func_list gen_tree ! 1))) = Inr ''::demo::Pair''"
    "GetIDLClassName (param_type (rsp (func_list gen_tree ! 1))) = Inr ''::demo::Sum''" by code_simp+
  obtain svc stub where g: "GenerateServiceCpp gen_tree = Inr svc" "GenerateStubCpp gen_tree = Inr stub"
    using gen_made by (auto simp: made_iff)
  have d: "distinct (map hash_code [''demo/Calc/Echo'', ''demo/Calc/Add''])" by code_simp
  have h: "length gen_handlers = 2" "gen_handlers ! 1 = (\<lambda>_ _ _. (Status_OK, ''sum''))" by (simp_all add: gen_handlers_def)
  note a = client_server_agree [where t = gen_tree and i = 1 and hs = gen_handlers and ctx = "()" and p = "''x''" and r = "[]",
      OF p l g, unfolded n w len h]
  from a have lits: "literals (GenerateMethodNameHpp gen_tree) = [''demo/Calc/Echo'', ''demo/Calc/Add'']" by blast
  have second: "[''demo/Calc/Echo'', ''demo/Calc/Add''] ! 1 = ''demo/Calc/Add''" by simp
  from a obtain cls rt st where c: "Inr ''CalcService'' = (Inr cls :: string res)" "Inr ''::demo::Pair'' = (Inr rt :: string res)"
    "Inr ''::demo::Sum'' = (Inr st :: string res)" "sublist (registration gen_tree cls 1 rt st) svc" by blast
  from c(1-3) have "cls = ''CalcService''" "rt = ''::demo::Pair''" "st = ''::demo::Sum''" by (simp_all only: sum.inject)
  moreover from a have "sublist (initialiser gen_tree 1) stub" by blast
  moreover from a [unfolded lits second] d obtain ms where
    "add_all (register_all [''demo/Calc/Echo'', ''demo/Calc/Add''] gen_handlers) Map.empty = Inr ms"
    "CallMethod ms () (hash_code ''demo/Calc/Add'') ''x'' [] = Inr (Status_OK, ''sum'')" by blast
  ultimately show ?thesis using g lits c(4) by blast
qed

section \<open>A method called Echo\<close>

text \<open>C37. Every tree gets a method \<open>Echo\<close>. A service that declares a method with that name is parsed without
  complaint and its files are generated, but the server stops when it registers the method for the
  second time: \<open>AddMethod\<close> exits with status 0.\<close>

theorem user_echo_never_starts:
  assumes "Parse imp file dirs SyntaxTree = (0, t)" "plain_names t"
    "imp (''./'' # dirs) file = Some \<lparr>fd_package = pkg, fd_services = s # ss\<rparr>"
    "\<exists>m \<in> set (sd_methods s). md_name m = ''Echo''"
  shows "add_all (map (\<lambda>n. ServiceMethod n NORMAL_METHOD h) (literals (GenerateMethodNameHpp t))) Map.empty =
    Inl (ProcessExit 0)"
proof -
  obtain m where m: "m \<in> set (sd_methods s)" "md_name m = ''Echo''" using assms(4) by blast
  obtain e where t: "func_list t = e # map parse_method (sd_methods s)" "func_name e = ''Echo''"
    using assms(1,3) by (auto simp: Parse_def ParseProtoFile_def AddEcho_def SyntaxTree_def SyntaxFunc_def Let_def
        set_func_name_def strncpy_name_def NAME_LEN_def set_package_name_def set_proto_file_name_def set_service_name_def
        set_param_name_def set_param_type_def)
  have "func_name (parse_method m) = ''Echo''"
    using m(2) by (simp add: parse_method_def set_func_name_def strncpy_name_def NAME_LEN_def Let_def)
  then have "wire_name t (parse_method m) = wire_name t e" using t(2) by (simp add: wire_name_def)
  then have "\<not> distinct (map (wire_name t) (func_list t))" using t(1) m(1) by force
  then have "\<not> distinct (map method_hash (map (\<lambda>n. ServiceMethod n NORMAL_METHOD h) (map (wire_name t) (func_list t))))"
    using distinct_map [of hash_code "map (wire_name t) (func_list t)"] by (simp add: ServiceMethod_def o_def)
  then show ?thesis unfolding method_names_header [OF assms(2)] by (simp only: add_all_result) simp
qed

definition echo_importer :: "string list \<Rightarrow> string \<Rightarrow> file_descriptor option" where
  "echo_importer paths file = Some \<lparr>fd_package = ''demo'', fd_services = [\<lparr>sd_name = ''Calc'',
       sd_methods = [\<lparr>md_name = ''Echo'', input_type = ''demo.Pair'', output_type = ''demo.Sum''\<rparr>]\<rparr>]\<rparr>"

theorem user_echo_never_starts_witness:
  "\<exists>t. Parse echo_importer ''calc.proto'' [] SyntaxTree = (0, t) \<and>
     add_all (map (\<lambda>n. ServiceMethod n NORMAL_METHOD (None :: unit run_handler option)) (literals (GenerateMethodNameHpp t))) Map.empty =
       Inl (ProcessExit 0)"
proof -
  define t where "t = snd (Parse echo_importer ''calc.proto'' [] SyntaxTree)"
  have "fst (Parse echo_importer ''calc.proto'' [] SyntaxTree) = 0" by code_simp
  then have p: "Parse echo_importer ''calc.proto'' [] SyntaxTree = (0, t)" by (simp add: t_def prod_eq_iff)
  have "plain_names t" unfolding t_def by code_simp
  from user_echo_never_starts [OF p this] p show ?thesis by (auto simp: echo_importer_def)
qed

section \<open>The generated configurations\<close>


end
