(* ===== verification/Spec2Isabelle.thy ===== *)
theory Spec2Isabelle
  imports Prelude Bit_Util Heap4 Mem_Array Event Min_Heap Circ_Buf Notifier Ring_Core Conc_Buf
    Conc_Inv Conc_Fifo Config_Parser Text Logger Server_Config Client_Config Murmur Service
    Output_Buffer Streams Client_Call Ev_Dispatch Pool_Props Server_Props Sockets
    Server_Start Server_Up Server_Down Client_Stream Rpc Machine Cg_Total Cg_Agree
begin

text \<open>
  emoskit is a remote procedure call framework in C++: a server with an accepting thread, event loops on
  epoll and a pool of workers, a blocking client, and a code generator that turns a service of a protobuf
  file into the sources around them. This development models it in parts that follow the code, one
  theory for a component or a few, and proves what the parts promise each other.

  \<^bold>\<open>How the program works.\<close> A thread in \<open>Server::Wait\<close> accepts connections and puts their descriptors into the
  one-to-one ring of an event loop (\<open>simple_circbuf.h\<close>, \<open>simple_msg_queue.h\<close>), waking it through an eventfd
  (\<open>notifier.h\<close>). The loop (\<open>ev_loop.h\<close>, \<open>ev_epoll.cpp\<close>) calls \<open>AcceptFdCb\<close>, \<open>ReadCb\<close> and \<open>ResponseCb\<close>
  (\<open>network_event_handler.cpp\<close>). \<open>ReadCb\<close> turns a framed request into a task for the pool (\<open>thread_pool.h\<close>) over the
  many-to-many ring (\<open>circbuf.h\<close>, \<open>wait_strategy.h\<close>); a worker finds the method by the hash of its name
  (\<open>service.h\<close>, \<open>murmur_hash.cpp\<close>), runs it and queues the response, which \<open>ResponseCb\<close> frames into the output
  buffer of the connection. A client (\<open>create_stream.h\<close>, \<open>client_blocking_call.h\<close>) writes a framed request to a
  blocking stream and waits for the framed answer. The names that client and server hash come from
  the code generator (\<open>codegen/\<close>).

  \<^bold>\<open>How it is modelled.\<close> C++ objects are records, functions are HOL functions from the old state to the new
  one, and every run ends in a value or in a \<open>fault\<close> of \<open>Prelude\<close>: a null pointer, an access outside of an
  object, a dangling pointer, a failed assertion, overlapping \<open>memcpy\<close>, \<open>exit\<close>, \<open>abort\<close>, or not returning.
  Unsigned integers are words and wrap; \<open>int\<close> is the mathematical integer with the conversions of the code
  written out. What the program gets from outside is a script that its functions consume: the answers of
  system calls (\<open>Streams\<close>, \<open>Sockets\<close>), the events and times of a round of the loop (\<open>Ev_Dispatch\<close>), the choices of
  a schedule (\<open>Conc_Buf\<close>, \<open>Thread_Pool\<close>, \<open>Server_Start\<close>); theorems hold for every script. A function whose script
  has ended while it would wait is \<open>NoReturn\<close>, so that what a loop does is stated for scripts that suffice,
  and said so. Memory is sequentially consistent, and \<open>ev_tstamp\<close> is a real number instead of a \<open>double\<close>.
  Protobuf, \<open>getaddrinfo\<close>, \<open>inet_pton\<close>, \<open>realpath\<close>, random numbers and what the user registers are parameters.

  \<^bold>\<open>The parts.\<close>
  \<^item> \<open>Prelude\<close>, \<open>Text\<close>, \<open>Net_Order\<close>: faults and results, decimal numbers, the length in network byte order.
  \<^item> \<open>Machine\<close>: the locales \<open>machine\<close> and \<open>quiet_machine\<close> for everything that runs a schedule of steps, with its
    reachable states as an inductive predicate and the rules that turn an invariant of the steps into one of the
    runs. The rings, the notifier and the pool are interpretations.
  \<^item> \<open>Bit_Util\<close>: powers of two and the last set bit of \<open>util.h\<close>, with their values for every word.
  \<^item> \<open>Mem_Array\<close>: \<open>mm.h\<close> and \<open>array.h\<close>; the locale \<open>growing_table\<close> is what the tables of the event loop and of the
    timer heap need of an array.
  \<^item> \<open>Heap4\<close>, \<open>Min_Heap\<close>, \<open>Event\<close>: the 4-ary heap of \<open>common.h\<close>, verified once in the locale \<open>strict_weak_order\<close>, the
    timer heap of \<open>4-minheap-internal.h\<close> with the indices in its watchers, and the watchers. \<open>adjust_refines_adjustheap\<close>
    relates the two heaps.
  \<^item> \<open>Circ_Buf\<close>, \<open>Notifier\<close>: the one-to-one ring against the locale \<open>bounded_queue\<close>, and the queue with its eventfd as
    an interleaving of senders and the loop: no message is left behind.
  \<^item> \<open>Ring_Core\<close>, \<open>Conc_Buf\<close>, \<open>Conc_Inv\<close>, \<open>Conc_Fifo\<close>: the many-to-many ring as a machine whose steps are the shared
    accesses of \<open>circbuf.h\<close> and of the wait strategies; who owns a slot, and what becomes of the values.
  \<^item> \<open>Thread_Pool\<close>, \<open>Pool_Inv\<close>, \<open>Pool_Props\<close>: the pool as a machine over the calls of that ring.
  \<^item> \<open>Ev_State\<close>, \<open>Ev_Inv\<close>, \<open>Ev_Run\<close>, \<open>Ev_Dispatch\<close>, \<open>Ev_Epoll\<close>: the state of a loop and its operations, the invariant,
    pending events, timers and \<open>dispatch\<close>, and the backend over a model of what the kernel has registered.
  \<^item> \<open>Config_Parser\<close>, \<open>Server_Config\<close>, \<open>Client_Config\<close>, \<open>Logger\<close>: the configuration files and the log. The parser has a
    printer \<open>render\<close>, and reading back what was printed gives the same items.
  \<^item> \<open>Murmur\<close>, \<open>Service\<close>: the hash of names, registration and calls of methods, tasks.
  \<^item> \<open>Output_Buffer\<close>, \<open>Streams\<close>, \<open>Client_Call\<close>, \<open>Client_Stream\<close>: buffers, the blocking stream and the client's call.
  \<^item> \<open>Sockets\<close>: \<open>util.cpp\<close> and the descriptor helpers of \<open>util.h\<close> over a table of descriptors.
  \<^item> \<open>Server_Io\<close>, \<open>Server_Props\<close>, \<open>Server_Start\<close>, \<open>Server_Up\<close>, \<open>Server_Down\<close>: the three callbacks, start, the hand-over of
    connections, and the destructor; here the parts above are put together.
  \<^item> \<open>Rpc\<close>: client and server in one: a remote call returns what the handler returns.
  \<^item> \<open>Cg_Util\<close>, \<open>Cg_Tree\<close>, \<open>Cg_Templates\<close>, \<open>Cg_Server\<close>, \<open>Cg_Client\<close>, \<open>Cg_Main\<close>: the code generator, whose functions return the
    text they print and whose program works on a map from file names to contents. \<open>Cg_Props\<close>, \<open>Cg_Total\<close> and
    \<open>Cg_Agree\<close> hold what it guarantees; \<open>Cg_Agree\<close> ties it to \<open>Service\<close> and to the configuration readers.

  \<^bold>\<open>What is shown.\<close> Invariants that every operation keeps (the loop, both rings, the pool, the heaps), and from
  them that no assertion fails and no array is left; functional results on every branch; round trips
  (configurations, framing); refinement of simple specifications (a queue, a heap, a string); equivalence of
  the generator's replacement with the textbook one; termination of the parser and of the loops that wait
  for enough answers. Where the code does not do what it should, the theorem says what it does instead:
  lost wake-ups, requests in two pieces, one-shot timers, dangling addresses, a shutdown that hangs.

  \<^bold>\<open>Bounds and fuel.\<close> Sizes are those of the code: 64-bit ring and array sizes, 32-bit buffer offsets, at most
  \<open>2 ^ 20\<close> timers where an index is kept in an \<open>int\<close>, requests up to the 16384 bytes that \<open>ReadCb\<close> accepts, names of
  255 bytes and paths of 255 in the generator. Loops over data terminate by a measure; the only loops
  with fuel are those that run on a script, where the script is the fuel.

  \<^bold>\<open>Not modelled.\<close> The generated protobuf classes (\<open>network_proto.pb.*\<close>) and the compiler builtins behind
  \<open>gcc_atomic.h\<close>; weak memory; the other threads of a loop that is destroyed while they run; the messages of the
  log (only their filtering and layout are); headers that only declare (\<open>backend.h\<close>, \<open>channel.h\<close>,
  \<open>object_pool.h\<close>); the build files.
\<close>

end
